(* ===== verification/Prelude.thy ===== *)
theory Prelude
  imports Main "HOL-Library.Word" "HOL-Library.AList"
begin

text \<open>
  The library every component theory imports: the outcomes of C++ code (a value or a
  fault), the integer conversions the code relies on, the standard-library pieces the
  sources call (\<open>std::unordered_map\<close> with its inserting \<open>operator[]\<close>, \<open>memcpy\<close>,
  \<open>std::to_string\<close>, \<open>atoi\<close>, \<open>c_str()\<close>) and the generic lemmas about them.

  Words are used at the width of the C++ type: \<open>uint16_t\<close>, \<open>uint32_t\<close>, \<open>size_t\<close> (64 bits,
  LP64) and \<open>uint_fast32_t\<close> (64 bits with glibc on x86-64).
\<close>

section \<open>The hint collection\<close>

named_theorems model_defs \<open>the operations of a component, for unfolding\<close>

section \<open>Results of operations\<close>

text \<open>
  What ends a C++ operation other than a return: undefined behaviour or an exception.
\<close>

datatype fault =
    Signed_overflow      \<comment> \<open>e.g. \<open>abs(INT_MIN)\<close>\<close>
  | Division_by_zero
  | Out_of_bounds        \<comment> \<open>a read or write past the end of a buffer or array\<close>
  | Invalid_iterator     \<comment> \<open>use of an end or an erased iterator\<close>
  | Out_of_range         \<comment> \<open>\<open>std::out_of_range\<close> thrown by \<open>at()\<close>\<close>
  | Type_error           \<comment> \<open>\<open>msgpack::type_error\<close> thrown by a conversion\<close>
  | Assertion_failure    \<comment> \<open>a failed \<open>assert\<close>, also inside a library\<close>
  | Process_exit         \<comment> \<open>\<open>exit(EXIT_FAILURE)\<close>\<close>
  | Size_overflow        \<comment> \<open>\<open>msgpack::container_size_overflow\<close>: more than \<open>2 ^ 32 - 1\<close> bytes\<close>
  | Thread_error         \<comment> \<open>\<open>std::future_error\<close> or \<open>std::system_error\<close>: a promise or thread used twice\<close>
  | Rpc_error            \<comment> \<open>a remote call of a function that is not bound, or with a wrong arity\<close>

type_synonym 'a result = "fault + 'a"

definition rbind :: "'a result \<Rightarrow> ('a \<Rightarrow> 'b result) \<Rightarrow> 'b result" where
  "rbind r f = (case r of Inl e \<Rightarrow> Inl e | Inr a \<Rightarrow> f a)"

lemma rbind_simps [simp]:
  "rbind (Inl e) f = Inl e"
  "rbind (Inr a) f = f a"
  by (simp_all add: rbind_def)

lemma rbind_Inr_iff: "rbind r f = Inr b \<longleftrightarrow> (\<exists>a. r = Inr a \<and> f a = Inr b)"
  by (cases r) simp_all

lemma rbind_InrE [elim!]:
  assumes "rbind r f = Inr b"
  obtains a where "r = Inr a" "f a = Inr b"
  using assms by (auto simp: rbind_Inr_iff)

lemma rbind_cong [fundef_cong]:
  "r = r' \<Longrightarrow> (\<And>a. r' = Inr a \<Longrightarrow> f a = g a) \<Longrightarrow> rbind r f = rbind r' g"
  by (cases r') simp_all

text \<open>The faults a computation can end in.\<close>

definition faults_in :: "fault set \<Rightarrow> 'a result \<Rightarrow> bool" where
  "faults_in F r = (\<forall>e. r = Inl e \<longrightarrow> e \<in> F)"

lemma faults_in_intros [intro]:
  "faults_in F (Inr x)"
  "e \<in> F \<Longrightarrow> faults_in F (Inl e)"
  "faults_in F r \<Longrightarrow> (\<And>x. faults_in F (f x)) \<Longrightarrow> faults_in F (rbind r f)"
  by (cases r; auto simp: faults_in_def)+

text \<open>Mapping a fallible function over a list, from the left, stopping at the first fault.\<close>

fun rmap :: "('a \<Rightarrow> 'b result) \<Rightarrow> 'a list \<Rightarrow> 'b list result" where
  "rmap f [] = Inr []"
| "rmap f (x # xs) = rbind (f x) (\<lambda>y. rbind (rmap f xs) (\<lambda>ys. Inr (y # ys)))"

lemma rmap_map_Inr: "(\<And>x. x \<in> set xs \<Longrightarrow> f (g x) = Inr (h x)) \<Longrightarrow> rmap f (map g xs) = Inr (map h xs)"
  by (induction xs) simp_all

lemma rmap_cong [fundef_cong]:
  "xs = ys \<Longrightarrow> (\<And>x. x \<in> set ys \<Longrightarrow> f x = g x) \<Longrightarrow> rmap f xs = rmap g ys"
  by (induction ys arbitrary: xs) auto

text \<open>
  A loop that treats every element of a list: each step turns the element's precondition into
  its postcondition and disturbs neither condition of the other elements.
\<close>

lemma fold_establish:
  assumes "distinct xs" "\<And>x. x \<in> set xs \<Longrightarrow> pre x w"
    and own: "\<And>x w. x \<in> set xs \<Longrightarrow> pre x w \<Longrightarrow> post x (step x w)"
    and keep_pre: "\<And>x y w. x \<in> set xs \<Longrightarrow> y \<in> set xs \<Longrightarrow> x \<noteq> y \<Longrightarrow> pre y w \<Longrightarrow> pre x w \<Longrightarrow> pre x (step y w)"
    and keep_post: "\<And>x y w. x \<in> set xs \<Longrightarrow> y \<in> set xs \<Longrightarrow> x \<noteq> y \<Longrightarrow> pre y w \<Longrightarrow> post x w \<Longrightarrow> post x (step y w)"
    and "x \<in> set xs"
  shows "post x (fold step xs w)"
proof -
  have "(\<forall>y \<in> set ys. pre y w) \<longrightarrow> (\<forall>x \<in> set xs - set ys. post x w) \<longrightarrow> (\<forall>x \<in> set xs. post x (fold step ys w))"
    if "distinct ys" "set ys \<subseteq> set xs" for ys w
    using that
  proof (induction ys arbitrary: w)
    case (Cons y ys)
    show ?case
    proof (intro impI)
      assume pre: "\<forall>z \<in> set (y # ys). pre z w" and post: "\<forall>x \<in> set xs - set (y # ys). post x w"
      have "\<forall>z \<in> set ys. pre z (step y w)"
        using Cons.prems pre by (auto intro!: keep_pre)
      moreover have "post x (step y w)" if "x \<in> set xs - set ys" for x
      proof (cases "x = y")
        case True
        with that pre show ?thesis by (auto intro: own)
      next
        case False
        with that Cons.prems pre post show ?thesis by (intro keep_post) auto
      qed
      ultimately show "\<forall>x \<in> set xs. post x (fold step (y # ys) w)"
        using Cons.IH [of "step y w"] Cons.prems by simp
    qed
  qed simp
  with assms(1,2,6) show ?thesis by simp
qed

section \<open>Integer conversions\<close>

type_synonym u16 = "16 word"
type_synonym u32 = "32 word"
type_synonym u64 = "64 word"

text \<open>\<open>(int) x\<close> of a 64-bit unsigned value: the low 32 bits read as two's complement.\<close>

definition int_of_u64 :: "u64 \<Rightarrow> int" where
  "int_of_u64 x = sint (ucast x :: u32)"

text \<open>\<open>abs\<close> on \<open>int\<close>: undefined for the most negative value.\<close>

definition cxx_abs :: "int \<Rightarrow> int result" where
  "cxx_abs i = (if i = - (2 ^ 31) then Inl Signed_overflow else Inr \<bar>i\<bar>)"

text \<open>Unsigned 64-bit division, and the conversion of an \<open>int\<close> to \<open>uint64_t\<close>.\<close>

definition div_u64 :: "u64 \<Rightarrow> u64 \<Rightarrow> u64 result" where
  "div_u64 a b = (if b = 0 then Inl Division_by_zero else Inr (a div b))"

definition u64_of_int :: "int \<Rightarrow> u64" where
  "u64_of_int i = word_of_int i"

text \<open>Narrowing of a \<open>uint64_t\<close> to \<open>int16_t\<close>.\<close>

definition s16_of_u64 :: "u64 \<Rightarrow> int" where
  "s16_of_u64 x = sint (ucast x :: u16)"

lemma cxx_abs_Inr [simp]: "i \<noteq> - (2 ^ 31) \<Longrightarrow> cxx_abs i = Inr \<bar>i\<bar>"
  by (simp add: cxx_abs_def)

lemma cxx_abs_InrD: "cxx_abs i = Inr j \<Longrightarrow> j = \<bar>i\<bar>"
  by (simp add: cxx_abs_def split: if_splits)

lemma int_of_u64_bounds: "- (2 ^ 31) \<le> int_of_u64 x" "int_of_u64 x < 2 ^ 31"
  using sint_ge [of "ucast x :: u32"] sint_lt [of "ucast x :: u32"]
  by (simp_all add: int_of_u64_def)

lemma sint_ucast_u32: "sint (ucast (x :: u64) :: u32) = signed_take_bit 31 (uint x)"
  by transfer (simp add: signed_take_bit_take_bit)

lemma sint_ucast_u16: "sint (ucast (x :: u64) :: u16) = signed_take_bit 15 (uint x)"
  by transfer (simp add: signed_take_bit_take_bit)

lemma int_of_u64_word_of_int:
  assumes "- (2 ^ 31) \<le> i" "i < 2 ^ 31"
  shows "int_of_u64 (word_of_int i) = i"
  using assms unfolding int_of_u64_def sint_ucast_u32
  by (simp add: uint_word_of_int_eq signed_take_bit_take_bit signed_take_bit_int_eq_self_iff)

lemma s16_of_u64_small: "uint x < 2 ^ 15 \<Longrightarrow> s16_of_u64 x = uint x"
  unfolding s16_of_u64_def sint_ucast_u16
  by (auto simp: signed_take_bit_int_eq_self_iff intro: order_trans [OF _ uint_ge_0])

lemma mod_u64_small: "0 \<le> i \<Longrightarrow> i < 2 ^ 31 \<Longrightarrow> i mod 2 ^ 64 = (i :: int)"
  by simp

section \<open>Hash tables: \<open>std::unordered_map\<close>\<close>

text \<open>
  A \<open>std::unordered_map\<close> is an association list in its iteration order (new keys at the
  end; the standard leaves the order open, and no property depends on it). \<open>operator[]\<close>
  inserts a value-initialised entry when the key is missing, so that reading is a mutation.
\<close>

type_synonym ('k, 'v) table = "('k \<times> 'v) list"

definition um_get :: "('k, 'v) table \<Rightarrow> 'k \<Rightarrow> 'v option" where
  "um_get m = map_of m"

definition um_keys :: "('k, 'v) table \<Rightarrow> 'k list" where
  "um_keys m = map fst m"

definition um_set :: "'k \<Rightarrow> 'v \<Rightarrow> ('k, 'v) table \<Rightarrow> ('k, 'v) table" where
  "um_set k v m = AList.update k v m"

definition um_erase :: "'k \<Rightarrow> ('k, 'v) table \<Rightarrow> ('k, 'v) table" where
  "um_erase k m = AList.delete k m"

definition um_index :: "'v \<Rightarrow> ('k, 'v) table \<Rightarrow> 'k \<Rightarrow> 'v \<times> ('k, 'v) table" where
  "um_index d m k = (case um_get m k of Some v \<Rightarrow> (v, m) | None \<Rightarrow> (d, um_set k d m))"

definition um_wf :: "('k, 'v) table \<Rightarrow> bool" where
  "um_wf m = distinct (um_keys m)"

text \<open>What a client of a table relies on.\<close>

locale keyed_table =
  fixes get :: "'m \<Rightarrow> 'k \<Rightarrow> 'v option"
    and keys :: "'m \<Rightarrow> 'k list"
    and put :: "'k \<Rightarrow> 'v \<Rightarrow> 'm \<Rightarrow> 'm"
    and index :: "'v \<Rightarrow> 'm \<Rightarrow> 'k \<Rightarrow> 'v \<times> 'm"
    and wf :: "'m \<Rightarrow> bool"
  assumes set_keys: "set (keys m) = dom (get m)"
    and get_put: "get (put k v m) = (get m)(k \<mapsto> v)"
    and wf_put: "wf m \<Longrightarrow> wf (put k v m)"
    and wf_distinct: "wf m \<Longrightarrow> distinct (keys m)"
    and index_present: "get m k = Some v \<Longrightarrow> index d m k = (v, m)"
    and index_absent: "get m k = None \<Longrightarrow> index d m k = (d, put k d m)"
begin

lemma index_value: "fst (index d m k) = (case get m k of Some v \<Rightarrow> v | None \<Rightarrow> d)"
  by (cases "get m k") (simp_all add: index_present index_absent)

lemma index_table:
  "get (snd (index d m k)) = (case get m k of Some v \<Rightarrow> get m | None \<Rightarrow> (get m)(k \<mapsto> d))"
  by (cases "get m k") (simp_all add: index_present index_absent get_put)

lemma index_known: "k \<in> set (keys m) \<Longrightarrow> snd (index d m k) = m"
  by (auto simp: set_keys index_present)

lemma wf_index: "wf m \<Longrightarrow> wf (snd (index d m k))"
  by (cases "get m k") (simp_all add: index_present index_absent wf_put)

lemma keys_put: "set (keys (put k v m)) = insert k (set (keys m))"
  by (auto simp: set_keys get_put)

lemma keys_index: "set (keys (snd (index d m k))) = insert k (set (keys m))"
  by (auto simp: set_keys index_table split: option.splits)

lemma keys_put_mono: "set (keys m) \<subseteq> set (keys (put k v m))"
  by (auto simp: keys_put)

text \<open>Reading a list of keys one after the other adds exactly the missing ones.\<close>

lemma get_fold_index:
  "get (fold (\<lambda>k m. snd (index d m k)) ks m) x =
     (if x \<in> set ks \<and> get m x = None then Some d else get m x)"
  by (induction ks arbitrary: m) (auto simp: index_table split: option.splits)

lemma keys_fold_index: "set (keys (fold (\<lambda>k m. snd (index d m k)) ks m)) = set ks \<union> set (keys m)"
  by (auto simp: set_keys get_fold_index split: if_splits)

end

lemma um_keys_set: "set (um_keys m) = dom (um_get m)"
  by (simp add: um_keys_def um_get_def dom_map_of_conv_image_fst)

lemma um_get_set [simp]: "um_get (um_set k v m) = (um_get m)(k \<mapsto> v)"
  by (simp add: um_get_def um_set_def AList.update_conv')

lemma um_get_erase [simp]: "um_get (um_erase k m) = (um_get m)(k := None)"
  by (simp add: um_get_def um_erase_def AList.delete_conv')

lemma um_get_Nil [simp]: "um_get [] k = None"
  by (simp add: um_get_def)

interpretation um: keyed_table um_get um_keys um_set um_index um_wf
proof unfold_locales
  show "set (um_keys m) = dom (um_get m)" for m :: "('k, 'v) table"
    by (rule um_keys_set)
  show "um_wf (um_set k v m)" if "um_wf m" for k v and m :: "('k, 'v) table"
    using that by (simp add: um_wf_def um_keys_def um_set_def AList.distinct_update)
qed (simp_all add: um_wf_def um_index_def)

lemma um_wf_erase: "um_wf m \<Longrightarrow> um_wf (um_erase k m)"
  by (simp add: um_wf_def um_keys_def um_erase_def AList.distinct_delete)

lemma um_wf_Nil [simp]: "um_wf []"
  by (simp add: um_wf_def um_keys_def)

section \<open>Strings and buffers\<close>

text \<open>\<open>std::to_string\<close> of an unsigned value: its decimal digits, most significant first.\<close>

definition digit_char :: "nat \<Rightarrow> char" where
  "digit_char d = char_of (48 + d)"

fun to_string :: "nat \<Rightarrow> string" where
  "to_string n = (if n < 10 then [digit_char n] else to_string (n div 10) @ [digit_char (n mod 10)])"

declare to_string.simps [simp del]

text \<open>The digit test and the value of a digit, as \<open>atoi\<close> uses them.\<close>

definition is_digit :: "char \<Rightarrow> bool" where
  "is_digit c = (48 \<le> (of_char c :: nat) \<and> (of_char c :: nat) \<le> 57)"

definition digits_value :: "string \<Rightarrow> nat" where
  "digits_value ds = foldl (\<lambda>a c. 10 * a + (of_char c - 48)) 0 ds"

text \<open>
  \<open>atoi\<close>: leading white space, an optional sign, then the longest run of digits; the value
  must fit an \<open>int\<close>, otherwise the behaviour is undefined.
\<close>

definition is_space :: "char \<Rightarrow> bool" where
  "is_space c = ((of_char c :: nat) = 32 \<or> (9 \<le> (of_char c :: nat) \<and> (of_char c :: nat) \<le> 13))"

definition fit_int :: "int \<Rightarrow> int result" where
  "fit_int i = (if - (2 ^ 31) \<le> i \<and> i < 2 ^ 31 then Inr i else Inl Signed_overflow)"

definition atoi :: "string \<Rightarrow> int result" where
  "atoi s = (case dropWhile is_space s of
       [] \<Rightarrow> Inr 0
     | c # cs \<Rightarrow>
         if c = CHR ''-'' then fit_int (- int (digits_value (takeWhile is_digit cs)))
         else if c = CHR ''+'' then fit_int (int (digits_value (takeWhile is_digit cs)))
         else fit_int (int (digits_value (takeWhile is_digit (c # cs)))))"

text \<open>A string read through \<open>c_str()\<close> ends at its first NUL.\<close>

definition c_str :: "string \<Rightarrow> string" where
  "c_str s = takeWhile (\<lambda>c. c \<noteq> CHR 0x00) s"

text \<open>\<open>memcpy(dst, src, n)\<close> for a destination of known size: out of bounds if it does not fit.\<close>

definition memcpy_into :: "string \<Rightarrow> string \<Rightarrow> string result" where
  "memcpy_into dst src =
     (if length src \<le> length dst then Inr (src @ drop (length src) dst) else Inl Out_of_bounds)"

text \<open>\<open>std::string(data, n)\<close>: the first \<open>n\<close> bytes of a buffer.\<close>

definition string_of_buffer :: "string \<Rightarrow> nat \<Rightarrow> string result" where
  "string_of_buffer buf n = (if n \<le> length buf then Inr (take n buf) else Inl Out_of_bounds)"

text \<open>
  Writing into a file at an offset: a gap behind the end is filled with zero bytes, and what lies
  behind the written bytes stays.
\<close>

definition write_at :: "string \<Rightarrow> nat \<Rightarrow> string \<Rightarrow> string" where
  "write_at content off data =
     (if data = [] then content
      else take off (content @ replicate (off - length content) (CHR 0x00)) @ data @ drop (off + length data) content)"

lemma length_write_at: "data \<noteq> [] \<Longrightarrow> length (write_at content off data) = max (length content) (off + length data)"
  by (auto simp: write_at_def)

lemma write_at_end [simp]: "write_at content (length content) data = content @ data"
  by (simp add: write_at_def)

lemma write_at_start: "write_at content 0 data = data @ drop (length data) content"
  by (simp add: write_at_def)

lemma of_char_digit: "d < 10 \<Longrightarrow> (of_char (digit_char d) :: nat) = 48 + d"
  by (simp add: digit_char_def)

lemma is_digit_digit_char: "d < 10 \<Longrightarrow> is_digit (digit_char d)"
  by (simp add: is_digit_def of_char_digit)

lemma to_string_digits: "\<forall>c \<in> set (to_string n). is_digit c"
proof (induction n rule: to_string.induct)
  case (1 n)
  then show ?case
    by (subst to_string.simps) (auto simp: is_digit_digit_char)
qed

lemma to_string_nonempty [simp]: "to_string n \<noteq> []"
  by (subst to_string.simps) simp

lemma digits_value_append: "digits_value (ds @ [c]) = 10 * digits_value ds + (of_char c - 48)"
  by (simp add: digits_value_def)

lemma digits_value_to_string [simp]: "digits_value (to_string n) = n"
proof (induction n rule: to_string.induct)
  case (1 n)
  show ?case
  proof (cases "n < 10")
    case True
    then show ?thesis
      by (simp add: to_string.simps [of n] digits_value_def of_char_digit)
  next
    case False
    with 1 show ?thesis
      by (simp add: to_string.simps [of n] digits_value_append of_char_digit)
  qed
qed

lemma to_string_inject [simp]: "to_string m = to_string n \<longleftrightarrow> m = n"
  by (metis digits_value_to_string)

lemma takeWhile_to_string [simp]: "takeWhile is_digit (to_string n) = to_string n"
  using to_string_digits by (simp add: takeWhile_eq_all_conv)

text \<open>A separator that is no digit splits \<open>s @ sep @ to_string n\<close> in one way only.\<close>

lemma append_to_string_inject:
  assumes "\<not> is_digit c" and "s @ c # to_string m = t @ c # to_string n"
  shows "s = t \<and> m = n"
proof -
  let ?tail = "\<lambda>w. rev (takeWhile is_digit (rev w))"
  have tail: "?tail (u @ c # to_string k) = to_string k" for u k
  proof -
    have rev_digits: "takeWhile is_digit (rev (to_string k)) = rev (to_string k)"
      using to_string_digits [of k] by (simp add: takeWhile_eq_all_conv)
    show ?thesis
      using assms(1) by (simp add: takeWhile_tail rev_digits)
  qed
  from assms(2) have "to_string m = to_string n"
    by (metis tail)
  with assms(2) show ?thesis by simp
qed

lemma atoi_to_string_tail:
  assumes "n < 2 ^ 31" "\<And>c cs. tail = c # cs \<Longrightarrow> \<not> is_digit c"
  shows "atoi (to_string n @ tail) = Inr (int n)"
proof -
  obtain c cs where s: "to_string n = c # cs"
    by (cases "to_string n") simp_all
  from to_string_digits [of n] s have c: "is_digit c" by simp
  then have *: "\<not> is_space c" "c \<noteq> CHR ''-''" "c \<noteq> CHR ''+''"
    by (auto simp: is_digit_def is_space_def)
  have "takeWhile is_digit tail = []"
    using assms(2) by (cases tail) auto
  then have "takeWhile is_digit (to_string n @ tail) = to_string n"
    using to_string_digits [of n] by (simp add: takeWhile_append)
  with * have "atoi (to_string n @ tail) = fit_int (int (digits_value (to_string n)))"
    by (simp add: atoi_def s)
  with assms(1) show ?thesis by (simp add: fit_int_def)
qed

lemma atoi_to_string: "n < 2 ^ 31 \<Longrightarrow> atoi (to_string n) = Inr (int n)"
  using atoi_to_string_tail [of n "[]"] by simp

end
