(* ===== verification/Regulator.thy ===== *)
theory Regulator
  imports Prelude
begin

text \<open>
  The byte-flow regulator server: \<open>include/rhea/byte_flow_regulator/server.h\<close>,
  \<open>src/rhea/byte_flow_regulator/server.cpp\<close> and \<open>include/rhea/common/enumerations.h\<close>.

  The state is the pair of rate tables; each RPC handler is one function on it. The job
  manager of the \<open>sentinel\<close> submodule is seen through the one call the regulator makes,
  \<open>ChangeResourceAllocation\<close>: the allocations passed to it are the output of the model.
  Here every handler and every sweep is one function on the whole state; their interleaving is the
  subject of theory \<open>Regulator_Threads\<close> and the locks are that of \<open>Regulator_Locks\<close>. Job ids have 32 bits, as in
  \<open>rhea::Client(uint32_t job_id_, ...)\<close>; the rates are \<open>uint_fast32_t\<close> (64 bits).
\<close>

section \<open>Data\<close>

type_synonym job_id = u32
type_synonym rate = u64
type_synonym rates = "(u16, rate) table"

record regulator =
  in_rate_map :: rates
  out_rate_map :: rates

definition init_regulator :: regulator where
  "init_regulator = \<lparr>in_rate_map = [], out_rate_map = []\<rparr>"

datatype Alter_Type = GROW | SHRINK

definition alter_value :: "Alter_Type \<Rightarrow> int" where
  "alter_value a = (case a of GROW \<Rightarrow> 1 | SHRINK \<Rightarrow> - 1)"

record regulator_conf =
  UPDATE_VARIATION :: u16
  UPDATE_STEP :: u64

definition default_conf :: regulator_conf where
  "default_conf = \<lparr>UPDATE_VARIATION = 100, UPDATE_STEP = 5\<rparr>"

text \<open>\<open>ResourceAllocation(job_id, node_var, 0, 0)\<close>; its node count is read as signed.\<close>

record resource_allocation =
  ra_job :: u16
  ra_nodes :: int
  ra_procs :: int
  ra_threads :: int

section \<open>Handlers\<close>

definition RegisterJob :: "job_id \<Rightarrow> regulator \<Rightarrow> bool \<times> regulator" where
  "RegisterJob j s =
     (let s1 = s\<lparr>in_rate_map := um_set (ucast j) 0 (in_rate_map s)\<rparr>;
          s2 = s1\<lparr>out_rate_map := um_set (ucast j) 0 (out_rate_map s1)\<rparr>
      in (True, s2))"

definition FinalizeJob :: "job_id \<Rightarrow> regulator \<Rightarrow> bool \<times> regulator" where
  "FinalizeJob j s =
     (let s1 = s\<lparr>in_rate_map := um_set (ucast j) 0 (in_rate_map s)\<rparr>;
          s2 = s1\<lparr>out_rate_map := um_set (ucast j) 0 (out_rate_map s1)\<rparr>
      in (True, s2))"

definition SetInRate :: "job_id \<Rightarrow> u32 \<Rightarrow> regulator \<Rightarrow> bool \<times> regulator" where
  "SetInRate j r s = (True, s\<lparr>in_rate_map := um_set (ucast j) (ucast r) (in_rate_map s)\<rparr>)"

definition SetOutRate :: "job_id \<Rightarrow> u32 \<Rightarrow> regulator \<Rightarrow> bool \<times> regulator" where
  "SetOutRate j r s = (True, s\<lparr>out_rate_map := um_set (ucast j) (ucast r) (out_rate_map s)\<rparr>)"

definition AlterCollector :: "u16 \<Rightarrow> rate \<Rightarrow> rate \<Rightarrow> bool" where
  "AlterCollector j out_rate in_rate = True"

definition AlterTransformers :: "u16 \<Rightarrow> rate \<Rightarrow> rate \<Rightarrow> bool" where
  "AlterTransformers j out_rate in_rate = True"

text \<open>\<open>abs((int)(out_rate - in_rate))\<close>\<close>

definition rate_gap :: "rate \<Rightarrow> rate \<Rightarrow> int result" where
  "rate_gap out_rate in_rate = cxx_abs (int_of_u64 (out_rate - in_rate))"

text \<open>
  \<open>int16_t node_var = difference * multiplier / BYTEFLOW_UPDATE_STEP\<close>: the product is an
  \<open>int\<close>, which the division by a \<open>uint64_t\<close> converts to \<open>uint64_t\<close> first.
\<close>

definition node_var :: "regulator_conf \<Rightarrow> rate \<Rightarrow> rate \<Rightarrow> int result" where
  "node_var c out_rate in_rate =
     (let multiplier = alter_value (if in_rate < out_rate then SHRINK else GROW)
      in rbind (rate_gap out_rate in_rate) (\<lambda>gap.
         let difference = gap - uint (UPDATE_VARIATION c) div 2
         in rbind (div_u64 (u64_of_int (difference * multiplier)) (UPDATE_STEP c)) (\<lambda>q.
            Inr (s16_of_u64 q))))"

definition AlterNodes :: "regulator_conf \<Rightarrow> u16 \<Rightarrow> rate \<Rightarrow> rate \<Rightarrow> resource_allocation result" where
  "AlterNodes c j out_rate in_rate = rbind (node_var c out_rate in_rate) (\<lambda>v.
     Inr \<lparr>ra_job = j, ra_nodes = v, ra_procs = 0, ra_threads = 0\<rparr>)"

section \<open>The decision loop\<close>

text \<open>What is requested for one job once its rates are read.\<close>

definition judge_job :: "regulator_conf \<Rightarrow> job_id \<Rightarrow> rate \<Rightarrow> rate \<Rightarrow> resource_allocation list result" where
  "judge_job c job in_rate out_rate =
     (if in_rate = 0 \<or> out_rate = 0 then Inr []
      else rbind (rate_gap out_rate in_rate) (\<lambda>gap.
        if gap \<ge> uint (UPDATE_VARIATION c)
        then rbind (AlterNodes c (ucast job) out_rate in_rate) (\<lambda>ra. Inr [ra])
        else Inr []))"

text \<open>
  One job of \<open>CalculateRate\<close>: both rates are read with \<open>operator[]\<close>, so the tables may
  grow. The id is the \<open>uint16_t\<close> key widened to \<open>JobId\<close> and narrowed again.
\<close>

definition calculate_job ::
  "regulator_conf \<Rightarrow> job_id \<Rightarrow> regulator \<Rightarrow> (resource_allocation list \<times> regulator) result" where
  "calculate_job c job s =
     (let (in_rate, im) = um_index 0 (in_rate_map s) (ucast job);
          (out_rate, om) = um_index 0 (out_rate_map s) (ucast job);
          s' = \<lparr>in_rate_map = im, out_rate_map = om\<rparr>
      in rbind (judge_job c job in_rate out_rate) (\<lambda>ras. Inr (ras, s')))"

fun calculate_jobs ::
  "regulator_conf \<Rightarrow> job_id list \<Rightarrow> regulator \<Rightarrow> (resource_allocation list \<times> regulator) result" where
  "calculate_jobs c [] s = Inr ([], s)"
| "calculate_jobs c (job # jobs) s =
     rbind (calculate_job c job s) (\<lambda>(rs, s').
       rbind (calculate_jobs c jobs s') (\<lambda>(rs', s''). Inr (rs @ rs', s'')))"

definition in_jobs :: "regulator \<Rightarrow> job_id list" where
  "in_jobs s = map ucast (um_keys (in_rate_map s))"

definition CalculateRate ::
  "regulator_conf \<Rightarrow> regulator \<Rightarrow> (bool \<times> resource_allocation list \<times> regulator) result" where
  "CalculateRate c s = rbind (calculate_jobs c (in_jobs s) s) (\<lambda>(rs, s'). Inr (True, rs, s'))"

section \<open>Rates and gaps\<close>

text \<open>The rate a table gives for a key: a missing entry reads as 0.\<close>

definition rate_of :: "rates \<Rightarrow> u16 \<Rightarrow> rate" where
  "rate_of m k = (case um_get m k of Some v \<Rightarrow> v | None \<Rightarrow> 0)"

definition rates_below :: "int \<Rightarrow> rates \<Rightarrow> bool" where
  "rates_below b m = list_all (\<lambda>(k, v). uint v < b) m"

lemma rates_below_get: "rates_below b m \<Longrightarrow> um_get m k = Some v \<Longrightarrow> uint v < b"
  by (auto simp: rates_below_def um_get_def list_all_iff dest: map_of_SomeD)

lemma rates_below_rate_of: "rates_below b m \<Longrightarrow> 0 < b \<Longrightarrow> uint (rate_of m k) < b"
  by (auto simp: rate_of_def dest: rates_below_get split: option.splits)

lemma rates_below_set: "rates_below b m \<Longrightarrow> uint v < b \<Longrightarrow> rates_below b (um_set k v m)"
  by (induction m) (auto simp: rates_below_def um_set_def)

lemma rates_below_index: "rates_below b m \<Longrightarrow> 0 < b \<Longrightarrow> rates_below b (snd (um_index 0 m k))"
  by (auto simp: um_index_def rates_below_set split: option.splits)

lemma index_rate_of: "um_index 0 m k = (rate_of m k, snd (um_index 0 m k))"
  using um.index_value [of 0 m k] by (simp add: rate_of_def prod_eq_iff)

lemma rate_of_index: "rate_of (snd (um_index 0 m k)) x = rate_of m x"
  by (auto simp: rate_of_def um.index_table split: option.splits)

lemma narrow_widen [simp]: "ucast (ucast (k :: u16) :: job_id) = k"
  by (simp add: ucast_up_ucast_id is_up)

text \<open>Rates below \<open>2 ^ 31\<close> have the gap of their mathematical difference.\<close>

lemma rate_gap_exact:
  assumes "uint out_rate < 2 ^ 31" "uint in_rate < 2 ^ 31"
  shows "rate_gap out_rate in_rate = Inr \<bar>uint out_rate - uint in_rate\<bar>"
proof -
  let ?d = "uint out_rate - uint in_rate"
  have bounds: "- (2 ^ 31) < ?d" "?d < 2 ^ 31"
    using assms uint_ge_0 [of out_rate] uint_ge_0 [of in_rate] by linarith+
  have "int_of_u64 (out_rate - in_rate) = ?d"
    unfolding word_sub_wi using bounds by (intro int_of_u64_word_of_int) simp_all
  with bounds show ?thesis by (simp add: rate_gap_def)
qed

text \<open>The node count as the code computes it from an exact gap, in integers.\<close>

definition nodes_of_gap :: "regulator_conf \<Rightarrow> Alter_Type \<Rightarrow> int \<Rightarrow> int" where
  "nodes_of_gap c a gap =
     signed_take_bit 15
       ((gap - uint (UPDATE_VARIATION c) div 2) * alter_value a mod 2 ^ 64 div uint (UPDATE_STEP c))"

lemma s16_div:
  "s \<noteq> 0 \<Longrightarrow> rbind (div_u64 (u64_of_int i) s) (\<lambda>q. Inr (s16_of_u64 q))
     = Inr (signed_take_bit 15 (i mod 2 ^ 64 div uint s))"
  by (simp add: div_u64_def s16_of_u64_def sint_ucast_u16 u64_of_int_def uint_word_of_int uint_div)

lemma node_var_eq:
  assumes "uint out_rate < 2 ^ 31" "uint in_rate < 2 ^ 31" "UPDATE_STEP c \<noteq> 0"
  shows "node_var c out_rate in_rate =
     Inr (nodes_of_gap c (if in_rate < out_rate then SHRINK else GROW) \<bar>uint out_rate - uint in_rate\<bar>)"
  using assms by (simp add: node_var_def rate_gap_exact nodes_of_gap_def s16_div Let_def)

section \<open>The decision as a specification\<close>

text \<open>
  What a sweep requests for one job, from its two rates: nothing unless both are known
  (non-zero) and their difference reaches the configured variation.
\<close>

definition decide :: "regulator_conf \<Rightarrow> u16 \<Rightarrow> rate \<Rightarrow> rate \<Rightarrow> resource_allocation option" where
  "decide c j out_rate in_rate =
     (if in_rate = 0 \<or> out_rate = 0 \<or> \<bar>uint out_rate - uint in_rate\<bar> < uint (UPDATE_VARIATION c)
      then None
      else Some \<lparr>ra_job = j,
        ra_nodes = nodes_of_gap c (if in_rate < out_rate then SHRINK else GROW)
                     \<bar>uint out_rate - uint in_rate\<bar>,
        ra_procs = 0, ra_threads = 0\<rparr>)"

definition requests :: "regulator_conf \<Rightarrow> regulator \<Rightarrow> resource_allocation list" where
  "requests c s = List.map_filter
     (\<lambda>j. decide c j (rate_of (out_rate_map s) j) (rate_of (in_rate_map s) j))
     (um_keys (in_rate_map s))"

text \<open>The rates for which no step of a sweep is undefined.\<close>

definition safe_rates :: "regulator_conf \<Rightarrow> regulator \<Rightarrow> bool" where
  "safe_rates c s = (UPDATE_STEP c \<noteq> 0 \<and> rates_below (2 ^ 31) (in_rate_map s)
     \<and> rates_below (2 ^ 31) (out_rate_map s))"

definition touch_out :: "u16 list \<Rightarrow> regulator \<Rightarrow> regulator" where
  "touch_out ks s = s\<lparr>out_rate_map := fold (\<lambda>k m. snd (um_index 0 m k)) ks (out_rate_map s)\<rparr>"

text \<open>The decision in one word: at most one allocation.\<close>

definition asked :: "regulator_conf \<Rightarrow> u16 \<Rightarrow> rate \<Rightarrow> rate \<Rightarrow> resource_allocation list" where
  "asked c k out_rate in_rate = (case decide c k out_rate in_rate of None \<Rightarrow> [] | Some ra \<Rightarrow> [ra])"

lemma judge_job_asked:
  assumes "uint out_rate < 2 ^ 31" "uint in_rate < 2 ^ 31" "UPDATE_STEP c \<noteq> 0"
  shows "judge_job c job in_rate out_rate = Inr (asked c (ucast job) out_rate in_rate)"
  using assms by (simp add: judge_job_def rate_gap_exact AlterNodes_def node_var_eq decide_def asked_def)

lemma calculate_job_eq:
  assumes k: "k \<in> set (um_keys (in_rate_map s))" and safe: "safe_rates c s"
  shows "calculate_job c (ucast k) s =
    Inr (asked c k (rate_of (out_rate_map s) k) (rate_of (in_rate_map s) k), touch_out [k] s)"
proof -
  let ?i = "rate_of (in_rate_map s) k" and ?o = "rate_of (out_rate_map s) k"
  have small: "uint ?i < 2 ^ 31" "uint ?o < 2 ^ 31" and step: "UPDATE_STEP c \<noteq> 0"
    using safe rates_below_rate_of [of "2 ^ 31"] by (simp_all add: safe_rates_def)
  have s': "\<lparr>in_rate_map = snd (um_index 0 (in_rate_map s) k),
             out_rate_map = snd (um_index 0 (out_rate_map s) k)\<rparr> = touch_out [k] s"
    using um.index_known [OF k] by (simp add: touch_out_def)
  show ?thesis
    using small step unfolding calculate_job_def
    by (simp only: narrow_widen, subst (1 2) index_rate_of) (simp add: Let_def s' judge_job_asked)
qed

lemma touch_out_simps [simp]:
  "touch_out [] s = s"
  "touch_out ks (touch_out [k] s) = touch_out (k # ks) s"
  "in_rate_map (touch_out ks s) = in_rate_map s"
  by (simp_all add: touch_out_def)

lemma touch_out_rate_of [simp]: "rate_of (out_rate_map (touch_out [k] s)) x = rate_of (out_rate_map s) x"
  by (simp add: touch_out_def rate_of_index)

lemma safe_rates_touch: "safe_rates c s \<Longrightarrow> safe_rates c (touch_out [k] s)"
  by (simp add: safe_rates_def touch_out_def rates_below_index)

lemma calculate_jobs_eq:
  "\<lbrakk>set ks \<subseteq> set (um_keys (in_rate_map s)); safe_rates c s\<rbrakk> \<Longrightarrow>
   calculate_jobs c (map ucast ks) s =
     Inr (List.map_filter
            (\<lambda>k. decide c k (rate_of (out_rate_map s) k) (rate_of (in_rate_map s) k)) ks,
          touch_out ks s)"
proof (induction ks arbitrary: s)
  case Nil
  then show ?case by (simp add: map_filter_simps)
next
  case (Cons k ks)
  then show ?case
    by (simp add: calculate_job_eq safe_rates_touch map_filter_simps asked_def split: option.splits)
qed

lemma CalculateRate_eq:
  "safe_rates c s \<Longrightarrow>
   CalculateRate c s = Inr (True, requests c s, touch_out (um_keys (in_rate_map s)) s)"
  by (simp add: CalculateRate_def in_jobs_def calculate_jobs_eq requests_def)

section \<open>The requests\<close>

datatype reg_request =
    Register job_id
  | Finalize job_id
  | InRate job_id u32
  | OutRate job_id u32

fun handle :: "reg_request \<Rightarrow> regulator \<Rightarrow> bool \<times> regulator" where
  "handle (Register j) s = RegisterJob j s"
| "handle (Finalize j) s = FinalizeJob j s"
| "handle (InRate j r) s = SetInRate j r s"
| "handle (OutRate j r) s = SetOutRate j r s"

section \<open>Invariants\<close>

lemmas handler_defs [model_defs] = RegisterJob_def FinalizeJob_def SetInRate_def SetOutRate_def Let_def

text \<open>The rates come from \<open>uint32_t\<close> arguments, and each key occurs once.\<close>

definition reg_inv :: "regulator \<Rightarrow> bool" where
  "reg_inv s = (um_wf (in_rate_map s) \<and> um_wf (out_rate_map s)
     \<and> rates_below (2 ^ 32) (in_rate_map s) \<and> rates_below (2 ^ 32) (out_rate_map s))"

lemma uint_ucast_u32: "uint (ucast (r :: u32) :: u64) < 2 ^ 32"
  using uint_bounded [of r] by (simp add: unsigned_ucast_eq take_bit_int_eq_self)

lemma reg_inv_handle: "reg_inv s \<Longrightarrow> reg_inv (snd (handle r s))"
  using uint_ucast_u32
  by (cases r) (simp_all add: model_defs reg_inv_def um.wf_put rates_below_set)

lemma calculate_job_tables:
  assumes "calculate_job c j s = Inr (ras, s')"
  shows "s' = \<lparr>in_rate_map = snd (um_index 0 (in_rate_map s) (ucast j)),
               out_rate_map = snd (um_index 0 (out_rate_map s) (ucast j))\<rparr>"
  using assms unfolding calculate_job_def
  by (auto simp: Let_def split: prod.splits if_splits)

text \<open>A sweep that returns has read the tables as \<open>touch_out\<close> says, whatever the rates.\<close>

lemma calculate_jobs_tables:
  "\<lbrakk>calculate_jobs c (map ucast ks) s = Inr (ras, s'); set ks \<subseteq> set (um_keys (in_rate_map s))\<rbrakk>
   \<Longrightarrow> s' = touch_out ks s"
proof (induction ks arbitrary: s ras)
  case Nil
  then show ?case by simp
next
  case (Cons k ks)
  then obtain rs s1 rs' where 1: "calculate_job c (ucast k) s = Inr (rs, s1)"
    and 2: "calculate_jobs c (map ucast ks) s1 = Inr (rs', s')"
    by auto
  from Cons.prems(2) have k: "k \<in> set (um_keys (in_rate_map s))" by simp
  have s1: "s1 = touch_out [k] s"
    using calculate_job_tables [OF 1] um.index_known [OF k] by (simp add: touch_out_def)
  from Cons.IH [OF 2] Cons.prems(2) show ?case by (simp add: s1)
qed

lemma CalculateRate_tables:
  "CalculateRate c s = Inr (b, ras, s') \<Longrightarrow> s' = touch_out (um_keys (in_rate_map s)) s"
  by (auto simp: CalculateRate_def in_jobs_def dest: calculate_jobs_tables)

lemma fold_index_inv:
  "um_wf m \<and> rates_below (2 ^ 32) m \<Longrightarrow>
   um_wf (fold (\<lambda>k m. snd (um_index 0 m k)) ks m) \<and>
   rates_below (2 ^ 32) (fold (\<lambda>k m. snd (um_index 0 m k)) ks m)"
  by (induction ks arbitrary: m) (simp_all add: um.wf_index rates_below_index)

lemma reg_inv_touch: "reg_inv s \<Longrightarrow> reg_inv (touch_out ks s)"
  using fold_index_inv [of "out_rate_map s" ks] by (simp add: reg_inv_def touch_out_def)

lemma reg_inv_init: "reg_inv init_regulator"
  by (simp add: reg_inv_def init_regulator_def rates_below_def)

lemma touch_out_all_rates: "rate_of (out_rate_map (touch_out ks s)) x = rate_of (out_rate_map s) x"
  by (auto simp: touch_out_def rate_of_def um.get_fold_index split: option.splits)

lemma rate_of_set: "rate_of (um_set k v m) x = (if x = k then v else rate_of m x)"
  by (simp add: rate_of_def)

text \<open>Every handler returns \<open>true\<close>.\<close>

lemma handle_True: "handle r s = (True, snd (handle r s))"
  by (cases r) (simp_all add: model_defs)

abbreviation serve :: "reg_request list \<Rightarrow> regulator \<Rightarrow> regulator" where
  "serve rs s \<equiv> fold (\<lambda>r s. snd (handle r s)) rs s"

text \<open>The quotient of a negative product, converted to \<open>uint64_t\<close> and cut to \<open>int16_t\<close>.\<close>

lemma shrink_arith:
  fixes g :: int
  assumes "100 \<le> g" "g \<le> 65535"
  shows "signed_take_bit 15 ((50 - g) mod 18446744073709551616 div 5) = 13107 - (g - 47) div 5"
proof -
  define q where "q = (g - 47) div 5"
  have q: "0 \<le> q" "q \<le> 13097" using assms unfolding q_def by presburger+
  have "(50 - g) mod 18446744073709551616 = (50 - g + 18446744073709551616) mod 18446744073709551616"
    by (rule mod_add_self2 [symmetric])
  also have "\<dots> = 18446744073709551666 - g"
    using assms by (subst mod_pos_pos_trivial) simp_all
  finally have "(50 - g) mod 18446744073709551616 div 5 = (18446744073709551666 - g) div 5"
    by simp
  also have "18446744073709551666 - g = 51 - g + 3689348814741910323 * 5"
    by simp
  also have "\<dots> div 5 = 3689348814741910323 + (51 - g) div 5"
    by (rule div_mult_self1) simp
  also have "(51 - g) div 5 = - q"
    unfolding q_def by presburger
  finally have quotient: "(50 - g) mod 18446744073709551616 div 5 = 3689348814741910323 + - q" .
  have "take_bit 16 (3689348814741910323 + - q) = (13107 - q + 56294995342131 * 65536) mod 65536"
    by (simp add: take_bit_int_def)
  also have "\<dots> = 13107 - q"
    using q by (simp only: mod_mult_self1) (simp add: mod_pos_pos_trivial)
  finally have "signed_take_bit 15 (3689348814741910323 + - q) = signed_take_bit 15 (13107 - q)"
    using signed_take_bit_take_bit [of 15 16 "3689348814741910323 + - q"] by simp
  also have "\<dots> = 13107 - q"
    using q by (simp add: signed_take_bit_int_eq_self_iff)
  finally show ?thesis by (simp only: quotient q_def)
qed

lemma narrow_add_65536: "(ucast (j + 65536 :: job_id) :: u16) = ucast j"
  by transfer (simp, simp add: take_bit_eq_mod)

section \<open>Properties\<close>

text \<open>
  C7. A sweep with rates below \<open>2 ^ 31\<close> and a non-zero update step returns, and it requests
  exactly what the specification \<open>requests\<close> says: one allocation, in the order of the input
  table, for each job whose two rates are known and differ by at least the configured
  variation. It leaves the input table alone and changes no rate.
\<close>
theorem CalculateRate_decides:
  assumes "safe_rates c s"
  shows "\<exists>s'. CalculateRate c s = Inr (True, requests c s, s') \<and> in_rate_map s' = in_rate_map s
     \<and> (\<forall>k. rate_of (out_rate_map s') k = rate_of (out_rate_map s) k)"
  using CalculateRate_eq [OF assms] by (simp add: touch_out_all_rates)

definition two_jobs :: regulator where
  "two_jobs = \<lparr>in_rate_map = [(1, 4096), (2, 500)], out_rate_map = [(1, 1096)]\<rparr>"

lemma CalculateRate_decides_witness:
  "safe_rates default_conf two_jobs
   \<and> requests default_conf two_jobs = [\<lparr>ra_job = 1, ra_nodes = 590, ra_procs = 0, ra_threads = 0\<rparr>]
   \<and> (\<exists>s'. CalculateRate default_conf two_jobs = Inr (True, requests default_conf two_jobs, s'))"
proof -
  have safe: "safe_rates default_conf two_jobs"
    by (simp add: safe_rates_def default_conf_def two_jobs_def rates_below_def)
  moreover have "requests default_conf two_jobs =
      [\<lparr>ra_job = 1, ra_nodes = 590, ra_procs = 0, ra_threads = 0\<rparr>]"
    by code_simp
  ultimately show ?thesis using CalculateRate_decides [OF safe] by blast
qed

text \<open>
  When the input outpaces the output by at least the variation, the job is grown by
  \<open>(gap - variation / 2) / step\<close> nodes, as long as that fits the \<open>int16_t\<close> it is stored in.
\<close>
theorem grow_request:
  assumes "uint in_rate < 2 ^ 31" "uint out_rate \<le> uint in_rate" "UPDATE_STEP c \<noteq> 0"
    and "uint (UPDATE_VARIATION c) \<le> uint in_rate - uint out_rate"
    and "(uint in_rate - uint out_rate) div uint (UPDATE_STEP c) < 2 ^ 15"
  shows "AlterNodes c j out_rate in_rate = Inr \<lparr>ra_job = j,
     ra_nodes = (uint in_rate - uint out_rate - uint (UPDATE_VARIATION c) div 2) div uint (UPDATE_STEP c),
     ra_procs = 0, ra_threads = 0\<rparr>"
proof -
  let ?gap = "uint in_rate - uint out_rate" and ?v = "uint (UPDATE_VARIATION c)"
    and ?s = "uint (UPDATE_STEP c)"
  have s: "0 < ?s" using assms(3) by (simp add: word_neq_0_conv word_less_def)
  have v: "0 \<le> ?v" by simp
  have d: "0 \<le> ?gap - ?v div 2" "?gap - ?v div 2 \<le> ?gap"
    using assms(4) v by linarith+
  have "?gap < 2 ^ 31" using assms(1) uint_ge_0 [of out_rate] by linarith
  then have "(?gap - ?v div 2) mod 2 ^ 64 = ?gap - ?v div 2"
    using d by (intro mod_u64_small) linarith+
  moreover have "(?gap - ?v div 2) div ?s \<le> ?gap div ?s"
    using d(2) s by (rule zdiv_mono1)
  moreover have "0 \<le> (?gap - ?v div 2) div ?s"
    using d(1) s by (simp add: pos_imp_zdiv_nonneg_iff)
  ultimately have nodes: "nodes_of_gap c GROW ?gap = (?gap - ?v div 2) div ?s"
    using assms(5) by (simp add: nodes_of_gap_def alter_value_def signed_take_bit_int_eq_self_iff)
  have out: "uint out_rate < 2 ^ 31" using assms(1,2) by linarith
  have "\<not> in_rate < out_rate" using assms(2) by (simp add: word_less_def)
  then show ?thesis
    using node_var_eq [OF out assms(1,3)] nodes assms(2) by (simp add: AlterNodes_def abs_minus_commute)
qed

lemma grow_request_witness:
  "uint (4096 :: rate) < 2 ^ 31 \<and>
   AlterNodes default_conf 1 1096 4096 = Inr \<lparr>ra_job = 1, ra_nodes = 590, ra_procs = 0, ra_threads = 0\<rparr>"
  using grow_request [of 4096 1096 default_conf 1] by (simp add: default_conf_def)

text \<open>
  C39. With the default variation 100 and step 5, a request to shrink asks for more nodes: a job whose
  output outpaces its input by a gap from 100 to 65535 is asked to \<^emph>\<open>grow\<close> by
  \<open>13107 - (gap - 47) / 5\<close> nodes, which falls from 13097 nodes at the gap 100 to 10 nodes at the
  gap 65535, because the negative product is converted to \<open>uint64_t\<close> before the division.
\<close>
theorem shrink_request_grows:
  assumes "uint out_rate < 2 ^ 31" "100 \<le> uint out_rate - uint in_rate"
    and "uint out_rate - uint in_rate \<le> 65535"
  shows "\<exists>n. AlterNodes default_conf j out_rate in_rate =
           Inr \<lparr>ra_job = j, ra_nodes = n, ra_procs = 0, ra_threads = 0\<rparr>
     \<and> n = 13107 - (uint out_rate - uint in_rate - 47) div 5 \<and> 10 \<le> n \<and> n \<le> 13097"
proof -
  let ?gap = "uint out_rate - uint in_rate"
  have "in_rate < out_rate" using assms(2) by (simp add: word_less_def)
  moreover have small: "uint in_rate < 2 ^ 31" using assms(1,2) by linarith
  moreover have "nodes_of_gap default_conf SHRINK ?gap = 13107 - (?gap - 47) div 5"
    using shrink_arith [of ?gap] assms(2,3)
    by (simp add: nodes_of_gap_def default_conf_def alter_value_def)
  moreover have "10 \<le> 13107 - (?gap - 47) div 5" "13107 - (?gap - 47) div 5 \<le> 13097" using assms(2,3) by presburger+
  ultimately show ?thesis
    using node_var_eq [OF assms(1) small, of default_conf] assms(2)
    by (simp add: AlterNodes_def default_conf_def)
qed

lemma shrink_request_grows_witness:
  "uint (4096 :: rate) < 2 ^ 31 \<and>
   AlterNodes default_conf 1 4096 1096 = Inr \<lparr>ra_job = 1, ra_nodes = 12517, ra_procs = 0, ra_threads = 0\<rparr>"
  using shrink_request_grows [of 4096 1096 1] by simp

text \<open>
  The tables are keyed by the low 16 bits of the job id: every handler treats job
  \<open>j + 65536\<close> as job \<open>j\<close>, so two jobs whose ids differ by a multiple of 65536 share their rates.
\<close>
theorem job_id_collision:
  "RegisterJob (j + 65536) s = RegisterJob j s \<and> FinalizeJob (j + 65536) s = FinalizeJob j s
   \<and> SetInRate (j + 65536) r s = SetInRate j r s \<and> SetOutRate (j + 65536) r s = SetOutRate j r s"
  by (simp add: model_defs narrow_add_65536)

text \<open>
  The gap is computed in 32 bits: requests alone lead to a state in which
  the sweep has undefined behaviour (\<open>abs(INT_MIN)\<close>), and to one whose rates differ by
  4294967294 and for which the sweep requests nothing.
\<close>
theorem sweep_gap_overflow:
  "(\<exists>rs. CalculateRate default_conf (serve rs init_regulator) = Inl Signed_overflow)
   \<and> (\<exists>rs s'. uint (rate_of (out_rate_map (serve rs init_regulator)) 1)
        - uint (rate_of (in_rate_map (serve rs init_regulator)) 1) = 4294967294
      \<and> CalculateRate default_conf (serve rs init_regulator) = Inr (True, [], s'))"
proof -
  let ?rs = "\<lambda>r. [InRate 1 1, OutRate 1 r]"
  have "CalculateRate default_conf (serve (?rs 2147483649) init_regulator) = Inl Signed_overflow"
    by code_simp
  moreover have "CalculateRate default_conf (serve (?rs 4294967295) init_regulator)
      = Inr (True, [], serve (?rs 4294967295) init_regulator)"
    by code_simp
  moreover have "uint (rate_of (out_rate_map (serve (?rs 4294967295) init_regulator)) 1)
      - uint (rate_of (in_rate_map (serve (?rs 4294967295) init_regulator)) 1) = 4294967294"
    by code_simp
  ultimately show ?thesis by blast
qed

end
