(* ===== verification/Regulator_Threads.thy ===== *)
theory Regulator_Threads
  imports Regulator
begin

text \<open>
  The threads of the byte-flow regulator server (\<open>src/rhea/byte_flow_regulator/server.cpp\<close>): RPC threads
  that run the handlers and the thread of \<open>RunInternal\<close>, in any interleaving. A handler takes each
  mutex for one write of its table and runs write by write. The loop runs access by access: it
  waits, copies the keys of \<open>in_rate_map\<close>, and for each of them reads the input rate, then the output rate, then
  decides with no lock held.

  The steps hold where the program has a defined behaviour: the second \<open>lock_shared\<close> of \<open>in_mutex\<close> by the sweep
  is granted (see \<open>Regulator_Locks\<close>), and its read of \<open>out_rate_map\<close>, which no lock guards, does
  not overlap a write (the race is a theorem of \<open>Regulator_Locks\<close>).
\<close>

section \<open>The handlers, write by write\<close>

datatype table_write = Set_in u16 rate | Set_out u16 rate

fun writes :: "reg_request \<Rightarrow> table_write list" where
  "writes (Register j) = [Set_in (ucast j) 0, Set_out (ucast j) 0]"
| "writes (Finalize j) = [Set_in (ucast j) 0, Set_out (ucast j) 0]"
| "writes (InRate j r) = [Set_in (ucast j) (ucast r)]"
| "writes (OutRate j r) = [Set_out (ucast j) (ucast r)]"

fun apply_write :: "table_write \<Rightarrow> regulator \<Rightarrow> regulator" where
  "apply_write (Set_in k v) s = s\<lparr>in_rate_map := um_set k v (in_rate_map s)\<rparr>"
| "apply_write (Set_out k v) s = s\<lparr>out_rate_map := um_set k v (out_rate_map s)\<rparr>"

lemma handle_writes: "handle r s = (True, fold apply_write (writes r) s)"
  by (cases r) (simp_all add: model_defs)

section \<open>The loop, access by access\<close>

text \<open>Between its two reads of a job the loop holds \<open>in_mutex\<close>.\<close>

datatype loop_at =
    Sleeping
  | Visiting "job_id list"
  | Has_in job_id rate "job_id list"
  | Has_both job_id rate rate "job_id list"
  | Halted
  | Undefined fault

datatype server_event =
    Received nat reg_request
  | Wrote table_write
  | Snapshot "job_id list"
  | Read_rates job_id rate rate
  | Asked_for job_id "resource_allocation list"
  | Sweep_ends

text \<open>One step of \<open>RunInternal\<close>; \<open>timed_out\<close> is what \<open>wait_for\<close> returns.\<close>

fun RunInternal_step ::
  "regulator_conf \<Rightarrow> bool \<Rightarrow> loop_at \<Rightarrow> regulator \<Rightarrow> loop_at \<times> regulator \<times> server_event list" where
  "RunInternal_step c timed_out Sleeping s =
     (if timed_out then (Visiting (in_jobs s), s, [Snapshot (in_jobs s)]) else (Halted, s, []))"
| "RunInternal_step c timed_out (Visiting []) s = (Sleeping, s, [Sweep_ends])"
| "RunInternal_step c timed_out (Visiting (job # jobs)) s =
     (let (in_rate, im) = um_index 0 (in_rate_map s) (ucast job)
      in (Has_in job in_rate jobs, s\<lparr>in_rate_map := im\<rparr>, []))"
| "RunInternal_step c timed_out (Has_in job in_rate jobs) s =
     (let (out_rate, om) = um_index 0 (out_rate_map s) (ucast job)
      in (Has_both job in_rate out_rate jobs, s\<lparr>out_rate_map := om\<rparr>, [Read_rates job in_rate out_rate]))"
| "RunInternal_step c timed_out (Has_both job in_rate out_rate jobs) s =
     (case judge_job c job in_rate out_rate of
        Inl e \<Rightarrow> (Undefined e, s, [])
      | Inr ras \<Rightarrow> (Visiting jobs, s, [Asked_for job ras]))"
| "RunInternal_step c timed_out Halted s = (Halted, s, [])"
| "RunInternal_step c timed_out (Undefined e) s = (Undefined e, s, [])"

lemma loop_reads:
  "RunInternal_step c timed_out (Visiting (job # jobs)) s =
     (Has_in job (rate_of (in_rate_map s) (ucast job)) jobs, s\<lparr>in_rate_map := snd (um_index 0 (in_rate_map s) (ucast job))\<rparr>, [])"
  "RunInternal_step c timed_out (Has_in job i jobs) s =
     (Has_both job i (rate_of (out_rate_map s) (ucast job)) jobs, s\<lparr>out_rate_map := snd (um_index 0 (out_rate_map s) (ucast job))\<rparr>,
      [Read_rates job i (rate_of (out_rate_map s) (ucast job))])"
  by (simp_all only: RunInternal_step.simps, subst index_rate_of, simp, subst index_rate_of, simp)

declare RunInternal_step.simps (3,4) [simp del]
declare loop_reads [simp]

section \<open>The server\<close>

record server =
  tables :: regulator
  pending :: "nat \<Rightarrow> table_write list"     \<comment> \<open>what each RPC thread has still to write\<close>
  loop :: loop_at

definition start_server :: server where
  "start_server = \<lparr>tables = init_regulator, pending = (\<lambda>_. []), loop = Sleeping\<rparr>"

fun in_write :: "table_write \<Rightarrow> bool" where
  "in_write (Set_in k v) = True"
| "in_write (Set_out k v) = False"

fun reading :: "loop_at \<Rightarrow> bool" where
  "reading (Has_in j i js) = True"
| "reading pc = False"

fun undefined_loop :: "loop_at \<Rightarrow> bool" where
  "undefined_loop (Undefined e) = True"
| "undefined_loop pc = False"

inductive server_step :: "regulator_conf \<Rightarrow> server \<Rightarrow> server_event list \<Rightarrow> server \<Rightarrow> bool" for c where
  Receive: "\<lbrakk>\<not> undefined_loop (loop s); pending s t = []\<rbrakk> \<Longrightarrow>
    server_step c s [Received t r] (s\<lparr>pending := (pending s)(t := writes r)\<rparr>)"
| Write: "\<lbrakk>\<not> undefined_loop (loop s); pending s t = w # ws; \<not> (in_write w \<and> reading (loop s))\<rbrakk> \<Longrightarrow>
    server_step c s [Wrote w] (s\<lparr>pending := (pending s)(t := ws), tables := apply_write w (tables s)\<rparr>)"
| Loop: "\<lbrakk>RunInternal_step c timed_out (loop s) (tables s) = (pc, tb, es)\<rbrakk> \<Longrightarrow>
    server_step c s es (s\<lparr>loop := pc, tables := tb\<rparr>)"

inductive server_runs :: "regulator_conf \<Rightarrow> server_event list \<Rightarrow> server \<Rightarrow> bool" for c where
  starts: "server_runs c [] start_server"
| goes_on: "\<lbrakk>server_runs c es s; server_step c s es' s'\<rbrakk> \<Longrightarrow> server_runs c (es @ es') s'"

section \<open>What the clients reported\<close>

text \<open>The last rate written for a key, and the keys written, read off a history.\<close>

fun reports_in :: "u16 \<Rightarrow> server_event \<Rightarrow> rate \<Rightarrow> rate" where
  "reports_in k (Wrote (Set_in k' v)) old = (if k' = k then v else old)"
| "reports_in k e old = old"

fun reports_out :: "u16 \<Rightarrow> server_event \<Rightarrow> rate \<Rightarrow> rate" where
  "reports_out k (Wrote (Set_out k' v)) old = (if k' = k then v else old)"
| "reports_out k e old = old"

definition last_in :: "server_event list \<Rightarrow> u16 \<Rightarrow> rate" where
  "last_in es k = fold (reports_in k) es 0"

definition last_out :: "server_event list \<Rightarrow> u16 \<Rightarrow> rate" where
  "last_out es k = fold (reports_out k) es 0"

definition in_keys :: "server_event list \<Rightarrow> u16 set" where
  "in_keys es = {k. \<exists>v. Wrote (Set_in k v) \<in> set es}"

definition out_keys :: "server_event list \<Rightarrow> u16 set" where
  "out_keys es = {k. (\<exists>v. Wrote (Set_out k v) \<in> set es) \<or> (\<exists>j i r. k = ucast j \<and> Read_rates j i r \<in> set es)}"

lemma last_simps [simp]:
  "last_in [] k = 0" "last_out [] k = 0"
  "last_in (es @ [e]) k = reports_in k e (last_in es k)" "last_out (es @ [e]) k = reports_out k e (last_out es k)"
  by (simp_all add: last_in_def last_out_def)

lemma keys_simps [simp]:
  "in_keys [] = {}" "out_keys [] = {}"
  "in_keys (es @ es') = in_keys es \<union> in_keys es'" "out_keys (es @ es') = out_keys es \<union> out_keys es'"
  "in_keys [Wrote (Set_in k v)] = {k}" "in_keys [Wrote (Set_out k v)] = {}"
  "out_keys [Wrote (Set_out k v)] = {k}" "out_keys [Wrote (Set_in k v)] = {}"
  "in_keys [Received t r] = {}" "out_keys [Received t r] = {}" "in_keys [Snapshot js] = {}" "out_keys [Snapshot js] = {}"
  "in_keys [Read_rates j i r'] = {}" "out_keys [Read_rates j i r'] = {ucast j}" "in_keys [Asked_for j ras] = {}"
  "out_keys [Asked_for j ras] = {}" "in_keys [Sweep_ends] = {}" "out_keys [Sweep_ends] = {}"
  by (auto simp: in_keys_def out_keys_def)

text \<open>A property of every event and of the history before it.\<close>

definition throughout :: "(server_event list \<Rightarrow> server_event \<Rightarrow> bool) \<Rightarrow> server_event list \<Rightarrow> bool" where
  "throughout P es = (\<forall>n < length es. P (take n es) (es ! n))"

lemma throughout_simps [simp]:
  "throughout P []" "throughout P (es @ [e]) \<longleftrightarrow> throughout P es \<and> P es e"
  by (auto simp: throughout_def nth_append less_Suc_eq)

fun faithful :: "server_event list \<Rightarrow> server_event \<Rightarrow> bool" where
  "faithful h (Snapshot js) = (distinct js \<and> ucast ` set js = in_keys h)"
| "faithful h (Read_rates j i r) = (i = last_in h (ucast j) \<and> r = last_out h (ucast j))"
| "faithful h e = True"

section \<open>The invariant of the tables\<close>

fun ahead :: "loop_at \<Rightarrow> job_id list" where
  "ahead (Visiting js) = js"
| "ahead (Has_in j i js) = j # js"
| "ahead (Has_both j i r js) = j # js"
| "ahead pc = []"

fun rate_read :: "server_event list \<Rightarrow> loop_at \<Rightarrow> bool" where
  "rate_read h (Has_in j i js) = (i = last_in h (ucast j))"
| "rate_read h pc = True"

definition tables_inv :: "server_event list \<Rightarrow> server \<Rightarrow> bool" where
  "tables_inv es s = (um_wf (in_rate_map (tables s)) \<and> um_wf (out_rate_map (tables s))
     \<and> (\<forall>k. rate_of (in_rate_map (tables s)) k = last_in es k)
     \<and> (\<forall>k. rate_of (out_rate_map (tables s)) k = last_out es k)
     \<and> set (um_keys (in_rate_map (tables s))) = in_keys es
     \<and> set (um_keys (out_rate_map (tables s))) = out_keys es
     \<and> (\<forall>j \<in> set (ahead (loop s)). ucast j \<in> in_keys es) \<and> rate_read es (loop s) \<and> throughout faithful es)"

lemma tables_inv_start: "tables_inv [] start_server"
  by (simp add: tables_inv_def start_server_def init_regulator_def rate_of_def um_keys_def)

lemma in_jobs_keys: "ucast ` set (in_jobs s) = set (um_keys (in_rate_map s))"
  by (force simp: in_jobs_def image_image)

lemma distinct_in_jobs: "um_wf (in_rate_map s) \<Longrightarrow> distinct (in_jobs s)"
  by (simp add: in_jobs_def distinct_map um.wf_distinct inj_on_def) (metis narrow_widen)

lemma tables_inv_write:
  assumes "tables_inv es s" "\<not> (in_write w \<and> reading (loop s))"
  shows "tables_inv (es @ [Wrote w]) (s\<lparr>pending := p, tables := apply_write w (tables s)\<rparr>)"
  using assms
  by (cases w; cases "loop s") (auto simp: tables_inv_def um.wf_put rate_of_set um.keys_put)

lemma tables_inv_loop:
  assumes "tables_inv es s" "RunInternal_step c timed_out (loop s) (tables s) = (pc, tb, es')"
  shows "tables_inv (es @ es') (s\<lparr>loop := pc, tables := tb\<rparr>)"
proof (cases "loop s")
  case Sleeping
  then show ?thesis
    using assms in_jobs_keys [of "tables s"]
    by (auto simp: tables_inv_def distinct_in_jobs split: if_splits)
next
  case (Visiting js)
  show ?thesis
  proof (cases js)
    case Nil
    with Visiting assms show ?thesis by (auto simp: tables_inv_def)
  next
    case (Cons j js')
    then have k: "ucast j \<in> set (um_keys (in_rate_map (tables s)))"
      using assms(1) Visiting by (simp add: tables_inv_def)
    have "pc = Has_in j (rate_of (in_rate_map (tables s)) (ucast j)) js'" "tb = tables s" "es' = []"
      using assms(2) Visiting Cons um.index_known [OF k] by auto
    with assms(1) Visiting Cons show ?thesis by (simp add: tables_inv_def)
  qed
next
  case (Has_in j i js)
  let ?r = "rate_of (out_rate_map (tables s)) (ucast j)"
  have "pc = Has_both j i ?r js" "es' = [Read_rates j i ?r]"
    "tb = (tables s)\<lparr>out_rate_map := snd (um_index 0 (out_rate_map (tables s)) (ucast j))\<rparr>"
    using assms(2) Has_in by simp_all
  with assms(1) Has_in show ?thesis
    by (simp add: tables_inv_def rate_of_index um.wf_index um.keys_index)
next
  case (Undefined e)
  then have "pc = Undefined e" "tb = tables s" "es' = []" using assms(2) by auto
  with assms(1) Undefined show ?thesis by (simp add: tables_inv_def)
qed (use assms in \<open>auto simp: tables_inv_def split: sum.splits\<close>)

lemma tables_inv_runs: "server_runs c es s \<Longrightarrow> tables_inv es s"
proof (induction rule: server_runs.induct)
  case starts
  show ?case by (rule tables_inv_start)
next
  case (goes_on es s es' s')
  from goes_on(2,3) show ?case
  proof (cases rule: server_step.cases)
    case (Receive t r)
    with goes_on(3) show ?thesis by (cases "loop s") (simp_all add: tables_inv_def)
  next
    case (Write t w ws)
    with goes_on(3) show ?thesis by (simp add: tables_inv_write)
  next
    case (Loop timed_out pc tb)
    with goes_on(3) show ?thesis by (simp add: tables_inv_loop)
  qed
qed

text \<open>A request that was received is written unless its thread is still at it.\<close>

lemma received_runs:
  "server_runs c es s \<Longrightarrow> Received t r \<in> set es \<Longrightarrow> w \<in> set (writes r) \<Longrightarrow> Wrote w \<in> set es \<or> w \<in> set (pending s t)"
proof (induction rule: server_runs.induct)
  case (goes_on es s es' s')
  from goes_on(2) show ?case
  proof (cases rule: server_step.cases)
    case (Loop timed_out pc tb)
    have "Received t r \<notin> set es'"
      using Loop(2) by (cases "loop s"; cases "ahead (loop s)") (auto simp: Let_def split: prod.splits sum.splits if_splits)
    with goes_on Loop show ?thesis by auto
  qed (use goes_on in auto)
qed simp

section \<open>The invariant of the loop\<close>

definition visit :: "regulator_conf \<Rightarrow> job_id \<times> rate \<times> rate \<Rightarrow> server_event list" where
  "visit c v = (case v of (j, i, r) \<Rightarrow> [Read_rates j i r, Asked_for j (asked c (ucast j) r i)])"

definition sweep_trace :: "regulator_conf \<Rightarrow> (job_id \<times> rate \<times> rate) list \<Rightarrow> server_event list" where
  "sweep_trace c vs = [Snapshot (map fst vs)] @ concat (map (visit c) vs) @ [Sweep_ends]"

fun of_loop :: "server_event \<Rightarrow> bool" where
  "of_loop (Received t r) = False"
| "of_loop (Wrote w) = False"
| "of_loop e = True"

definition small_reports :: "server_event list \<Rightarrow> bool" where
  "small_reports es = (\<forall>k v. Wrote (Set_in k v) \<in> set es \<or> Wrote (Set_out k v) \<in> set es \<longrightarrow> uint v < 2 ^ 31)"

text \<open>The part of a sweep that lies behind the loop.\<close>

fun sweep_so_far :: "regulator_conf \<Rightarrow> loop_at \<Rightarrow> (job_id \<times> rate \<times> rate) list \<Rightarrow> server_event list" where
  "sweep_so_far c (Has_both j i r js) vs =
     [Snapshot (map fst vs @ j # js)] @ concat (map (visit c) vs) @ [Read_rates j i r]"
| "sweep_so_far c pc vs = [Snapshot (map fst vs @ ahead pc)] @ concat (map (visit c) vs)"

fun at_rest :: "loop_at \<Rightarrow> bool" where
  "at_rest Sleeping = True"
| "at_rest Halted = True"
| "at_rest pc = False"

fun read_small :: "loop_at \<Rightarrow> bool" where
  "read_small (Has_in j i js) = (uint i < 2 ^ 31)"
| "read_small (Has_both j i r js) = (uint i < 2 ^ 31 \<and> uint r < 2 ^ 31)"
| "read_small pc = True"

definition loop_inv :: "regulator_conf \<Rightarrow> server_event list \<Rightarrow> loop_at \<Rightarrow> bool" where
  "loop_inv c es pc = (\<not> undefined_loop pc \<and> read_small pc \<and> (\<exists>sweeps.
     if at_rest pc then filter of_loop es = concat (map (sweep_trace c) sweeps)
     else \<exists>vs. filter of_loop es = concat (map (sweep_trace c) sweeps) @ sweep_so_far c pc vs))"

lemma small_last:
  "small_reports es \<Longrightarrow> uint (last_in es k) < 2 ^ 31 \<and> uint (last_out es k) < 2 ^ 31"
proof (induction es rule: rev_induct)
  case (snoc e es)
  then have "uint (last_in es k) < 2 ^ 31 \<and> uint (last_out es k) < 2 ^ 31" by (auto simp: small_reports_def)
  then show ?case
  proof (cases e)
    case (Wrote w)
    then show ?thesis using snoc by (cases w) (auto simp: small_reports_def)
  qed auto
qed simp

lemma loop_inv_rest: "filter of_loop es = concat (map (sweep_trace c) sweeps) \<Longrightarrow> at_rest pc \<Longrightarrow> loop_inv c es pc"
  by (cases pc) (auto simp: loop_inv_def)

lemma loop_inv_step:
  assumes inv: "loop_inv c es pc" and step: "RunInternal_step c timed_out pc tb = (pc', tb', es')"
    and small: "\<And>k. uint (rate_of (in_rate_map tb) k) < 2 ^ 31" "\<And>k. uint (rate_of (out_rate_map tb) k) < 2 ^ 31"
    and conf: "UPDATE_STEP c \<noteq> 0"
  shows "loop_inv c (es @ es') pc'"
proof (cases pc)
  case Sleeping
  with inv obtain sweeps where "filter of_loop es = concat (map (sweep_trace c) sweeps)" by (auto simp: loop_inv_def)
  with step Sleeping show ?thesis
    by (auto simp: loop_inv_def split: if_splits intro: exI [of _ sweeps])
next
  case Halted
  with inv step show ?thesis by simp
next
  case (Undefined e)
  with inv show ?thesis by (simp add: loop_inv_def)
next
  case (Visiting js)
  with inv obtain sweeps vs where vs: "filter of_loop es = concat (map (sweep_trace c) sweeps) @ sweep_so_far c pc vs"
    by (auto simp: loop_inv_def)
  show ?thesis
  proof (cases js)
    case Nil
    with step Visiting vs have "filter of_loop (es @ es') = concat (map (sweep_trace c) (sweeps @ [vs]))" "at_rest pc'"
      by (auto simp: sweep_trace_def)
    then show ?thesis by (rule loop_inv_rest)
  next
    case (Cons j js')
    with step Visiting vs small(1) show ?thesis
      by (auto simp: loop_inv_def intro!: exI [of _ sweeps] exI [of _ vs])
  qed
next
  case (Has_in j i js)
  with inv obtain sweeps vs where "filter of_loop es = concat (map (sweep_trace c) sweeps) @ sweep_so_far c pc vs" "uint i < 2 ^ 31"
    by (auto simp: loop_inv_def)
  with step Has_in small(2) show ?thesis
    by (auto simp: loop_inv_def intro!: exI [of _ sweeps] exI [of _ vs])
next
  case (Has_both j i r js)
  with inv obtain sweeps vs where "filter of_loop es = concat (map (sweep_trace c) sweeps) @ sweep_so_far c pc vs"
      "uint i < 2 ^ 31" "uint r < 2 ^ 31"
    by (auto simp: loop_inv_def)
  with step Has_both show ?thesis
    by (auto simp: loop_inv_def judge_job_asked conf visit_def intro!: exI [of _ sweeps] exI [of _ "vs @ [(j, i, r)]"])
qed

lemma loop_inv_runs:
  "server_runs c es s \<Longrightarrow> small_reports es \<Longrightarrow> UPDATE_STEP c \<noteq> 0 \<Longrightarrow> loop_inv c es (loop s)"
proof (induction rule: server_runs.induct)
  case starts
  show ?case by (rule loop_inv_rest [of _ _ "[]"]) (simp_all add: start_server_def)
next
  case (goes_on es s es' s')
  then have small: "small_reports es" by (auto simp: small_reports_def)
  then have inv: "loop_inv c es (loop s)" using goes_on by blast
  from goes_on(2) show ?case
  proof (cases rule: server_step.cases)
    case (Loop timed_out pc tb)
    have "loop_inv c (es @ es') pc"
    proof (rule loop_inv_step [OF inv Loop(2)])
      show "uint (rate_of (in_rate_map (tables s)) k) < 2 ^ 31" "uint (rate_of (out_rate_map (tables s)) k) < 2 ^ 31" for k
        using tables_inv_runs [OF goes_on(1)] small_last [OF small] by (simp_all add: tables_inv_def)
    qed (rule goes_on(5))
    with Loop show ?thesis by simp
  qed (use inv in \<open>auto simp: loop_inv_def\<close>)
qed

section \<open>A sweep that nothing interrupts\<close>

fun loop_alone :: "regulator_conf \<Rightarrow> nat \<Rightarrow> loop_at \<times> regulator \<times> server_event list \<Rightarrow> loop_at \<times> regulator \<times> server_event list" where
  "loop_alone c 0 x = x"
| "loop_alone c (Suc n) (pc, s, es) =
     (case RunInternal_step c True pc s of (pc', s', es') \<Rightarrow> loop_alone c n (pc', s', es @ es'))"

fun allocations :: "server_event list \<Rightarrow> resource_allocation list" where
  "allocations [] = []"
| "allocations (Asked_for j ras # es) = ras @ allocations es"
| "allocations (e # es) = allocations es"

lemma allocations_append [simp]: "allocations (es @ es') = allocations es @ allocations es'"
  by (induction es rule: allocations.induct) simp_all

lemma loop_alone_jobs:
  "\<exists>n es'. case calculate_jobs c js s of
      Inl e \<Rightarrow> \<exists>s'. loop_alone c n (Visiting js, s, es) = (Undefined e, s', es @ es')
    | Inr (ras, s') \<Rightarrow> loop_alone c n (Visiting js, s, es) = (Sleeping, s', es @ es') \<and> allocations es' = ras"
proof (induction js arbitrary: s es)
  case Nil
  show ?case by (intro exI [of _ "Suc 0"] exI [of _ "[Sweep_ends]"]) simp
next
  case (Cons j js)
  let ?i = "rate_of (in_rate_map s) (ucast j)" and ?r = "rate_of (out_rate_map s) (ucast j)"
  let ?s = "\<lparr>in_rate_map = snd (um_index 0 (in_rate_map s) (ucast j)), out_rate_map = snd (um_index 0 (out_rate_map s) (ucast j))\<rparr>"
  have s: "s\<lparr>in_rate_map := snd (um_index 0 (in_rate_map s) (ucast j)), out_rate_map := snd (um_index 0 (out_rate_map s) (ucast j))\<rparr> = ?s"
    by (cases s) simp
  have calculate: "calculate_job c j s = rbind (judge_job c j ?i ?r) (\<lambda>ras. Inr (ras, ?s))"
    unfolding calculate_job_def by (subst (1 2) index_rate_of) simp
  show ?case
  proof (cases "judge_job c j ?i ?r")
    case (Inl e)
    then show ?thesis
      by (intro exI [of _ "Suc (Suc (Suc 0))"] exI [of _ "[Read_rates j ?i ?r]"])
        (simp add: calculate)
  next
    case (Inr ras)
    let ?es = "[Read_rates j ?i ?r, Asked_for j ras]"
    have job: "calculate_job c j s = Inr (ras, ?s)" using Inr by (simp add: calculate)
    have run: "loop_alone c (Suc (Suc (Suc n))) (Visiting (j # js), s, es) = loop_alone c n (Visiting js, ?s, es @ ?es)" for n
      by (simp add: Inr) (simp only: s)
    obtain n es' where "case calculate_jobs c js ?s of
      Inl e \<Rightarrow> \<exists>s'. loop_alone c n (Visiting js, ?s, es @ ?es) = (Undefined e, s', (es @ ?es) @ es')
    | Inr (ras, s') \<Rightarrow> loop_alone c n (Visiting js, ?s, es @ ?es) = (Sleeping, s', (es @ ?es) @ es') \<and> allocations es' = ras"
      using Cons [of ?s "es @ ?es"] by blast
    then show ?thesis
      using run [of n] job
      by (intro exI [of _ "Suc (Suc (Suc n))"] exI [of _ "?es @ es'"]) (auto split: sum.splits simp del: loop_alone.simps)
  qed
qed

section \<open>Properties\<close>

text \<open>
  C19. In every interleaving of the handlers' writes and the accesses of the loop: each table has one
  entry per key; the input table has exactly the keys that some handler wrote, so no
  sweep adds to it and nothing, \<open>FinalizeJob\<close> included, is ever removed; the output table has the keys that were
  written and those that a sweep read. A handler whose thread is not at work any more has written all it
  writes, so a registered job is in both tables, and a sweep begins with every key
  written before, each once.
\<close>

theorem registered_forever:
  assumes "server_runs c es s"
  shows "um_wf (in_rate_map (tables s)) \<and> um_wf (out_rate_map (tables s))
    \<and> set (um_keys (in_rate_map (tables s))) = {k. \<exists>v. Wrote (Set_in k v) \<in> set es}
    \<and> set (um_keys (out_rate_map (tables s))) =
        {k. \<exists>v. Wrote (Set_out k v) \<in> set es} \<union> {ucast j |j i r. Read_rates j i r \<in> set es}
    \<and> (\<forall>t j. Received t (Register j) \<in> set es \<and> pending s t = [] \<longrightarrow>
        ucast j \<in> set (um_keys (in_rate_map (tables s))) \<and> ucast j \<in> set (um_keys (out_rate_map (tables s))))
    \<and> (\<forall>n < length es. \<forall>js. es ! n = Snapshot js \<longrightarrow>
        distinct js \<and> ucast ` set js = {k. \<exists>v. Wrote (Set_in k v) \<in> set (take n es)})"
proof -
  note inv = tables_inv_runs [OF assms, unfolded tables_inv_def]
  have keys: "set (um_keys (in_rate_map (tables s))) = in_keys es" "set (um_keys (out_rate_map (tables s))) = out_keys es"
    using inv by simp_all
  have "ucast j \<in> in_keys es \<and> ucast j \<in> out_keys es"
    if "Received t (Register j) \<in> set es" "pending s t = []" for t j
    using received_runs [OF assms that(1)] that(2) by (auto simp: in_keys_def out_keys_def)
  moreover have "distinct js \<and> ucast ` set js = in_keys (take n es)" if "n < length es" "es ! n = Snapshot js" for n js
  proof -
    have "faithful (take n es) (es ! n)" using inv that(1) by (simp add: throughout_def)
    then show ?thesis by (simp add: that(2))
  qed
  ultimately show ?thesis using inv unfolding keys by (auto simp: in_keys_def out_keys_def)
qed

text \<open>A run of one RPC thread and the loop: job 7 is registered, finalized, and visited by the next sweep.\<close>

definition finalized_run :: "server_event list" where
  "finalized_run = [Received 0 (Register 7), Wrote (Set_in 7 0), Wrote (Set_out 7 0),
     Received 0 (Finalize 7), Wrote (Set_in 7 0), Wrote (Set_out 7 0), Snapshot [7]]"

lemma loop_goes_on:
  "server_runs c es s \<Longrightarrow> RunInternal_step c b (loop s) (tables s) = (pc, tb, es') \<Longrightarrow> server_runs c (es @ es') (s\<lparr>loop := pc, tables := tb\<rparr>)"
  by (blast intro: server_runs.goes_on server_step.Loop)

lemma request_goes_on:
  "server_runs c es s \<Longrightarrow> \<not> reading (loop s) \<Longrightarrow> \<not> undefined_loop (loop s) \<Longrightarrow> pending s t = [] \<Longrightarrow>
   server_runs c (es @ Received t r # map Wrote (writes r)) (s\<lparr>tables := snd (handle r (tables s))\<rparr>)"
proof -
  assume s: "server_runs c es s" "\<not> reading (loop s)" "\<not> undefined_loop (loop s)" "pending s t = []"
  have "server_runs c (es @ [Received t r] @ map Wrote (take n (writes r)))
      (s\<lparr>pending := (pending s)(t := drop n (writes r)), tables := fold apply_write (take n (writes r)) (tables s)\<rparr>)"
    if "n \<le> length (writes r)" for n
    using that
  proof (induction n)
    case 0
    show ?case using server_runs.goes_on [OF s(1) server_step.Receive [of s t c r]] s by (simp add: fun_upd_def)
  next
    case (Suc n)
    then have n: "drop n (writes r) = writes r ! n # drop (Suc n) (writes r)"
      "take (Suc n) (writes r) = take n (writes r) @ [writes r ! n]"
      by (simp_all add: Cons_nth_drop_Suc take_Suc_conv_app_nth)
    let ?s = "s\<lparr>pending := (pending s)(t := drop n (writes r)), tables := fold apply_write (take n (writes r)) (tables s)\<rparr>"
    have "server_step c ?s [Wrote (writes r ! n)] (?s\<lparr>pending := (pending ?s)(t := drop (Suc n) (writes r)),
        tables := apply_write (writes r ! n) (tables ?s)\<rparr>)"
      using s n by (intro server_step.Write) simp_all
    from server_runs.goes_on [OF Suc.IH this] Suc.prems show ?case by (simp add: n(2)) (simp add: fun_upd_def)
  qed
  from this [of "length (writes r)"] s(4) show ?thesis by (simp add: handle_writes fun_upd_idem)
qed

theorem registered_forever_witness:
  "\<exists>s. server_runs default_conf finalized_run s \<and> (7 :: u16) \<in> set (um_keys (in_rate_map (tables s)))
     \<and> (7 :: u16) \<in> set (um_keys (out_rate_map (tables s)))"
proof -
  let ?s1 = "start_server\<lparr>tables := snd (handle (Register 7) init_regulator)\<rparr>"
  let ?s2 = "?s1\<lparr>tables := snd (handle (Finalize 7) (tables ?s1))\<rparr>"
  have "server_runs default_conf [Received 0 (Register 7), Wrote (Set_in 7 0), Wrote (Set_out 7 0)] ?s1"
    using request_goes_on [OF server_runs.starts, of 0 default_conf "Register 7"] by (simp add: start_server_def)
  from request_goes_on [OF this, of 0 "Finalize 7"]
  have "server_runs default_conf [Received 0 (Register 7), Wrote (Set_in 7 0), Wrote (Set_out 7 0),
     Received 0 (Finalize 7), Wrote (Set_in 7 0), Wrote (Set_out 7 0)] ?s2" by (simp add: start_server_def)
  from loop_goes_on [OF this, of True]
  have run: "server_runs default_conf finalized_run (?s2\<lparr>loop := Visiting [7]\<rparr>)"
    by (simp add: start_server_def finalized_run_def in_jobs_def model_defs init_regulator_def um_set_def um_keys_def)
  from registered_forever [OF this] show ?thesis
    by (intro exI [of _ "?s2\<lparr>loop := Visiting [7]\<rparr>"]) (use run in \<open>auto simp: finalized_run_def start_server_def\<close>)
qed

text \<open>
  C22. What the loop asks for, in every interleaving, when every reported rate is below \<open>2 ^ 31\<close> and the update
  step is not 0: the loop never reaches undefined arithmetic; both rates of a visit are the last ones reported
  when it reads the second of them (no handler reports an input rate in between, because the loop holds \<open>in_mutex\<close>); and
  whenever the loop sleeps or has stopped, what it did is a sequence of whole sweeps, each of
  which visits the jobs of its snapshot one by one and asks for exactly what the decision says of the two rates it read.
\<close>

theorem sweeps_answer_reports:
  assumes "server_runs c es s" "UPDATE_STEP c \<noteq> 0"
    and "\<forall>k v. Wrote (Set_in k v) \<in> set es \<or> Wrote (Set_out k v) \<in> set es \<longrightarrow> uint v < 2 ^ 31"
  shows "(\<forall>e. loop s \<noteq> Undefined e)
    \<and> (\<forall>n < length es. \<forall>j i r. es ! n = Read_rates j i r \<longrightarrow>
        i = last_in (take n es) (ucast j) \<and> r = last_out (take n es) (ucast j))
    \<and> (loop s = Sleeping \<or> loop s = Halted \<longrightarrow> (\<exists>sweeps. filter of_loop es = concat (map (sweep_trace c) sweeps)))"
proof (intro conjI allI impI)
  have inv: "loop_inv c es (loop s)"
    using loop_inv_runs [OF assms(1) _ assms(2)] assms(3) by (simp add: small_reports_def)
  then show "loop s \<noteq> Undefined e" for e by (auto simp: loop_inv_def)
  show "\<exists>sweeps. filter of_loop es = concat (map (sweep_trace c) sweeps)" if "loop s = Sleeping \<or> loop s = Halted"
    using inv that by (auto simp: loop_inv_def)
  fix n j i r
  assume "n < length es" "es ! n = Read_rates j i r"
  moreover have "throughout faithful es" using tables_inv_runs [OF assms(1)] by (simp add: tables_inv_def)
  ultimately show "i = last_in (take n es) (ucast j)" "r = last_out (take n es) (ucast j)"
    by (metis faithful.simps(2) throughout_def)+
qed

lemma judged:
  "judge_job default_conf 1 4096 1096 = Inr [\<lparr>ra_job = 1, ra_nodes = 590, ra_procs = 0, ra_threads = 0\<rparr>]"
  "asked default_conf 1 1096 4096 = [\<lparr>ra_job = 1, ra_nodes = 590, ra_procs = 0, ra_threads = 0\<rparr>]"
  by code_simp+

text \<open>A rate is reported between the snapshot and the reads, and the sweep asks for 590 nodes.\<close>

theorem sweeps_answer_reports_witness:
  "\<exists>es s. server_runs default_conf es s \<and> loop s = Sleeping
    \<and> filter of_loop es = sweep_trace default_conf [(1, 4096, 1096)]
    \<and> Asked_for 1 [\<lparr>ra_job = 1, ra_nodes = 590, ra_procs = 0, ra_threads = 0\<rparr>] \<in> set es
    \<and> (\<exists>sweeps. filter of_loop es = concat (map (sweep_trace default_conf) sweeps))"
proof -
  let ?s = "\<lambda>pc tb. start_server\<lparr>tables := tb, loop := pc\<rparr>"
  let ?tb = "\<lambda>i. \<lparr>in_rate_map = [(1, i)], out_rate_map = [(1, 1096)]\<rparr> :: regulator"
  let ?es1 = "[Received 0 (Register 1), Wrote (Set_in 1 0), Wrote (Set_out 1 0), Received 1 (OutRate 1 1096), Wrote (Set_out 1 1096)]"
  let ?es2 = "?es1 @ [Snapshot [1], Received 0 (InRate 1 4096), Wrote (Set_in 1 4096)]"
  let ?ra = "\<lparr>ra_job = 1, ra_nodes = 590, ra_procs = 0, ra_threads = 0\<rparr>"
  have "server_runs default_conf [Received 0 (Register 1), Wrote (Set_in 1 0), Wrote (Set_out 1 0)]
      (?s Sleeping \<lparr>in_rate_map = [(1, 0)], out_rate_map = [(1, 0)]\<rparr>)"
    using request_goes_on [OF server_runs.starts, of 0 default_conf "Register 1"]
    by (simp add: start_server_def model_defs init_regulator_def um_set_def)
  from request_goes_on [OF this, of 1 "OutRate 1 1096"]
  have "server_runs default_conf ?es1 (?s Sleeping (?tb 0))"
    by (simp add: start_server_def model_defs um_set_def)
  from loop_goes_on [OF this, of True]
  have "server_runs default_conf (?es1 @ [Snapshot [1]]) (?s (Visiting [1]) (?tb 0))"
    by (simp add: start_server_def in_jobs_def um_keys_def)
  from request_goes_on [OF this, of 0 "InRate 1 4096"]
  have "server_runs default_conf ?es2 (?s (Visiting [1]) (?tb 4096))"
    by (simp add: start_server_def model_defs um_set_def)
  from loop_goes_on [OF this, of True]
  have "server_runs default_conf ?es2 (?s (Has_in 1 4096 []) (?tb 4096))"
    by (simp add: start_server_def rate_of_def um_get_def um_index_def)
  from loop_goes_on [OF this, of True]
  have "server_runs default_conf (?es2 @ [Read_rates 1 4096 1096]) (?s (Has_both 1 4096 1096 []) (?tb 4096))"
    by (simp add: start_server_def rate_of_def um_get_def um_index_def)
  from loop_goes_on [OF this, of True]
  have "server_runs default_conf (?es2 @ [Read_rates 1 4096 1096, Asked_for 1 [?ra]]) (?s (Visiting []) (?tb 4096))"
    by (simp add: start_server_def judged)
  from loop_goes_on [OF this, of True]
  have run: "server_runs default_conf (?es2 @ [Read_rates 1 4096 1096, Asked_for 1 [?ra], Sweep_ends]) (?s Sleeping (?tb 4096))"
    by (simp add: start_server_def)
  have "\<exists>sweeps. filter of_loop (?es2 @ [Read_rates 1 4096 1096, Asked_for 1 [?ra], Sweep_ends]) = concat (map (sweep_trace default_conf) sweeps)"
    using sweeps_answer_reports [OF run] by (simp add: default_conf_def)
  with run show ?thesis
    by (intro exI [of _ "?es2 @ [Read_rates 1 4096 1096, Asked_for 1 [?ra], Sweep_ends]"] exI [of _ "?s Sleeping (?tb 4096)"])
      (simp add: sweep_trace_def visit_def judged)
qed

text \<open>
  A sweep that no handler interrupts is \<open>CalculateRate\<close>: the steps of the loop end with the same
  tables and have asked for the same allocations, or run into the same undefined behaviour.
\<close>

theorem uninterrupted_sweep:
  "\<exists>n es. case CalculateRate c s of
      Inl e \<Rightarrow> \<exists>s'. loop_alone c n (Sleeping, s, []) = (Undefined e, s', es)
    | Inr (ok, ras, s') \<Rightarrow> loop_alone c n (Sleeping, s, []) = (Sleeping, s', es) \<and> allocations es = ras"
proof -
  obtain n es where *: "case calculate_jobs c (in_jobs s) s of
      Inl e \<Rightarrow> \<exists>s'. loop_alone c n (Visiting (in_jobs s), s, [Snapshot (in_jobs s)]) = (Undefined e, s', [Snapshot (in_jobs s)] @ es)
    | Inr (ras, s') \<Rightarrow> loop_alone c n (Visiting (in_jobs s), s, [Snapshot (in_jobs s)]) = (Sleeping, s', [Snapshot (in_jobs s)] @ es)
        \<and> allocations es = ras"
    using loop_alone_jobs [of c "in_jobs s" s "[Snapshot (in_jobs s)]"] by blast
  have "loop_alone c (Suc n) (Sleeping, s, []) = loop_alone c n (Visiting (in_jobs s), s, [Snapshot (in_jobs s)])" by simp
  with * show ?thesis
    by (intro exI [of _ "Suc n"] exI [of _ "Snapshot (in_jobs s) # es"])
      (auto simp: CalculateRate_def rbind_def split: sum.splits simp del: loop_alone.simps)
qed

end
