(* ===== verification/Regulator_Locks.thy ===== *)
theory Regulator_Locks
  imports Regulator
begin

text \<open>
  The locking of the byte-flow regulator server (\<open>in_mutex\<close>, \<open>out_mutex\<close> of
  \<open>src/rhea/byte_flow_regulator/server.cpp\<close>). Each handler is the list of its lock operations
  and table accesses, in the order of the source; threads run such lists one action at a time,
  in any interleaving, on two \<open>std::shared_mutex\<close>es.

  An access is a read, or a write (an assignment, or an \<open>operator[]\<close> that may insert).
  \<open>in_rate_map[job]\<close> in \<open>CalculateRate\<close> is a read: its keys come from that table, from which
  nothing is removed (theory \<open>Regulator_Threads\<close>). \<open>out_rate_map[job]\<close> may insert.

  For a thread that calls \<open>lock_shared\<close> on a mutex it owns already, as every sweep over a job does, the behaviour is
  undefined. The model leaves it open what an implementation does then: such a thread does not go on, or
  the lock is granted; and whether a reader waits behind a waiting writer.
\<close>

section \<open>\<open>std::shared_mutex\<close>\<close>

record smutex =
  exclusive :: "nat option"
  shared :: "nat list"

definition free_mutex :: smutex where
  "free_mutex = \<lparr>exclusive = None, shared = []\<rparr>"

definition sm_lock :: "nat \<Rightarrow> smutex \<Rightarrow> smutex option" where
  "sm_lock t m = (if exclusive m = None \<and> shared m = [] then Some (m\<lparr>exclusive := Some t\<rparr>) else None)"

definition sm_unlock :: "nat \<Rightarrow> smutex \<Rightarrow> smutex option" where
  "sm_unlock t m = (if exclusive m = Some t then Some (m\<lparr>exclusive := None\<rparr>) else None)"

text \<open>\<open>again\<close>: the implementation grants a shared lock to a thread that owns one.\<close>

definition sm_lock_shared :: "bool \<Rightarrow> nat \<Rightarrow> smutex \<Rightarrow> smutex option" where
  "sm_lock_shared again t m =
     (if exclusive m = None \<and> (again \<or> t \<notin> set (shared m)) then Some (m\<lparr>shared := t # shared m\<rparr>) else None)"

definition sm_unlock_shared :: "nat \<Rightarrow> smutex \<Rightarrow> smutex option" where
  "sm_unlock_shared t m =
     (if t \<in> set (shared m) then Some (m\<lparr>shared := remove1 t (shared m)\<rparr>) else None)"

lemmas sm_defs = sm_lock_def sm_unlock_def sm_lock_shared_def sm_unlock_shared_def

section \<open>The handlers as lists of actions\<close>

datatype mutex_name = In_mutex | Out_mutex
datatype rate_table = In_table | Out_table

datatype action =
    Lock mutex_name
  | Unlock mutex_name
  | LockS mutex_name
  | UnlockS mutex_name
  | Access rate_table bool   \<comment> \<open>the flag: the access may write\<close>

datatype regulator_call = Call reg_request | Sweep nat   \<comment> \<open>a sweep over that many jobs\<close>

definition set_in :: "action list" where
  "set_in = [Lock In_mutex, Access In_table True, Unlock In_mutex]"

definition set_out :: "action list" where
  "set_out = [Lock Out_mutex, Access Out_table True, Unlock Out_mutex]"

text \<open>The lock named \<open>out_lock\<close> of the sweep is a second lock of \<open>in_mutex\<close>.\<close>

definition sweep_job :: "action list" where
  "sweep_job = [LockS In_mutex, LockS In_mutex, Access In_table False, Access Out_table True,
     UnlockS In_mutex, UnlockS In_mutex]"

fun lock_actions :: "regulator_call \<Rightarrow> action list" where
  "lock_actions (Call (Register j)) = set_in @ set_out"
| "lock_actions (Call (Finalize j)) = set_in @ set_out"
| "lock_actions (Call (InRate j r)) = set_in"
| "lock_actions (Call (OutRate j r)) = set_out"
| "lock_actions (Sweep n) =
     [LockS In_mutex, Access In_table False, UnlockS In_mutex] @ concat (replicate n sweep_job)"

section \<open>Interleaving\<close>

record lock_sys =
  progs :: "nat \<Rightarrow> action list"
  mutexes :: "mutex_name \<Rightarrow> smutex"

definition upd_mutex ::
  "(mutex_name \<Rightarrow> smutex) \<Rightarrow> mutex_name \<Rightarrow> smutex option \<Rightarrow> (mutex_name \<Rightarrow> smutex) option" where
  "upd_mutex ms l m = map_option (\<lambda>m. ms(l := m)) m"

fun perform :: "bool \<Rightarrow> nat \<Rightarrow> action \<Rightarrow> (mutex_name \<Rightarrow> smutex) \<Rightarrow> (mutex_name \<Rightarrow> smutex) option" where
  "perform again t (Lock l) ms = upd_mutex ms l (sm_lock t (ms l))"
| "perform again t (Unlock l) ms = upd_mutex ms l (sm_unlock t (ms l))"
| "perform again t (LockS l) ms = upd_mutex ms l (sm_lock_shared again t (ms l))"
| "perform again t (UnlockS l) ms = upd_mutex ms l (sm_unlock_shared t (ms l))"
| "perform again t (Access r w) ms = Some ms"

record mutex_kind =
  writers_first :: bool    \<comment> \<open>a shared lock waits behind a writer that waits itself\<close>
  grants_again :: bool     \<comment> \<open>a shared lock is granted to a thread that owns one\<close>

definition behind_writer :: "nat \<Rightarrow> action \<Rightarrow> lock_sys \<Rightarrow> bool" where
  "behind_writer t a s =
     (\<exists>l u. a = LockS l \<and> u \<noteq> t \<and> progs s u \<noteq> [] \<and> hd (progs s u) = Lock l)"

inductive lock_step :: "mutex_kind \<Rightarrow> lock_sys \<Rightarrow> lock_sys \<Rightarrow> bool" for K where
  act: "\<lbrakk>progs s t = a # p; writers_first K \<longrightarrow> \<not> behind_writer t a s;
      perform (grants_again K) t a (mutexes s) = Some ms\<rbrakk> \<Longrightarrow>
    lock_step K s (s\<lparr>progs := (progs s)(t := p), mutexes := ms\<rparr>)"

text \<open>Some thread is about to take a shared lock that it owns: from here on the behaviour is undefined.\<close>

definition undefined_lock :: "lock_sys \<Rightarrow> bool" where
  "undefined_lock s = (\<exists>t l p. progs s t = LockS l # p \<and> t \<in> set (shared (mutexes s l)))"

inductive_cases lock_stepE: "lock_step K s s'"

text \<open>Initially both mutexes are free and every thread has a list of calls to run.\<close>

definition start_sys :: "(nat \<Rightarrow> regulator_call list) \<Rightarrow> lock_sys" where
  "start_sys calls = \<lparr>progs = (\<lambda>t. concat (map lock_actions (calls t))), mutexes = (\<lambda>_. free_mutex)\<rparr>"

inductive lock_reachable :: "mutex_kind \<Rightarrow> (nat \<Rightarrow> regulator_call list) \<Rightarrow> lock_sys \<Rightarrow> bool" for K calls where
  start: "lock_reachable K calls (start_sys calls)"
| step: "\<lbrakk>lock_reachable K calls s; lock_step K s s'\<rbrakk> \<Longrightarrow> lock_reachable K calls s'"

text \<open>Running the threads in a given order, one action each time.\<close>

fun run_schedule :: "mutex_kind \<Rightarrow> nat list \<Rightarrow> lock_sys \<Rightarrow> lock_sys option" where
  "run_schedule K [] s = Some s"
| "run_schedule K (t # ts) s =
     (if progs s t = [] \<or> writers_first K \<and> behind_writer t (hd (progs s t)) s then None
      else case perform (grants_again K) t (hd (progs s t)) (mutexes s) of
          None \<Rightarrow> None
        | Some ms \<Rightarrow>
            run_schedule K ts (s\<lparr>progs := (progs s)(t := tl (progs s t)), mutexes := ms\<rparr>))"

lemma run_schedule_reachable:
  "lock_reachable K calls s \<Longrightarrow> run_schedule K ts s = Some s' \<Longrightarrow> lock_reachable K calls s'"
proof (induction ts arbitrary: s)
  case (Cons t ts)
  from Cons.prems(2) obtain ms where
    "progs s t = hd (progs s t) # tl (progs s t)" "writers_first K \<longrightarrow> \<not> behind_writer t (hd (progs s t)) s"
    "perform (grants_again K) t (hd (progs s t)) (mutexes s) = Some ms"
    and run: "run_schedule K ts (s\<lparr>progs := (progs s)(t := tl (progs s t)), mutexes := ms\<rparr>) = Some s'"
    by (auto split: if_splits option.splits)
  then have "lock_step K s (s\<lparr>progs := (progs s)(t := tl (progs s t)), mutexes := ms\<rparr>)"
    by (intro lock_step.act)
  then show ?case
    by (rule Cons.IH [OF lock_reachable.step [OF Cons.prems(1)] run])
qed simp

text \<open>Two threads are about to access the same table, one of them to write it.\<close>

definition race :: "rate_table \<Rightarrow> lock_sys \<Rightarrow> bool" where
  "race r s = (\<exists>t u w v p q. t \<noteq> u \<and> progs s t = Access r w # p \<and> progs s u = Access r v # q \<and> (w \<or> v))"

section \<open>Lock discipline\<close>

text \<open>What a thread holds: nothing, one mutex exclusively, or one mutex shared (\<open>n + 1\<close> times).\<close>

datatype hold = Free | Ex mutex_name | Sh mutex_name nat

fun after :: "hold \<Rightarrow> action \<Rightarrow> hold option" where
  "after Free (Lock l) = Some (Ex l)"
| "after Free (LockS l) = Some (Sh l 0)"
| "after (Ex k) (Unlock l) = (if k = l then Some Free else None)"
| "after (Sh k n) (LockS l) = (if k = l then Some (Sh k (Suc n)) else None)"
| "after (Sh k n) (UnlockS l) =
     (if k = l then Some (case n of 0 \<Rightarrow> Free | Suc m \<Rightarrow> Sh k m) else None)"
| "after h (Access Out_table w) = Some h"
| "after h (Access In_table w) =
     (case h of Free \<Rightarrow> None
      | Ex k \<Rightarrow> if k = In_mutex then Some h else None
      | Sh k n \<Rightarrow> if k = In_mutex \<and> \<not> w then Some h else None)"
| "after h a = None"

fun disciplined :: "hold \<Rightarrow> action list \<Rightarrow> bool" where
  "disciplined h [] = (h = Free)"
| "disciplined h (a # p) = (case after h a of None \<Rightarrow> False | Some h' \<Rightarrow> disciplined h' p)"

lemma disciplined_append:
  "disciplined h p \<Longrightarrow> disciplined Free q \<Longrightarrow> disciplined h (p @ q)"
  by (induction p arbitrary: h) (auto split: option.splits)

lemma disciplined_sweep: "disciplined Free (concat (replicate n sweep_job))"
  by (induction n) (auto intro!: disciplined_append simp: sweep_job_def)

lemma disciplined_handler: "disciplined Free (lock_actions c)"
  by (cases c rule: lock_actions.cases)
     (simp_all add: set_in_def set_out_def disciplined_sweep)

lemma disciplined_calls: "disciplined Free (concat (map lock_actions cs))"
  by (induction cs) (auto intro: disciplined_append disciplined_handler)

section \<open>The invariant\<close>

definition shared_count :: "mutex_name \<Rightarrow> hold \<Rightarrow> nat" where
  "shared_count l h = (case h of Sh k n \<Rightarrow> if k = l then Suc n else 0 | _ \<Rightarrow> 0)"

text \<open>The mutexes record exactly what the threads hold, and each thread keeps the discipline.\<close>

definition mutex_holds :: "mutex_name \<Rightarrow> smutex \<Rightarrow> (nat \<Rightarrow> hold) \<Rightarrow> bool" where
  "mutex_holds l m h =
     ((\<forall>t. exclusive m = Some t \<longleftrightarrow> h t = Ex l)
      \<and> (\<forall>t. count_list (shared m) t = shared_count l (h t))
      \<and> (exclusive m \<noteq> None \<longrightarrow> shared m = []))"

definition lock_inv :: "(nat \<Rightarrow> hold) \<Rightarrow> lock_sys \<Rightarrow> bool" where
  "lock_inv h s = ((\<forall>t. disciplined (h t) (progs s t)) \<and> (\<forall>l. mutex_holds l (mutexes s l) h))"

lemma count_list_remove1: "count_list (remove1 x xs) y = count_list xs y - (if x = y then 1 else 0)"
  by (induction xs) auto

lemma count_list_Nil_iff: "(\<forall>t. count_list xs t = 0) \<longleftrightarrow> xs = []"
  by (metis count_list_0_iff count_list.simps(1) list.set_intros(1) neq_Nil_conv)

lemma shared_count_simps [simp]:
  "shared_count l Free = 0" "shared_count l (Ex k) = 0"
  "shared_count l (Sh k n) = (if k = l then Suc n else 0)"
  by (simp_all add: shared_count_def)

lemma lock_inv_start: "lock_inv (\<lambda>_. Free) (start_sys calls)"
  by (simp add: lock_inv_def start_sys_def mutex_holds_def free_mutex_def disciplined_calls)

text \<open>What each action does to what the thread holds.\<close>

lemma after_LockD: "after h (Lock l) = Some h' \<Longrightarrow> h = Free \<and> h' = Ex l"
  by (cases h) simp_all

lemma after_UnlockD: "after h (Unlock l) = Some h' \<Longrightarrow> h = Ex l \<and> h' = Free"
  by (cases h) (simp_all split: if_splits)

lemma after_LockSD:
  "after h (LockS l) = Some h' \<Longrightarrow> h = Free \<and> h' = Sh l 0 \<or> (\<exists>n. h = Sh l n \<and> h' = Sh l (Suc n))"
  by (cases h) (simp_all split: if_splits)

lemma after_UnlockSD:
  "after h (UnlockS l) = Some h' \<Longrightarrow>
   \<exists>n. h = Sh l n \<and> h' = (case n of 0 \<Rightarrow> Free | Suc m \<Rightarrow> Sh l m)"
  by (cases h) (auto split: if_splits)

lemma after_AccessD: "after h (Access r w) = Some h' \<Longrightarrow> h' = h"
  by (cases h; cases r) (simp_all split: if_splits)

lemma after_In_accessD:
  "after h (Access In_table w) = Some h' \<Longrightarrow> h = Ex In_mutex \<or> \<not> w \<and> (\<exists>n. h = Sh In_mutex n)"
  by (cases h) (simp_all split: if_splits)

lemma upd_mutex_SomeD: "upd_mutex ms l m = Some ms' \<Longrightarrow> \<exists>m'. m = Some m' \<and> ms' = ms(l := m')"
  by (auto simp: upd_mutex_def)

lemma perform_holds:
  fixes h :: "nat \<Rightarrow> hold" and t :: nat
  assumes "perform again t a ms = Some ms'" "after (h t) a = Some x" "\<And>l. mutex_holds l (ms l) h"
  shows "mutex_holds k (ms' k) (h(t := x))"
proof (cases a)
  case (Lock l)
  with assms(1,2) obtain m' where "sm_lock t (ms l) = Some m'" "ms' = ms(l := m')"
      "h t = Free" "x = Ex l"
    by (auto dest!: upd_mutex_SomeD after_LockD)
  with assms(3) [of k] show ?thesis
    by (auto simp: sm_defs mutex_holds_def split: if_splits)
next
  case (Unlock l)
  with assms(1,2) obtain m' where "sm_unlock t (ms l) = Some m'" "ms' = ms(l := m')"
      "h t = Ex l" "x = Free"
    by (auto dest!: upd_mutex_SomeD after_UnlockD)
  with assms(3) [of k] show ?thesis
    by (auto simp: sm_defs mutex_holds_def split: if_splits)
next
  case (LockS l)
  with assms(1,2) obtain m' where m': "sm_lock_shared again t (ms l) = Some m'" "ms' = ms(l := m')"
    and x: "h t = Free \<and> x = Sh l 0 \<or> (\<exists>n. h t = Sh l n \<and> x = Sh l (Suc n))"
    by (auto dest!: upd_mutex_SomeD after_LockSD)
  have held: "count_list (shared (ms l)) t = shared_count l (h t)"
    using assms(3) [of l] by (simp add: mutex_holds_def)
  from x show ?thesis
  proof (elim disjE exE conjE)
    assume "h t = Free" "x = Sh l 0"
    with assms(3) [of k] m' show ?thesis
      by (auto simp: sm_defs mutex_holds_def split: if_splits)
  next
    fix n assume n: "h t = Sh l n" "x = Sh l (Suc n)"
    then have "shared (ms l) \<noteq> []" using held by auto
    with assms(3) [of k] m' n show ?thesis
      by (auto simp: sm_defs mutex_holds_def split: if_splits)
  qed
next
  case (UnlockS l)
  with assms(1,2) obtain m' n where m': "sm_unlock_shared t (ms l) = Some m'" "ms' = ms(l := m')"
    and x: "h t = Sh l n" "x = (case n of 0 \<Rightarrow> Free | Suc m \<Rightarrow> Sh l m)"
    by (auto dest!: upd_mutex_SomeD after_UnlockSD)
  with assms(3) [of k] show ?thesis
    by (auto simp: sm_defs mutex_holds_def count_list_remove1 split: if_splits nat.splits)
next
  case (Access r w)
  with assms show ?thesis by (auto dest!: after_AccessD)
qed

text \<open>A thread will take a shared lock that it owns.\<close>

fun relocks :: "hold \<Rightarrow> action list \<Rightarrow> bool" where
  "relocks h [] = False"
| "relocks h (a # p) = ((\<exists>l n. h = Sh l n \<and> a = LockS l) \<or> (case after h a of None \<Rightarrow> False | Some h' \<Rightarrow> relocks h' p))"

lemma relocks_append:
  "disciplined h p \<Longrightarrow> relocks h (p @ q) \<longleftrightarrow> relocks h p \<or> relocks Free q"
  by (induction p arbitrary: h) (auto split: option.splits)

lemma relocks_sweep: "relocks Free (concat (replicate (Suc n) sweep_job))"
  by (simp add: sweep_job_def)

lemma relocks_handler: "relocks Free (lock_actions c) \<longleftrightarrow> (\<exists>n. c = Sweep (Suc n))"
proof (cases c rule: lock_actions.cases)
  case (5 n)
  then show ?thesis using relocks_sweep by (cases n) simp_all
qed (simp_all add: set_in_def set_out_def)

lemma relocks_calls: "relocks Free (concat (map lock_actions cs)) \<longleftrightarrow> (\<exists>n. Sweep (Suc n) \<in> set cs)"
  by (induction cs) (auto simp: relocks_append disciplined_handler relocks_handler)

lemma holds_shared:
  assumes "mutex_holds l m h" "h t = Sh l n"
  shows "t \<in> set (shared m)" "exclusive m = None"
proof -
  have "count_list (shared m) t \<noteq> 0" using assms by (simp add: mutex_holds_def)
  then show *: "t \<in> set (shared m)" by (simp add: count_list_0_iff)
  then show "exclusive m = None" using assms(1) by (auto simp: mutex_holds_def)
qed

lemma shared_holds:
  assumes "mutex_holds l m h" "t \<in> set (shared m)"
  shows "\<exists>n. h t = Sh l n"
proof -
  have "count_list (shared m) t \<noteq> 0" using assms(2) by (simp add: count_list_0_iff)
  then have "shared_count l (h t) \<noteq> 0" using assms(1) by (simp add: mutex_holds_def)
  then show ?thesis by (cases "h t") (auto split: if_splits)
qed

text \<open>What a step does to the holdings; it ends a relock only when the kind grants it.\<close>

lemma lock_step_inv:
  assumes "lock_step K s s'" "lock_inv h s"
  obtains h' where "lock_inv h' s'"
    and "\<And>u. relocks (h' u) (progs s' u) \<Longrightarrow> relocks (h u) (progs s u)"
    and "\<And>u. \<not> grants_again K \<Longrightarrow> relocks (h u) (progs s u) \<Longrightarrow> relocks (h' u) (progs s' u)"
proof -
  from assms(1) obtain t a p ms where s': "s' = s\<lparr>progs := (progs s)(t := p), mutexes := ms\<rparr>"
    and t: "progs s t = a # p" and ms: "perform (grants_again K) t a (mutexes s) = Some ms"
    by (elim lock_stepE)
  from assms(2) t obtain x where x: "after (h t) a = Some x" "disciplined x p"
    unfolding lock_inv_def by (metis disciplined.simps(2) option.case_eq_if option.exhaust_sel)
  have held: "mutex_holds l (mutexes s l) h" for l using assms(2) by (simp add: lock_inv_def)
  have inv: "lock_inv (h(t := x)) s'"
    using assms(2) x perform_holds [where h = h and t = t and a = a, OF ms x(1)]
    by (simp add: lock_inv_def s')
  have new: "\<not> (\<exists>l n. h t = Sh l n \<and> a = LockS l)" if "\<not> grants_again K"
    using ms that holds_shared(1) [OF held] by (auto simp: upd_mutex_def sm_defs)
  show thesis
  proof (rule that [OF inv])
    show "relocks (h u) (progs s u)" if "relocks ((h(t := x)) u) (progs s' u)" for u
      using that by (cases "u = t") (simp_all add: s' t x(1))
    show "relocks ((h(t := x)) u) (progs s' u)" if "\<not> grants_again K" "relocks (h u) (progs s u)" for u
      using that new by (cases "u = t") (auto simp: s' t x(1))
  qed
qed

lemma lock_reachable_relocks:
  assumes "lock_reachable K calls s"
  shows "\<exists>h. lock_inv h s \<and> (\<forall>u. relocks (h u) (progs s u) \<longrightarrow> (\<exists>n. Sweep (Suc n) \<in> set (calls u)))
    \<and> (\<forall>u n. \<not> grants_again K \<and> Sweep (Suc n) \<in> set (calls u) \<longrightarrow> relocks (h u) (progs s u))"
  using assms
proof (induction rule: lock_reachable.induct)
  case start
  have "relocks Free (progs (start_sys calls) u) \<longleftrightarrow> (\<exists>n. Sweep (Suc n) \<in> set (calls u))" for u
    by (simp add: start_sys_def relocks_calls)
  then show ?case using lock_inv_start by blast
next
  case (step s s')
  then obtain h where h: "lock_inv h s" "\<forall>u. relocks (h u) (progs s u) \<longrightarrow> (\<exists>n. Sweep (Suc n) \<in> set (calls u))"
    "\<forall>u n. \<not> grants_again K \<and> Sweep (Suc n) \<in> set (calls u) \<longrightarrow> relocks (h u) (progs s u)"
    by blast
  obtain h' where "lock_inv h' s'" "\<And>u. relocks (h' u) (progs s' u) \<Longrightarrow> relocks (h u) (progs s u)"
    "\<And>u. \<not> grants_again K \<Longrightarrow> relocks (h u) (progs s u) \<Longrightarrow> relocks (h' u) (progs s' u)"
    using lock_step_inv [OF step(2) h(1)] by blast
  with h(2,3) show ?case by (intro exI [of _ h']) blast
qed

lemma lock_reachable_inv: "lock_reachable K calls s \<Longrightarrow> \<exists>h. lock_inv h s"
  using lock_reachable_relocks by blast

text \<open>Under the invariant, whoever is about to access the input table holds its mutex.\<close>

lemma in_access_holds:
  assumes "lock_inv h s" "progs s t = Access In_table w # p"
  shows "exclusive (mutexes s In_mutex) = Some t \<or> \<not> w \<and> t \<in> set (shared (mutexes s In_mutex))"
proof -
  from assms obtain x where "after (h t) (Access In_table w) = Some x"
    unfolding lock_inv_def by (metis disciplined.simps(2) option.case_eq_if option.exhaust_sel)
  then have "h t = Ex In_mutex \<or> \<not> w \<and> (\<exists>n. h t = Sh In_mutex n)"
    by (rule after_In_accessD)
  moreover have holds: "mutex_holds In_mutex (mutexes s In_mutex) h"
    using assms(1) by (simp add: lock_inv_def)
  moreover have "t \<in> set (shared (mutexes s In_mutex))" if "h t = Sh In_mutex n" for n
    using holds_shared(1) [OF holds that] .
  ultimately show ?thesis by (auto simp: mutex_holds_def)
qed

text \<open>A thread that holds a mutex can perform its next action, unless that is a shared lock of it again.\<close>

lemma holder_enabled:
  assumes "lock_inv h s" "h t \<noteq> Free"
  obtains a p ms where "progs s t = a # p" "perform True t a (mutexes s) = Some ms"
    and "\<And>l. a = LockS l \<Longrightarrow> t \<in> set (shared (mutexes s l))"
proof -
  from assms obtain a p where t: "progs s t = a # p"
    unfolding lock_inv_def by (metis disciplined.simps(1) neq_Nil_conv)
  with assms(1) obtain x where x: "after (h t) a = Some x"
    unfolding lock_inv_def by (metis disciplined.simps(2) option.case_eq_if option.exhaust_sel)
  have held: "mutex_holds l (mutexes s l) h" for l
    using assms(1) by (simp add: lock_inv_def)
  have "perform True t a (mutexes s) \<noteq> None \<and> (\<forall>l. a = LockS l \<longrightarrow> t \<in> set (shared (mutexes s l)))"
  proof (cases "h t")
    case (Ex l)
    with held [of l] have "exclusive (mutexes s l) = Some t" by (simp add: mutex_holds_def)
    with x Ex show ?thesis
      by (cases a) (auto simp: upd_mutex_def sm_defs split: if_splits)
  next
    case (Sh l n)
    with x holds_shared [OF held Sh] show ?thesis
      by (cases a) (auto simp: upd_mutex_def sm_defs split: if_splits)
  qed (use assms(2) in simp)
  with t that show thesis by auto
qed

lemma perform_again:
  "perform True t a ms = Some ms' \<Longrightarrow> (\<And>l. a = LockS l \<Longrightarrow> t \<notin> set (shared (ms l))) \<Longrightarrow> perform again t a ms = Some ms'"
  by (cases a) (simp_all add: upd_mutex_def sm_defs split: if_splits)

text \<open>When nobody holds a mutex, whoever is not finished can perform its next action.\<close>

lemma free_enabled:
  assumes "lock_inv h s" "\<forall>t. h t = Free" "progs s t = a # p"
  obtains ms where "perform again t a (mutexes s) = Some ms"
proof -
  have "exclusive (mutexes s l) = None \<and> shared (mutexes s l) = []" for l
  proof -
    have m: "mutex_holds l (mutexes s l) h" using assms(1) by (simp add: lock_inv_def)
    then have "\<forall>t. count_list (shared (mutexes s l)) t = 0"
      using assms(2) by (simp add: mutex_holds_def)
    then have "shared (mutexes s l) = []" by (simp only: count_list_Nil_iff)
    moreover have "exclusive (mutexes s l) = None"
      using m assms(2) by (auto simp: mutex_holds_def)
    ultimately show ?thesis by simp
  qed
  moreover have "disciplined (h t) (a # p)"
    using assms(1,3) unfolding lock_inv_def by metis
  then have "after Free a \<noteq> None"
    using assms(2) by (auto split: option.splits)
  ultimately have "perform again t a (mutexes s) \<noteq> None"
    by (cases a) (auto simp: upd_mutex_def sm_defs)
  with that show thesis by auto
qed

text \<open>Whoever is about to take a shared lock again is in a sweep.\<close>

lemma undefined_relocks: "lock_inv h s \<Longrightarrow> undefined_lock s \<Longrightarrow> \<exists>u. relocks (h u) (progs s u)"
  unfolding undefined_lock_def lock_inv_def using shared_holds by (metis relocks.simps(2))

lemma progress_or_undefined:
  assumes inv: "lock_inv h s" and t: "progs s t \<noteq> []"
  shows "(\<exists>s'. lock_step K s s') \<or> undefined_lock s"
proof (cases "\<forall>u. h u = Free")
  case True
  have writer: "\<exists>s'. lock_step K s s'" if u: "progs s u = a # p" "\<not> behind_writer u a s" for u a p
  proof -
    obtain ms where "perform (grants_again K) u a (mutexes s) = Some ms" by (rule free_enabled [OF inv True u(1)])
    with u show ?thesis by (blast intro: lock_step.act)
  qed
  obtain a p where a: "progs s t = a # p" using t by (cases "progs s t") auto
  show ?thesis
  proof (cases "behind_writer t a s")
    case True
    then obtain l u where "progs s u = Lock l # tl (progs s u)" unfolding behind_writer_def by (metis list.collapse)
    then show ?thesis using writer [of u "Lock l"] by (auto simp: behind_writer_def)
  next
    case False
    with writer a show ?thesis by blast
  qed
next
  case False
  then obtain u a p ms where u: "progs s u = a # p" "perform True u a (mutexes s) = Some ms"
    "\<And>l. a = LockS l \<Longrightarrow> u \<in> set (shared (mutexes s l))"
    by (meson holder_enabled inv)
  show ?thesis
  proof (cases "\<exists>l. a = LockS l")
    case True
    with u show ?thesis unfolding undefined_lock_def by blast
  next
    case False
    then have "perform (grants_again K) u a (mutexes s) = Some ms" using perform_again u(2) by blast
    moreover have "\<not> behind_writer u a s" using False by (simp add: behind_writer_def)
    ultimately show ?thesis using u(1) by (blast intro: lock_step.act)
  qed
qed

lemma progress_granted:
  assumes inv: "lock_inv h s" and t: "progs s t \<noteq> []" and K: "grants_again K" "\<not> writers_first K"
  shows "\<exists>s'. lock_step K s s'"
proof -
  obtain u a p ms where "progs s u = a # p" "perform True u a (mutexes s) = Some ms"
  proof (cases "\<forall>t. h t = Free")
    case True
    from t obtain a p where "progs s t = a # p" by (cases "progs s t") auto
    with True show ?thesis by (meson free_enabled inv that)
  next
    case False
    then show ?thesis by (meson holder_enabled inv that)
  qed
  with K show ?thesis by (metis lock_step.act)
qed

section \<open>Properties\<close>

text \<open>
  C18. No race on \<open>in_rate_map\<close>: in every interleaving of handlers and sweeps, no thread is
  about to access the input table while another is about to write it.
\<close>

theorem in_table_race_free:
  assumes "lock_reachable K calls s"
  shows "\<not> race In_table s"
proof
  assume "race In_table s"
  then obtain t u w v p q where tu: "t \<noteq> u" "w \<or> v"
    "progs s t = Access In_table w # p" "progs s u = Access In_table v # q"
    unfolding race_def by blast
  obtain h where inv: "lock_inv h s"
    using lock_reachable_inv [OF assms] by blast
  then have "exclusive (mutexes s In_mutex) \<noteq> None \<longrightarrow> shared (mutexes s In_mutex) = []"
    by (simp add: lock_inv_def mutex_holds_def)
  with in_access_holds [OF inv tu(3)] in_access_holds [OF inv tu(4)] tu(1,2) show False
    by auto
qed

text \<open>The calls used as an instance: thread 0 reports an output rate, thread 1 sweeps one job.\<close>

definition rate_and_sweep :: "nat \<Rightarrow> regulator_call list" where
  "rate_and_sweep t = (if t = 0 then [Call (OutRate 1 5)] else if t = 1 then [Sweep 1] else [])"

theorem in_table_race_free_witness: "\<not> race In_table (start_sys rate_and_sweep)"
  by (rule in_table_race_free [OF lock_reachable.start])

text \<open>
  A race on \<open>out_rate_map\<close>, where the second shared lock is granted: the sweep calls \<open>out_rate_map[job]\<close>,
  which may insert, while another thread holds \<open>out_mutex\<close> and writes the same table, since
  its \<open>out_lock\<close> locks \<open>in_mutex\<close>.
\<close>

theorem out_table_race:
  "\<exists>s. lock_reachable \<lparr>writers_first = w, grants_again = True\<rparr> rate_and_sweep s \<and> race Out_table s"
proof -
  let ?s = "start_sys rate_and_sweep"
  obtain s where s: "run_schedule \<lparr>writers_first = w, grants_again = True\<rparr> [0, 1, 1, 1, 1, 1, 1] ?s = Some s"
    and "progs s 0 = [Access Out_table True, Unlock Out_mutex]"
    and "progs s 1 = [Access Out_table True, UnlockS In_mutex, UnlockS In_mutex]"
    by (simp add: start_sys_def rate_and_sweep_def set_out_def sweep_job_def free_mutex_def
        upd_mutex_def sm_defs behind_writer_def split: if_splits)
  then have "race Out_table s"
    unfolding race_def by (metis zero_neq_one)
  with run_schedule_reachable [OF lock_reachable.start s] show ?thesis by blast
qed

text \<open>
  C26. Progress of the locking, for every kind of mutex and every interleaving: while some thread is
  unfinished, some thread can go on, or a sweep is about to take the shared lock of \<open>in_mutex\<close> that it
  owns, where the behaviour of \<open>std::shared_mutex\<close> is undefined. Without sweeps over jobs the handlers
  always go on. An implementation that grants the second lock and lets readers pass waiting writers
  always goes on; under one that does not grant it, no thread that has to sweep a job ever finishes.
\<close>

theorem handlers_progress:
  assumes "lock_reachable K calls s" "progs s t \<noteq> []"
  shows "((\<exists>s'. lock_step K s s') \<or> undefined_lock s)
    \<and> ((\<forall>u n. Sweep (Suc n) \<notin> set (calls u)) \<longrightarrow> (\<exists>s'. lock_step K s s'))
    \<and> (grants_again K \<and> \<not> writers_first K \<longrightarrow> (\<exists>s'. lock_step K s s'))
    \<and> (\<forall>u n. \<not> grants_again K \<and> Sweep (Suc n) \<in> set (calls u) \<longrightarrow> progs s u \<noteq> [])"
proof -
  obtain h where h: "lock_inv h s" "\<forall>u. relocks (h u) (progs s u) \<longrightarrow> (\<exists>n. Sweep (Suc n) \<in> set (calls u))"
    "\<forall>u n. \<not> grants_again K \<and> Sweep (Suc n) \<in> set (calls u) \<longrightarrow> relocks (h u) (progs s u)"
    using lock_reachable_relocks [OF assms(1)] by blast
  have "\<exists>u n. Sweep (Suc n) \<in> set (calls u)" if "undefined_lock s"
    using h(2) undefined_relocks [OF h(1) that] by blast
  moreover have "progs s u \<noteq> []" if "relocks (h u) (progs s u)" for u
    using that by auto
  ultimately show ?thesis
    using progress_or_undefined [OF h(1) assms(2)] progress_granted [OF h(1) assms(2)] h(3) by blast
qed

theorem handlers_progress_witness:
  "(\<exists>s'. lock_step \<lparr>writers_first = False, grants_again = True\<rparr> (start_sys rate_and_sweep) s')
   \<and> progs (start_sys rate_and_sweep) 1 \<noteq> []"
  using handlers_progress [OF lock_reachable.start, of rate_and_sweep 1 "\<lparr>writers_first = False, grants_again = True\<rparr>"]
    handlers_progress [OF lock_reachable.start, of rate_and_sweep 1 "\<lparr>writers_first = False, grants_again = False\<rparr>"]
  by (simp add: start_sys_def rate_and_sweep_def)

definition rates_and_sweep :: "nat \<Rightarrow> regulator_call list" where
  "rates_and_sweep t =
     (if t = 0 then [Call (OutRate 1 5), Call (InRate 1 5)] else if t = 1 then [Sweep 1] else [])"

text \<open>
  The second lock of \<open>in_mutex\<close> can block for ever even where it is granted: when readers wait behind writers, a state is
  reachable where the sweep waits for its own second shared lock, behind a handler that waits
  for the sweep to release the first.
\<close>

theorem sweep_relock_deadlock:
  "\<exists>s. lock_reachable \<lparr>writers_first = True, grants_again = True\<rparr> rates_and_sweep s \<and> progs s 0 \<noteq> [] \<and> progs s 1 \<noteq> []
     \<and> (\<nexists>s'. lock_step \<lparr>writers_first = True, grants_again = True\<rparr> s s')"
proof -
  let ?s = "start_sys rates_and_sweep"
  obtain s where s: "run_schedule \<lparr>writers_first = True, grants_again = True\<rparr> [1, 1, 1, 1, 0, 0, 0] ?s = Some s"
    and 0: "progs s 0 = set_in" and 1: "progs s 1 = tl sweep_job"
    and 2: "\<And>t. t \<noteq> 0 \<Longrightarrow> t \<noteq> 1 \<Longrightarrow> progs s t = []"
    and m: "shared (mutexes s In_mutex) = [1]"
    by (simp add: start_sys_def rates_and_sweep_def set_in_def set_out_def sweep_job_def
        free_mutex_def upd_mutex_def sm_defs behind_writer_def split: if_splits)
  have "\<nexists>s'. lock_step \<lparr>writers_first = True, grants_again = True\<rparr> s s'"
  proof
    assume "\<exists>s'. lock_step \<lparr>writers_first = True, grants_again = True\<rparr> s s'"
    then obtain t a p ms where t: "progs s t = a # p" "\<not> behind_writer t a s"
      "perform True t a (mutexes s) = Some ms"
      by (auto elim: lock_stepE)
    have "t = 0 \<or> t = 1" using t(1) 2 by (cases "t = 0 \<or> t = 1") auto
    then show False
    proof
      assume "t = 0"
      with t 0 m show False by (auto simp: set_in_def upd_mutex_def sm_defs)
    next
      assume "t = 1"
      with t(1,2) 0 1 show False
        by (auto simp: set_in_def sweep_job_def behind_writer_def)
    qed
  qed
  with run_schedule_reachable [OF lock_reachable.start s] 0 1 show ?thesis
    by (auto simp: set_in_def sweep_job_def)
qed

end
