(* ===== verification/Rpc.thy ===== *)
theory Rpc
  imports Prelude
begin

text \<open>
  Remote calls as the sources use them (\<open>rpc_factory.h\<close> of basket, not in this repository): a
  server binds functions to names, a client calls a name on a server index with arguments.
  The transport is a parameter; what the sources rely on is \<open>delivers\<close>.
\<close>

section \<open>Bindings\<close>

type_synonym ('a, 's, 'r) remote_fun = "'a list \<Rightarrow> 's \<Rightarrow> ('r \<times> 's) result"
type_synonym ('a, 's, 'r) rpc_table = "(string, ('a, 's, 'r) remote_fun) table"
type_synonym ('a, 's, 'r) transport =
  "('a, 's, 'r) rpc_table \<Rightarrow> nat \<Rightarrow> string \<Rightarrow> 'a list \<Rightarrow> 's \<Rightarrow> ('r \<times> 's) result"

text \<open>A bound function checks the number of its arguments.\<close>

definition arity1 :: "('a \<Rightarrow> 's \<Rightarrow> 'r \<times> 's) \<Rightarrow> ('a, 's, 'r) remote_fun" where
  "arity1 f args s = (case args of [a] \<Rightarrow> Inr (f a s) | _ \<Rightarrow> Inl Rpc_error)"

definition arity2 :: "('a \<Rightarrow> 'a \<Rightarrow> 's \<Rightarrow> 'r \<times> 's) \<Rightarrow> ('a, 's, 'r) remote_fun" where
  "arity2 f args s = (case args of [a, b] \<Rightarrow> Inr (f a b s) | _ \<Rightarrow> Inl Rpc_error)"

text \<open>The transport runs the function bound to the name, and fails when there is none.\<close>

definition delivers :: "('a, 's, 'r) transport \<Rightarrow> bool" where
  "delivers tr = (\<forall>tbl srv nm args s.
     tr tbl srv nm args s = (case um_get tbl nm of None \<Rightarrow> Inl Rpc_error | Some f \<Rightarrow> f args s))"

text \<open>A transport that loses nothing: the instance used in the examples.\<close>

definition direct_call :: "('a, 's, 'r) transport" where
  "direct_call tbl srv nm args s = (case um_get tbl nm of None \<Rightarrow> Inl Rpc_error | Some f \<Rightarrow> f args s)"

lemma delivers_direct_call: "delivers direct_call"
  by (simp add: delivers_def direct_call_def)

lemma delivers_bound: "delivers tr \<Longrightarrow> um_get tbl nm = Some f \<Longrightarrow> tr tbl srv nm args s = f args s"
  by (simp add: delivers_def)

lemma delivers_unbound: "delivers tr \<Longrightarrow> um_get tbl nm = None \<Longrightarrow> tr tbl srv nm args s = Inl Rpc_error"
  by (simp add: delivers_def)

lemma arity_simps [simp]:
  "arity1 f [a] s = Inr (f a s)" "arity2 g [a, b] s = Inr (g a b s)"
  by (simp_all add: arity1_def arity2_def)

end
