(* ===== verification/Regulator_Rpc.thy ===== *)
theory Regulator_Rpc
  imports Regulator Rpc
begin

text \<open>
  The RPC layer of the byte-flow regulator: the names the constructor of \<open>Server\<close> binds
  (\<open>server.h\<close>) and the calls of \<open>Client\<close> (\<open>client.h\<close>, \<open>client.cpp\<close>).
\<close>

section \<open>The server's bindings\<close>

definition server_bindings :: "(u32, regulator, bool) rpc_table" where
  "server_bindings =
     um_set ''FinalizeJob'' (arity1 FinalizeJob)
     (um_set ''RegisterJob'' (arity1 RegisterJob)
     (um_set ''SetOutRate'' (arity2 SetOutRate)
     (um_set ''SetInRate'' (arity2 SetInRate) [])))"

section \<open>The client\<close>

type_synonym regulator_transport = "(u32, regulator, bool) transport"

definition client_Finalize :: "regulator_transport \<Rightarrow> job_id \<Rightarrow> regulator \<Rightarrow> (bool \<times> regulator) result" where
  "client_Finalize tr job_id s = tr server_bindings 0 ''FinalizeJob'' [job_id] s"

definition client_RegisterJob :: "regulator_transport \<Rightarrow> job_id \<Rightarrow> regulator \<Rightarrow> (bool \<times> regulator) result" where
  "client_RegisterJob tr job_id s = tr server_bindings 0 ''RegisterJob'' [job_id] s"

definition client_SetInRate ::
  "regulator_transport \<Rightarrow> job_id \<Rightarrow> u32 \<Rightarrow> regulator \<Rightarrow> (bool \<times> regulator) result" where
  "client_SetInRate tr job_id in_rate s = tr server_bindings 0 ''SetInRate'' [job_id, in_rate] s"

definition client_SetOutRate ::
  "regulator_transport \<Rightarrow> job_id \<Rightarrow> u32 \<Rightarrow> regulator \<Rightarrow> (bool \<times> regulator) result" where
  "client_SetOutRate tr job_id out_rate s = tr server_bindings 0 ''SetOutRate'' [job_id, out_rate] s"

lemma server_bindings_get:
  "um_get server_bindings ''FinalizeJob'' = Some (arity1 FinalizeJob)"
  "um_get server_bindings ''RegisterJob'' = Some (arity1 RegisterJob)"
  "um_get server_bindings ''SetInRate'' = Some (arity2 SetInRate)"
  "um_get server_bindings ''SetOutRate'' = Some (arity2 SetOutRate)"
  by (simp_all add: server_bindings_def)

text \<open>Requests as the client makes them.\<close>

fun client_request :: "regulator_transport \<Rightarrow> reg_request \<Rightarrow> regulator \<Rightarrow> (bool \<times> regulator) result" where
  "client_request tr (Register j) s = client_RegisterJob tr j s"
| "client_request tr (Finalize j) s = client_Finalize tr j s"
| "client_request tr (InRate j r) s = client_SetInRate tr j r s"
| "client_request tr (OutRate j r) s = client_SetOutRate tr j r s"

lemma client_request_handle: "delivers tr \<Longrightarrow> client_request tr r s = Inr (handle r s)"
  by (cases r)
     (simp_all add: client_Finalize_def client_RegisterJob_def client_SetInRate_def
       client_SetOutRate_def server_bindings_get delivers_bound)

text \<open>A client that makes several requests in a row.\<close>

fun client_session :: "regulator_transport \<Rightarrow> reg_request list \<Rightarrow> regulator \<Rightarrow> (bool list \<times> regulator) result" where
  "client_session tr [] s = Inr ([], s)"
| "client_session tr (r # rs) s = rbind (client_request tr r s) (\<lambda>(b, s').
     rbind (client_session tr rs s') (\<lambda>(bs, s''). Inr (b # bs, s'')))"

lemma handle_true: "fst (handle r s) = True"
  by (cases r) (simp_all add: model_defs)

section \<open>Properties\<close>

text \<open>
  C24. Every method of the client reaches its handler: a session of client calls never fails,
  every call answers true, and the state of the server is that of its handlers run in order.
\<close>

theorem client_reaches_server:
  assumes "delivers tr"
  shows "client_session tr rs s = Inr (map (\<lambda>_. True) rs, serve rs s)"
proof (induction rs arbitrary: s)
  case (Cons r rs)
  obtain s' where "handle r s = (True, s')"
    using handle_true by (metis prod.collapse)
  then show ?case
    using Cons.IH [of s'] by (simp add: client_request_handle [OF assms])
qed simp

theorem client_reaches_server_witness:
  "client_session direct_call [Register 7, InRate 7 250, OutRate 7 40] init_regulator
     = Inr ([True, True, True], serve [Register 7, InRate 7 250, OutRate 7 40] init_regulator)"
  using client_reaches_server [OF delivers_direct_call,
    of "[Register 7, InRate 7 250, OutRate 7 40]" init_regulator]
  by (simp only: list.map)

end
