(* ===== verification/Data_Model.thy ===== *)
theory Data_Model
  imports Prelude
begin

text \<open>
  The shared data structures: \<open>include/rhea/common/data_structures.h\<close> and
  \<open>src/rhea/common/data_structures.cpp\<close>. \<open>Parcel\<close> inherits its fields from \<open>Event\<close> of the
  sentinel submodule; the record has the ones the sources of this repository use, and
  \<open>buffer\<close> holds the bytes the pointer \<open>buffer_\<close> points to. \<open>CharStruct\<close> of basket, a character
  array of fixed capacity, is a string; what its conversions do is a parameter.
\<close>

section \<open>Parcels\<close>

record parcel =
  pid :: string
  unique_id :: u64
  position :: u64
  data_size :: u64
  storage_index :: u16
  buffer :: string

definition parcel_eq :: "parcel \<Rightarrow> parcel \<Rightarrow> bool" where
  "parcel_eq p q = (pid p = pid q \<and> unique_id p = unique_id q)"

text \<open>
  \<open>std::hash<Parcel>\<close>: the exclusive or of two \<open>size_t\<close> hashes of the standard library, returned
  as an \<open>int\<close>.
\<close>

definition parcel_hash :: "(string \<Rightarrow> u64) \<Rightarrow> (u64 \<Rightarrow> u64) \<Rightarrow> parcel \<Rightarrow> int" where
  "parcel_hash hash_cs hash_size k =
     (let hash_val = hash_cs (pid k);
          hash_val = xor hash_val (hash_size (unique_id k))
      in int_of_u64 hash_val)"

text \<open>What a hash table or a message keeps of a parcel.\<close>

type_synonym parcel_key = "string \<times> u64"

definition key_of :: "parcel \<Rightarrow> parcel_key" where
  "key_of p = (pid p, unique_id p)"

type_synonym wire = "string \<times> u64 \<times> u64 \<times> u16 \<times> u64"

definition wire_of :: "parcel \<Rightarrow> wire" where
  "wire_of p = (pid p, position p, data_size p, storage_index p, unique_id p)"

text \<open>\<open>operator<<\<close>\<close>

definition show_parcel :: "parcel \<Rightarrow> string" where
  "show_parcel p =
     ''{id_:'' @ pid p @ '',''
     @ ''unique_id:'' @ to_string (unat (unique_id p)) @ '',''
     @ ''data_size_:'' @ to_string (unat (data_size p)) @ '',''
     @ ''position_:'' @ to_string (unat (position p)) @ '',''
     @ ''storage_index_:'' @ to_string (unat (storage_index p)) @ ''}''"

lemma parcel_eq_key: "parcel_eq p q \<longleftrightarrow> key_of p = key_of q"
  by (simp add: parcel_eq_def key_of_def)

lemma wire_key: "wire_of p = wire_of q \<Longrightarrow> key_of p = key_of q"
  by (simp add: wire_of_def key_of_def)

text \<open>An equivalence that is a function of the key, so hash tables may use it.\<close>

lemma parcel_eq_refl [simp]: "parcel_eq p p"
  and parcel_eq_sym: "parcel_eq p q \<Longrightarrow> parcel_eq q p"
  and parcel_eq_trans: "parcel_eq p q \<Longrightarrow> parcel_eq q r \<Longrightarrow> parcel_eq p r"
  by (simp_all add: parcel_eq_key)

section \<open>States of parcels\<close>

datatype task_status = NONE | QUEUED | IN_PROGRESS | DONE

record parcel_state =
  status :: task_status
  timestamp :: int

definition default_state :: parcel_state where
  "default_state = \<lparr>status = NONE, timestamp = 0\<rparr>"

text \<open>The explicit constructor stamps the state with \<open>std::time(NULL)\<close>, here \<open>now\<close>.\<close>

definition ParcelState :: "int \<Rightarrow> task_status \<Rightarrow> parcel_state" where
  "ParcelState now s = \<lparr>status = s, timestamp = now\<rparr>"

lemma ParcelState_simps [simp]: "status (ParcelState now s) = s" "timestamp (ParcelState now s) = now"
  by (simp_all add: ParcelState_def)

section \<open>Properties\<close>

text \<open>
  The equality and the hash of parcels fit together as \<open>std::unordered_map\<close> needs: equal
  parcels hash to the same value, whatever the standard library's hashes are, and the hash is
  a value of \<open>int\<close>; the position, the size, the storage index and the buffer do not take part.
\<close>

theorem parcel_hash_respects_eq:
  assumes "parcel_eq p q"
  shows "parcel_hash hash_cs hash_size p = parcel_hash hash_cs hash_size q
    \<and> parcel_eq p (q\<lparr>position := i, data_size := n, storage_index := k, buffer := b\<rparr>)
    \<and> - (2 ^ 31) \<le> parcel_hash hash_cs hash_size p \<and> parcel_hash hash_cs hash_size p < 2 ^ 31"
  using assms int_of_u64_bounds
  by (simp add: parcel_eq_def parcel_hash_def Let_def)

definition sample_parcel :: parcel where
  "sample_parcel = \<lparr>pid = ''7'', unique_id = 3, position = 16, data_size = 4, storage_index = 1, buffer = ''''\<rparr>"

theorem parcel_hash_respects_eq_witness:
  "parcel_hash (\<lambda>s. of_nat (length s)) (\<lambda>n. n) sample_parcel
     = parcel_hash (\<lambda>s. of_nat (length s)) (\<lambda>n. n) (sample_parcel\<lparr>position := 64\<rparr>)"
  using parcel_hash_respects_eq [of sample_parcel "sample_parcel\<lparr>position := 64\<rparr>"]
  by (simp add: parcel_eq_def)

lemma show_field_inject:
  assumes "s @ CHR '':'' # to_string m = t @ CHR '':'' # to_string n"
  shows "s = t" "m = n"
  using append_to_string_inject [OF _ assms] by (auto simp: is_digit_def)

text \<open>
  What the tracer prints of a parcel determines every field that goes over the wire,
  whatever characters the id has.
\<close>

theorem show_parcel_determines: "show_parcel p = show_parcel q \<longleftrightarrow> wire_of p = wire_of q"
proof
  assume "show_parcel p = show_parcel q"
  then have "(((''{id_:'' @ pid p @ '',unique_id:'' @ to_string (unat (unique_id p)) @ '',data_size_:''
        @ to_string (unat (data_size p)) @ '',position_:'' @ to_string (unat (position p)))
        @ '',storage_index_'') @ CHR '':'' # to_string (unat (storage_index p)))
      = (((''{id_:'' @ pid q @ '',unique_id:'' @ to_string (unat (unique_id q)) @ '',data_size_:''
        @ to_string (unat (data_size q)) @ '',position_:'' @ to_string (unat (position q)))
        @ '',storage_index_'') @ CHR '':'' # to_string (unat (storage_index q)))"
    by (simp add: show_parcel_def)
  note 1 = show_field_inject [OF this]
  from 1(1) have "(((''{id_:'' @ pid p @ '',unique_id:'' @ to_string (unat (unique_id p)) @ '',data_size_:''
        @ to_string (unat (data_size p))) @ '',position_'') @ CHR '':'' # to_string (unat (position p)))
      = (((''{id_:'' @ pid q @ '',unique_id:'' @ to_string (unat (unique_id q)) @ '',data_size_:''
        @ to_string (unat (data_size q))) @ '',position_'') @ CHR '':'' # to_string (unat (position q)))"
    by simp
  note 2 = show_field_inject [OF this]
  from 2(1) have "(((''{id_:'' @ pid p @ '',unique_id:'' @ to_string (unat (unique_id p)))
        @ '',data_size_'') @ CHR '':'' # to_string (unat (data_size p)))
      = (((''{id_:'' @ pid q @ '',unique_id:'' @ to_string (unat (unique_id q)))
        @ '',data_size_'') @ CHR '':'' # to_string (unat (data_size q)))"
    by simp
  note 3 = show_field_inject [OF this]
  from 3(1) have "((''{id_:'' @ pid p @ '',unique_id'') @ CHR '':'' # to_string (unat (unique_id p)))
      = ((''{id_:'' @ pid q @ '',unique_id'') @ CHR '':'' # to_string (unat (unique_id q)))"
    by simp
  note 4 = show_field_inject [OF this]
  from 1(2) 2(2) 3(2) 4 show "wire_of p = wire_of q"
    by (simp add: wire_of_def word_unat_eq_iff)
qed (simp add: wire_of_def show_parcel_def)

end
