(* ===== verification/Basket.thy ===== *)
theory Basket
  imports Data_Model
begin

text \<open>
  The distributed containers of the basket submodule as the client library uses them
  (\<open>basket::unordered_map\<close> and \<open>basket::queue\<close> in \<open>include/rhea/rhea.h\<close>): records of operations
  that are parameters of the model, with the behaviour the sources rely on stated as laws.
  The field \<open>contents\<close> (\<open>waiting\<close>) is what the container holds; no definition of the model
  computes with it. Containers live on other machines, so a parcel that comes out of a queue has only
  the fields that were packed.
\<close>

section \<open>Maps\<close>

record ('m, 'v) map_ops =
  m_put :: "parcel \<Rightarrow> 'v \<Rightarrow> 'm \<Rightarrow> bool \<times> 'm"
  m_get :: "parcel \<Rightarrow> 'm \<Rightarrow> bool \<times> 'v"
  m_erase :: "parcel \<Rightarrow> 'm \<Rightarrow> (bool \<times> 'v) \<times> 'm"
  contents :: "'m \<Rightarrow> parcel_key \<Rightarrow> 'v option"

text \<open>\<open>Put\<close> says whether it stored; \<open>Get\<close> and \<open>Erase\<close> say whether the key was there.\<close>

definition map_laws :: "('m, 'v) map_ops \<Rightarrow> bool" where
  "map_laws M =
     ((\<forall>p v m. contents M (snd (m_put M p v m)) =
         (if fst (m_put M p v m) then (contents M m)(key_of p \<mapsto> v) else contents M m))
      \<and> (\<forall>p m v. contents M m (key_of p) = Some v \<longrightarrow> m_get M p m = (True, v))
      \<and> (\<forall>p m. contents M m (key_of p) = None \<longrightarrow> \<not> fst (m_get M p m))
      \<and> (\<forall>p m. contents M (snd (m_erase M p m)) = (contents M m)(key_of p := None))
      \<and> (\<forall>p m. fst (fst (m_erase M p m)) \<longleftrightarrow> contents M m (key_of p) \<noteq> None))"

text \<open>A map that never refuses to store.\<close>

definition map_total :: "('m, 'v) map_ops \<Rightarrow> bool" where
  "map_total M = (map_laws M \<and> (\<forall>p v m. fst (m_put M p v m)))"

lemma map_put_contents:
  "map_laws M \<Longrightarrow> contents M (snd (m_put M p v m)) =
     (if fst (m_put M p v m) then (contents M m)(key_of p \<mapsto> v) else contents M m)"
  by (simp add: map_laws_def)

lemma map_total_put: "map_total M \<Longrightarrow> fst (m_put M p v m)"
  "map_total M \<Longrightarrow> contents M (snd (m_put M p v m)) = (contents M m)(key_of p \<mapsto> v)"
  by (simp_all add: map_total_def map_laws_def)

lemma map_get_found: "map_laws M \<Longrightarrow> contents M m (key_of p) = Some v \<Longrightarrow> m_get M p m = (True, v)"
  by (simp add: map_laws_def)

lemma map_get_missing: "map_laws M \<Longrightarrow> contents M m (key_of p) = None \<Longrightarrow> \<not> fst (m_get M p m)"
  by (simp add: map_laws_def)

lemma map_get_found_iff:
  "map_laws M \<Longrightarrow> fst (m_get M p m) \<longleftrightarrow> contents M m (key_of p) \<noteq> None"
  by (metis fst_conv map_get_found map_get_missing option.exhaust)

lemma map_erase_contents:
  "map_laws M \<Longrightarrow> contents M (snd (m_erase M p m)) = (contents M m)(key_of p := None)"
  by (simp add: map_laws_def)

lemma map_erase_found: "map_laws M \<Longrightarrow> fst (fst (m_erase M p m)) \<longleftrightarrow> contents M m (key_of p) \<noteq> None"
  by (simp add: map_laws_def)

lemma map_total_laws: "map_total M \<Longrightarrow> map_laws M"
  by (simp add: map_total_def)

section \<open>Queues\<close>

record 'q queue_ops =
  q_push :: "parcel \<Rightarrow> u16 \<Rightarrow> 'q \<Rightarrow> bool \<times> 'q"
  q_pop :: "u16 \<Rightarrow> 'q \<Rightarrow> (bool \<times> parcel) \<times> 'q"
  q_size :: "u16 \<Rightarrow> 'q \<Rightarrow> nat"
  waiting :: "'q \<Rightarrow> u16 \<Rightarrow> wire list"

text \<open>One first-in-first-out queue per server.\<close>

definition queue_laws :: "'q queue_ops \<Rightarrow> bool" where
  "queue_laws Q =
     ((\<forall>p srv q. waiting Q (snd (q_push Q p srv q)) =
         (if fst (q_push Q p srv q) then (waiting Q q)(srv := waiting Q q srv @ [wire_of p])
          else waiting Q q))
      \<and> (\<forall>srv q. waiting Q q srv = [] \<longrightarrow>
           \<not> fst (fst (q_pop Q srv q)) \<and> waiting Q (snd (q_pop Q srv q)) = waiting Q q)
      \<and> (\<forall>srv q w ws. waiting Q q srv = w # ws \<longrightarrow>
           fst (fst (q_pop Q srv q)) \<and> wire_of (snd (fst (q_pop Q srv q))) = w
           \<and> waiting Q (snd (q_pop Q srv q)) = (waiting Q q)(srv := ws))
      \<and> (\<forall>srv q. q_size Q srv q = length (waiting Q q srv)))"

lemma queue_push_waiting:
  "queue_laws Q \<Longrightarrow> waiting Q (snd (q_push Q p srv q)) =
     (if fst (q_push Q p srv q) then (waiting Q q)(srv := waiting Q q srv @ [wire_of p]) else waiting Q q)"
  by (simp add: queue_laws_def)

lemma queue_pop_empty:
  assumes "queue_laws Q" "waiting Q q srv = []"
  obtains p q' where "q_pop Q srv q = ((False, p), q')" "waiting Q q' = waiting Q q"
  using assms by (cases "q_pop Q srv q") (auto simp: queue_laws_def, metis fst_conv prod.collapse snd_conv)

lemma queue_pop_first:
  assumes "queue_laws Q" "waiting Q q srv = w # ws"
  obtains p q' where "q_pop Q srv q = ((True, p), q')" "wire_of p = w"
    "waiting Q q' = (waiting Q q)(srv := ws)"
proof -
  obtain b p q' where pop: "q_pop Q srv q = ((b, p), q')"
    by (metis prod.exhaust)
  have "fst (fst (q_pop Q srv q)) \<and> wire_of (snd (fst (q_pop Q srv q))) = w
      \<and> waiting Q (snd (q_pop Q srv q)) = (waiting Q q)(srv := ws)"
    using assms unfolding queue_laws_def by metis
  then show thesis using that pop by simp
qed

lemma queue_size_waiting: "queue_laws Q \<Longrightarrow> q_size Q srv q = length (waiting Q q srv)"
  by (simp add: queue_laws_def)

section \<open>An instance\<close>

text \<open>
  Containers in one process, used to show that the laws can hold: a map is a function of the
  key, a queue a list of parcels per server, each stripped to the fields of the wire.
\<close>

definition fun_map :: "'v \<Rightarrow> (parcel_key \<Rightarrow> 'v option, 'v) map_ops" where
  "fun_map d =
     \<lparr>m_put = (\<lambda>p v m. (True, m(key_of p \<mapsto> v))),
      m_get = (\<lambda>p m. case m (key_of p) of Some v \<Rightarrow> (True, v) | None \<Rightarrow> (False, d)),
      m_erase = (\<lambda>p m. ((m (key_of p) \<noteq> None, d), m(key_of p := None))),
      contents = (\<lambda>m. m)\<rparr>"

definition strip_parcel :: "parcel \<Rightarrow> parcel" where
  "strip_parcel p = p\<lparr>buffer := ''''\<rparr>"

definition list_queue :: "parcel \<Rightarrow> (u16 \<Rightarrow> parcel list) queue_ops" where
  "list_queue d =
     \<lparr>q_push = (\<lambda>p srv q. (True, q(srv := q srv @ [strip_parcel p]))),
      q_pop = (\<lambda>srv q. case q srv of [] \<Rightarrow> ((False, d), q) | p # ps \<Rightarrow> ((True, p), q(srv := ps))),
      q_size = (\<lambda>srv q. length (q srv)),
      waiting = (\<lambda>q srv. map wire_of (q srv))\<rparr>"

lemma fun_map_total: "map_total (fun_map d)"
  by (auto simp: map_total_def map_laws_def fun_map_def split: option.splits)

lemma wire_of_strip [simp]: "wire_of (strip_parcel p) = wire_of p"
  by (simp add: wire_of_def strip_parcel_def)

lemma list_queue_laws: "queue_laws (list_queue d)"
  by (auto simp: queue_laws_def list_queue_def fun_eq_iff split: list.splits)

end
