(* ===== verification/Warehouse.thy ===== *)
theory Warehouse
  imports Complex_Main Basket
begin

text \<open>
  The client library \<open>rhea::Client\<close> (\<open>include/rhea/rhea.h\<close>, \<open>src/rhea/lib/rhea.cpp\<close>): the warehouse
  of parcel data, the parcels' states and the two queues of parcels, shared by the
  application and the tasks of the jobs. The containers are those of theory \<open>Basket\<close>;
  \<open>cs_of\<close> is the conversion of a \<open>std::string\<close> to \<open>CharStruct\<close>.
\<close>

section \<open>State\<close>

record ('w, 't, 'q) store =
  warehouse :: 'w
  parsel_state :: 't
  write_queue :: 'q
  read_queue :: 'q

record ('w, 't, 'q) basket =
  wh :: "('w, string) map_ops"
  st :: "('t, parcel_state) map_ops"
  qu :: "'q queue_ops"
  my_server :: u16
  cs_of :: "string \<Rightarrow> string"

definition basket_laws :: "('w, 't, 'q) basket \<Rightarrow> bool" where
  "basket_laws B = (map_total (wh B) \<and> map_total (st B) \<and> queue_laws (qu B))"

definition data_of :: "('w, 't, 'q) basket \<Rightarrow> ('w, 't, 'q) store \<Rightarrow> parcel_key \<Rightarrow> string option" where
  "data_of B s = contents (wh B) (warehouse s)"

definition state_of :: "('w, 't, 'q) basket \<Rightarrow> ('w, 't, 'q) store \<Rightarrow> parcel_key \<Rightarrow> parcel_state option" where
  "state_of B s = contents (st B) (parsel_state s)"

definition to_write :: "('w, 't, 'q) basket \<Rightarrow> ('w, 't, 'q) store \<Rightarrow> u16 \<Rightarrow> wire list" where
  "to_write B s = waiting (qu B) (write_queue s)"

definition to_read :: "('w, 't, 'q) basket \<Rightarrow> ('w, 't, 'q) store \<Rightarrow> u16 \<Rightarrow> wire list" where
  "to_read B s = waiting (qu B) (read_queue s)"

lemmas view_defs = data_of_def state_of_def to_write_def to_read_def

lemma basket_lawsD:
  "basket_laws B \<Longrightarrow> map_total (wh B)" "basket_laws B \<Longrightarrow> map_total (st B)"
  "basket_laws B \<Longrightarrow> map_laws (wh B)" "basket_laws B \<Longrightarrow> map_laws (st B)"
  "basket_laws B \<Longrightarrow> queue_laws (qu B)"
  by (simp_all add: basket_laws_def map_total_laws)

section \<open>Life of a client\<close>

text \<open>The calls a client object makes outside the containers, in order.\<close>

datatype client_action =
    SubmitJob u32 u16 nat
  | TerminateJob u32
  | Barrier
  | Sleep nat

definition Client_new :: "u32 \<Rightarrow> bool \<Rightarrow> int \<Rightarrow> u16 \<Rightarrow> nat \<Rightarrow> client_action list" where
  "Client_new jid is_application rank service_count collectors =
     (if is_application then (if rank = 0 then [SubmitJob jid service_count collectors] else []) else [])
     @ [Barrier]"

definition FinalizeClient :: "u32 \<Rightarrow> int \<Rightarrow> client_action list" where
  "FinalizeClient job_id mpi_rank =
     [Barrier] @ (if mpi_rank = 0 then [TerminateJob job_id] else []) @ [Sleep 1, Barrier]"

section \<open>Publishing\<close>

text \<open>The three stores of \<open>Publish\<close>, each made only if the ones before it succeeded.\<close>

definition Publish ::
  "('w, 't, 'q) basket \<Rightarrow> int \<Rightarrow> parcel \<Rightarrow> string \<Rightarrow> ('w, 't, 'q) store \<Rightarrow> (bool \<times> ('w, 't, 'q) store) result" where
  "Publish B now parcel data s =
     rbind (string_of_buffer data (unat (data_size parcel))) (\<lambda>data_str.
       let (ok, w) = m_put (wh B) parcel data_str (warehouse s);
           s1 = s\<lparr>warehouse := w\<rparr>
       in if \<not> ok then Inr (False, s1) else
       let (ok, q) = q_push (qu B) parcel (my_server B) (write_queue s1);
           s2 = s1\<lparr>write_queue := q\<rparr>
       in if \<not> ok then Inr (False, s2) else
       let parsel_state_val = ParcelState now QUEUED;
           (ok, t) = m_put (st B) parcel parsel_state_val (parsel_state s2)
       in Inr (ok, s2\<lparr>parsel_state := t\<rparr>))"

definition PutData ::
  "('w, 't, 'q) basket \<Rightarrow> parcel \<Rightarrow> string \<Rightarrow> ('w, 't, 'q) store \<Rightarrow> bool \<times> ('w, 't, 'q) store" where
  "PutData B parcel data s =
     (let (ok, w) = m_put (wh B) parcel data (warehouse s) in (ok, s\<lparr>warehouse := w\<rparr>))"

definition GetData :: "('w, 't, 'q) basket \<Rightarrow> parcel \<Rightarrow> ('w, 't, 'q) store \<Rightarrow> string" where
  "GetData B parcel s = (let result = m_get (wh B) parcel (warehouse s) in snd result)"

definition DeleteData ::
  "('w, 't, 'q) basket \<Rightarrow> parcel \<Rightarrow> ('w, 't, 'q) store \<Rightarrow> bool \<times> ('w, 't, 'q) store" where
  "DeleteData B parcel s =
     (let (result, w) = m_erase (wh B) parcel (warehouse s) in (fst result, s\<lparr>warehouse := w\<rparr>))"

definition UpdateParcelStatus ::
  "('w, 't, 'q) basket \<Rightarrow> int \<Rightarrow> parcel \<Rightarrow> task_status \<Rightarrow> ('w, 't, 'q) store \<Rightarrow> int \<times> ('w, 't, 'q) store" where
  "UpdateParcelStatus B now parcel new_status s =
     (let parsel_state_val = ParcelState now new_status;
          t = snd (m_put (st B) parcel parsel_state_val (parsel_state s))
      in (timestamp parsel_state_val, s\<lparr>parsel_state := t\<rparr>))"

section \<open>Taking parcels from the queues\<close>

text \<open>
  \<open>amount\<close> is a tenth of the size of the queue; no iteration changes it, so the loop ends
  when \<open>Pop\<close> fails. It may not end at all when \<open>Pop\<close> never fails.
\<close>

definition amount_of :: "nat \<Rightarrow> rat" where
  "amount_of n = (if of_nat n * (1 / 10) = (0 :: rat) then of_nat n else of_nat n * (1 / 10))"

partial_function (option) pop_loop ::
  "'q queue_ops \<Rightarrow> u16 \<Rightarrow> rat \<Rightarrow> 'q \<Rightarrow> parcel list \<Rightarrow> (parcel list \<times> 'q) option" where
  "pop_loop Q server_id amount q parcels =
     (if amount > 0 then
        (let (value, q') = q_pop Q server_id q
         in if fst value then pop_loop Q server_id amount q' (parcels @ [snd value]) else Some (parcels, q'))
      else Some (parcels, q))"

definition GetWriteParsel ::
  "('w, 't, 'q) basket \<Rightarrow> u16 \<Rightarrow> ('w, 't, 'q) store \<Rightarrow> (parcel list \<times> ('w, 't, 'q) store) option" where
  "GetWriteParsel B server_id s =
     (let amount = amount_of (q_size (qu B) server_id (write_queue s))
      in map_option (\<lambda>(parcels, q). (parcels, s\<lparr>write_queue := q\<rparr>))
           (pop_loop (qu B) server_id amount (write_queue s) []))"

definition GetReadParsel ::
  "('w, 't, 'q) basket \<Rightarrow> u16 \<Rightarrow> ('w, 't, 'q) store \<Rightarrow> (parcel list \<times> ('w, 't, 'q) store) option" where
  "GetReadParsel B server_id s =
     (let amount = amount_of (q_size (qu B) server_id (read_queue s))
      in map_option (\<lambda>(parcels, q). (parcels, s\<lparr>read_queue := q\<rparr>))
           (pop_loop (qu B) server_id amount (read_queue s) []))"

section \<open>Waiting\<close>

text \<open>
  \<open>Wait\<close> polls the state of the parcel; \<open>env n\<close> is what all other processes do to the shared
  containers during the sleep after poll \<open>n\<close>. The result has the number of polls made before.
\<close>

type_synonym ('w, 't, 'q) environment = "nat \<Rightarrow> ('w, 't, 'q) store \<Rightarrow> ('w, 't, 'q) store"

partial_function (option) Wait_from ::
  "('w, 't, 'q) basket \<Rightarrow> ('w, 't, 'q) environment \<Rightarrow> nat \<Rightarrow> parcel \<Rightarrow> ('w, 't, 'q) store \<Rightarrow>
   (parcel_state \<times> nat \<times> ('w, 't, 'q) store) option" where
  "Wait_from B env n parcel s =
     (let result = m_get (st B) parcel (parsel_state s);
          is_completed = (fst result \<and> status (snd result) = DONE)
      in if \<not> is_completed then Wait_from B env (Suc n) parcel (env n s)
         else Some (snd result, n, s\<lparr>parsel_state := snd (m_erase (st B) parcel (parsel_state s))\<rparr>))"

definition Wait ::
  "('w, 't, 'q) basket \<Rightarrow> ('w, 't, 'q) environment \<Rightarrow> parcel \<Rightarrow> ('w, 't, 'q) store \<Rightarrow>
   (parcel_state \<times> nat \<times> ('w, 't, 'q) store) option" where
  "Wait B env parcel s = Wait_from B env 0 parcel s"

fun WaitAll_from ::
  "('w, 't, 'q) basket \<Rightarrow> ('w, 't, 'q) environment \<Rightarrow> nat \<Rightarrow> parcel list \<Rightarrow> ('w, 't, 'q) store \<Rightarrow>
   (parcel_state list \<times> nat \<times> ('w, 't, 'q) store) option" where
  "WaitAll_from B env n [] s = Some ([], n, s)"
| "WaitAll_from B env n (parcel # parcels) s =
     (case Wait_from B env n parcel s of None \<Rightarrow> None | Some (v, m, s') \<Rightarrow>
        map_option (\<lambda>(vs, k, s''). (v # vs, k, s'')) (WaitAll_from B env m parcels s'))"

definition WaitAll ::
  "('w, 't, 'q) basket \<Rightarrow> ('w, 't, 'q) environment \<Rightarrow> parcel list \<Rightarrow> ('w, 't, 'q) store \<Rightarrow>
   (parcel_state list \<times> nat \<times> ('w, 't, 'q) store) option" where
  "WaitAll B env parcels s = WaitAll_from B env 0 parcels s"

section \<open>Subscribing\<close>

definition AsyncSubscribe ::
  "('w, 't, 'q) basket \<Rightarrow> parcel \<Rightarrow> ('w, 't, 'q) store \<Rightarrow> bool \<times> ('w, 't, 'q) store" where
  "AsyncSubscribe B parcel s =
     (let (ok, q) = q_push (qu B) parcel (my_server B) (read_queue s) in (ok, s\<lparr>read_queue := q\<rparr>))"

text \<open>
  \<open>Subscribe\<close> does not look at what the push answers; \<open>data\<close> is the caller's buffer. What the other
  processes do to the containers meanwhile is an argument for each gap between its calls: after the push, between
  the polls, before it gets the data, and before it erases them.
\<close>

type_synonym ('w, 't, 'q) others = "('w, 't, 'q) store \<Rightarrow> ('w, 't, 'q) store"

definition Subscribe ::
  "('w, 't, 'q) basket \<Rightarrow> ('w, 't, 'q) others \<Rightarrow> ('w, 't, 'q) environment \<Rightarrow> ('w, 't, 'q) others \<Rightarrow> ('w, 't, 'q) others \<Rightarrow>
   parcel \<Rightarrow> string \<Rightarrow> ('w, 't, 'q) store \<Rightarrow> (bool \<times> string \<times> ('w, 't, 'q) store) result option" where
  "Subscribe B pushed env waited got parcel data s =
     (let s1 = s\<lparr>read_queue := snd (q_push (qu B) parcel (my_server B) (read_queue s))\<rparr>
      in case Wait B env parcel (pushed s1) of None \<Rightarrow> None | Some (_, _, s2) \<Rightarrow>
        let s2 = waited s2; result = m_get (wh B) parcel (warehouse s2)
        in Some (rbind (memcpy_into data (cs_of B (snd result))) (\<lambda>data.
             let s3 = got s2
             in Inr (fst result, data, s3\<lparr>warehouse := snd (m_erase (wh B) parcel (warehouse s3))\<rparr>))))"

definition GetSubscribedData ::
  "('w, 't, 'q) basket \<Rightarrow> parcel \<Rightarrow> string \<Rightarrow> ('w, 't, 'q) store \<Rightarrow>
   (bool \<times> string \<times> ('w, 't, 'q) store) result" where
  "GetSubscribedData B parcel data s =
     (let result = m_get (wh B) parcel (warehouse s)
      in if fst result then
           rbind (memcpy_into data (cs_of B (snd result))) (\<lambda>data.
             Inr (True, data, s\<lparr>warehouse := snd (m_erase (wh B) parcel (warehouse s))\<rparr>))
         else Inr (False, data, s))"

lemmas client_op_defs [model_defs] = PutData_def GetData_def DeleteData_def UpdateParcelStatus_def
  AsyncSubscribe_def

section \<open>Behaviour of the operations\<close>

lemma amount_of_pos: "amount_of n > 0 \<longleftrightarrow> n > 0"
  by (auto simp: amount_of_def)

text \<open>The loop empties the queue of the server, whatever positive amount it starts from.\<close>

lemma pop_loop_drains:
  assumes "queue_laws Q" "amount > 0"
  shows "\<exists>ps q'. pop_loop Q srv amount q acc = Some (acc @ ps, q') \<and> map wire_of ps = waiting Q q srv
    \<and> waiting Q q' = (waiting Q q)(srv := [])"
proof (induction "waiting Q q srv" arbitrary: q acc)
  case Nil
  from queue_pop_empty [OF assms(1) Nil [symmetric]] obtain p q' where
    "q_pop Q srv q = ((False, p), q')" "waiting Q q' = waiting Q q" .
  with Nil assms(2) show ?case
    by (subst pop_loop.simps) (auto simp: fun_eq_iff)
next
  case (Cons w ws)
  from queue_pop_first [OF assms(1) Cons(2) [symmetric]] obtain p q' where
    pop: "q_pop Q srv q = ((True, p), q')" "wire_of p = w" "waiting Q q' = (waiting Q q)(srv := ws)" .
  then have "ws = waiting Q q' srv" by simp
  from Cons(1) [OF this, of "acc @ [p]"] obtain ps q'' where
    "pop_loop Q srv amount q' (acc @ [p]) = Some ((acc @ [p]) @ ps, q'')" "map wire_of ps = ws"
    "waiting Q q'' = (waiting Q q')(srv := [])"
    using pop(3) by auto
  with pop assms(2) Cons(2) show ?case
    by (subst pop_loop.simps) (auto intro!: exI [of _ "p # ps"])
qed

lemma pop_loop_empty: "pop_loop Q srv 0 q acc = Some (acc, q)"
  by (subst pop_loop.simps) simp

lemma pop_loop_taken:
  assumes "queue_laws Q"
  obtains ps q' where "pop_loop Q srv (amount_of (q_size Q srv q)) q [] = Some (ps, q')"
    "map wire_of ps = waiting Q q srv" "waiting Q q' = (waiting Q q)(srv := [])"
proof (cases "waiting Q q srv = []")
  case True
  then have "amount_of (q_size Q srv q) = 0"
    by (simp add: queue_size_waiting [OF assms] amount_of_def)
  with True that [of "[]" q] show ?thesis by (auto simp: pop_loop_empty fun_eq_iff)
next
  case False
  then have "amount_of (q_size Q srv q) > 0"
    by (simp add: amount_of_pos queue_size_waiting [OF assms])
  from pop_loop_drains [OF assms this, of srv q "[]"] that show ?thesis by auto
qed

lemma views_put [simp]:
  assumes "basket_laws B"
  shows "data_of B (snd (PutData B p d s)) = (data_of B s)(key_of p \<mapsto> d)"
    "state_of B (snd (PutData B p d s)) = state_of B s"
    "to_write B (snd (PutData B p d s)) = to_write B s"
    "to_read B (snd (PutData B p d s)) = to_read B s"
  using map_total_put(2) [OF basket_lawsD(1) [OF assms]]
  by (simp_all add: model_defs view_defs split: prod.splits) (metis snd_conv)

lemma views_delete [simp]:
  assumes "basket_laws B"
  shows "data_of B (snd (DeleteData B p s)) = (data_of B s)(key_of p := None)"
    "state_of B (snd (DeleteData B p s)) = state_of B s"
    "to_write B (snd (DeleteData B p s)) = to_write B s"
    "to_read B (snd (DeleteData B p s)) = to_read B s"
  using map_erase_contents [OF basket_lawsD(3) [OF assms]]
  by (simp_all add: model_defs view_defs split: prod.splits) (metis snd_conv)

lemma views_update [simp]:
  assumes "basket_laws B"
  shows "data_of B (snd (UpdateParcelStatus B now p v s)) = data_of B s"
    "state_of B (snd (UpdateParcelStatus B now p v s)) = (state_of B s)(key_of p \<mapsto> ParcelState now v)"
    "to_write B (snd (UpdateParcelStatus B now p v s)) = to_write B s"
    "to_read B (snd (UpdateParcelStatus B now p v s)) = to_read B s"
  using map_total_put(2) [OF basket_lawsD(2) [OF assms]]
  by (simp_all add: model_defs view_defs Let_def)

lemma get_data_stored:
  "basket_laws B \<Longrightarrow> data_of B s (key_of p) = Some d \<Longrightarrow> GetData B p s = d"
  by (simp add: model_defs view_defs Let_def map_get_found basket_lawsD)

lemma write_parcels_taken:
  assumes "basket_laws B"
  obtains ps s' where "GetWriteParsel B srv s = Some (ps, s')" "map wire_of ps = to_write B s srv"
    "to_write B s' = (to_write B s)(srv := [])" "to_read B s' = to_read B s"
    "data_of B s' = data_of B s" "state_of B s' = state_of B s"
proof -
  obtain ps q' where "pop_loop (qu B) srv (amount_of (q_size (qu B) srv (write_queue s))) (write_queue s) []
      = Some (ps, q')" "map wire_of ps = waiting (qu B) (write_queue s) srv"
    "waiting (qu B) q' = (waiting (qu B) (write_queue s))(srv := [])"
    using pop_loop_taken [OF basket_lawsD(5) [OF assms]] .
  with that [of ps "s\<lparr>write_queue := q'\<rparr>"] show thesis
    by (simp add: GetWriteParsel_def view_defs)
qed

lemma read_parcels_taken:
  assumes "basket_laws B"
  obtains ps s' where "GetReadParsel B srv s = Some (ps, s')" "map wire_of ps = to_read B s srv"
    "to_read B s' = (to_read B s)(srv := [])" "to_write B s' = to_write B s"
    "data_of B s' = data_of B s" "state_of B s' = state_of B s"
proof -
  obtain ps q' where "pop_loop (qu B) srv (amount_of (q_size (qu B) srv (read_queue s))) (read_queue s) []
      = Some (ps, q')" "map wire_of ps = waiting (qu B) (read_queue s) srv"
    "waiting (qu B) q' = (waiting (qu B) (read_queue s))(srv := [])"
    using pop_loop_taken [OF basket_lawsD(5) [OF assms]] .
  with that [of ps "s\<lparr>read_queue := q'\<rparr>"] show thesis
    by (simp add: GetReadParsel_def view_defs)
qed

section \<open>What the tasks rely on\<close>

text \<open>
  The tasks of the jobs take the pending parcels of their server, read and delete data, and set
  states. The queue they take from is the write or the read queue.
\<close>

locale parcel_store =
  fixes lawful :: "'b \<Rightarrow> bool"
    and stored :: "'b \<Rightarrow> 's \<Rightarrow> parcel_key \<Rightarrow> string option"
    and state :: "'b \<Rightarrow> 's \<Rightarrow> parcel_key \<Rightarrow> parcel_state option"
    and pending :: "'b \<Rightarrow> 's \<Rightarrow> u16 \<Rightarrow> wire list"
    and get :: "'b \<Rightarrow> parcel \<Rightarrow> 's \<Rightarrow> string"
    and put :: "'b \<Rightarrow> parcel \<Rightarrow> string \<Rightarrow> 's \<Rightarrow> bool \<times> 's"
    and delete :: "'b \<Rightarrow> parcel \<Rightarrow> 's \<Rightarrow> bool \<times> 's"
    and update :: "'b \<Rightarrow> int \<Rightarrow> parcel \<Rightarrow> task_status \<Rightarrow> 's \<Rightarrow> int \<times> 's"
    and take_all :: "'b \<Rightarrow> u16 \<Rightarrow> 's \<Rightarrow> (parcel list \<times> 's) option"
  assumes get_stored: "lawful b \<Longrightarrow> stored b s (key_of p) = Some d \<Longrightarrow> get b p s = d"
    and stored_put: "lawful b \<Longrightarrow> stored b (snd (put b p d s)) = (stored b s)(key_of p \<mapsto> d)"
    and state_put: "lawful b \<Longrightarrow> state b (snd (put b p d s)) = state b s"
    and pending_put: "lawful b \<Longrightarrow> pending b (snd (put b p d s)) = pending b s"
    and stored_delete: "lawful b \<Longrightarrow> stored b (snd (delete b p s)) = (stored b s)(key_of p := None)"
    and state_delete: "lawful b \<Longrightarrow> state b (snd (delete b p s)) = state b s"
    and pending_delete: "lawful b \<Longrightarrow> pending b (snd (delete b p s)) = pending b s"
    and stored_update: "lawful b \<Longrightarrow> stored b (snd (update b now p v s)) = stored b s"
    and state_update:
      "lawful b \<Longrightarrow> state b (snd (update b now p v s)) = (state b s)(key_of p \<mapsto> ParcelState now v)"
    and pending_update: "lawful b \<Longrightarrow> pending b (snd (update b now p v s)) = pending b s"
    and take_all: "lawful b \<Longrightarrow> \<exists>ps s'. take_all b srv s = Some (ps, s') \<and> map wire_of ps = pending b s srv
      \<and> pending b s' = (pending b s)(srv := []) \<and> stored b s' = stored b s \<and> state b s' = state b s"
begin

lemmas store_laws = stored_put state_put pending_put stored_delete state_delete pending_delete
  stored_update state_update pending_update

text \<open>Taking a parcel's data out and marking the parcel, as the source tasks do.\<close>

definition consume :: "'b \<Rightarrow> int \<Rightarrow> task_status \<Rightarrow> parcel \<Rightarrow> 's \<Rightarrow> string \<times> 's" where
  "consume b now v p s = (get b p s, snd (update b now p v (snd (delete b p s))))"

lemma consume_effect:
  assumes "lawful b" "stored b s (key_of p) = Some d" "consume b now v p s = (d', s')"
  shows "d' = d" "stored b s' = (stored b s)(key_of p := None)"
    "state b s' = (state b s)(key_of p \<mapsto> ParcelState now v)" "pending b s' = pending b s"
  using assms by (auto simp: consume_def store_laws get_stored)

text \<open>Storing data and marking the parcel, as the read sink does.\<close>

lemma fill_effect:
  assumes "lawful b" "s' = snd (update b now p v (snd (put b p d s)))"
  shows "stored b s' = (stored b s)(key_of p \<mapsto> d)"
    "state b s' = (state b s)(key_of p \<mapsto> ParcelState now v)" "pending b s' = pending b s"
  using assms by (simp_all add: store_laws)

end

interpretation write_side:
  parcel_store basket_laws data_of state_of to_write GetData PutData DeleteData UpdateParcelStatus
    GetWriteParsel
proof unfold_locales
  show "\<exists>ps s'. GetWriteParsel B srv s = Some (ps, s') \<and> map wire_of ps = to_write B s srv
      \<and> to_write B s' = (to_write B s)(srv := []) \<and> data_of B s' = data_of B s \<and> state_of B s' = state_of B s"
    if "basket_laws B" for B :: "('w, 't, 'q) basket" and srv s
    using write_parcels_taken [OF that, of srv s] by metis
qed (simp_all add: get_data_stored)

interpretation read_side:
  parcel_store basket_laws data_of state_of to_read GetData PutData DeleteData UpdateParcelStatus
    GetReadParsel
proof unfold_locales
  show "\<exists>ps s'. GetReadParsel B srv s = Some (ps, s') \<and> map wire_of ps = to_read B s srv
      \<and> to_read B s' = (to_read B s)(srv := []) \<and> data_of B s' = data_of B s \<and> state_of B s' = state_of B s"
    if "basket_laws B" for B :: "('w, 't, 'q) basket" and srv s
    using read_parcels_taken [OF that, of srv s] by metis
qed (simp_all add: get_data_stored)

end
