(* ===== verification/Client.thy ===== *)
theory Client
  imports Warehouse
begin

text \<open>
  The properties of the client library \<open>rhea::Client\<close> of theory \<open>Warehouse\<close>: publishing,
  draining the queues, waiting and subscribing, the life of a job.
\<close>

section \<open>Polling\<close>

text \<open>The store seen by poll \<open>k\<close> of a wait that has not completed before.\<close>

fun polled :: "('w, 't, 'q) environment \<Rightarrow> nat \<Rightarrow> nat \<Rightarrow> ('w, 't, 'q) store \<Rightarrow> ('w, 't, 'q) store" where
  "polled env n 0 s = s"
| "polled env n (Suc k) s = polled env (Suc n) k (env n s)"

definition done_at :: "('w, 't, 'q) basket \<Rightarrow> parcel \<Rightarrow> ('w, 't, 'q) store \<Rightarrow> bool" where
  "done_at B p s = (\<exists>t. state_of B s (key_of p) = Some t \<and> status t = DONE)"

text \<open>What \<open>Erase\<close> of the state of a parcel leaves.\<close>

definition erased :: "('w, 't, 'q) basket \<Rightarrow> parcel \<Rightarrow> ('w, 't, 'q) store \<Rightarrow> ('w, 't, 'q) store" where
  "erased B p s = s\<lparr>parsel_state := snd (m_erase (st B) p (parsel_state s))\<rparr>"

lemma erased_views:
  assumes "basket_laws B"
  shows "state_of B (erased B p s) = (state_of B s)(key_of p := None)"
    "data_of B (erased B p s) = data_of B s"
    "to_write B (erased B p s) = to_write B s" "to_read B (erased B p s) = to_read B s"
  using map_erase_contents [OF basket_lawsD(4) [OF assms]]
  by (simp_all add: erased_def view_defs)

lemma Wait_from_done:
  assumes "basket_laws B" "state_of B s (key_of p) = Some t" "status t = DONE"
  shows "Wait_from B env n p s = Some (t, n, erased B p s)"
proof -
  have "m_get (st B) p (parsel_state s) = (True, t)"
    using map_get_found [OF basket_lawsD(4) [OF assms(1)]] assms(2) by (simp add: view_defs)
  with assms(3) show ?thesis
    by (subst Wait_from.simps) (simp add: erased_def)
qed

lemma poll_pending:
  assumes "basket_laws B" "\<not> done_at B p s"
  shows "\<not> (fst (m_get (st B) p (parsel_state s)) \<and> status (snd (m_get (st B) p (parsel_state s))) = DONE)"
proof (cases "state_of B s (key_of p)")
  case None
  then show ?thesis
    using map_get_missing [OF basket_lawsD(4) [OF assms(1)]] by (simp add: view_defs)
next
  case (Some t)
  then have "m_get (st B) p (parsel_state s) = (True, t)"
    using map_get_found [OF basket_lawsD(4) [OF assms(1)]] by (simp add: view_defs)
  with Some assms(2) show ?thesis by (simp add: done_at_def)
qed

lemma Wait_from_pending:
  assumes "basket_laws B" "\<not> done_at B p s"
  shows "Wait_from B env n p s = Wait_from B env (Suc n) p (env n s)"
  using poll_pending [OF assms]
  by (subst Wait_from.simps) (simp add: Let_def)

lemma Wait_from_skip:
  assumes "basket_laws B" "\<forall>i < k. \<not> done_at B p (polled env n i s)"
  shows "Wait_from B env n p s = Wait_from B env (n + k) p (polled env n k s)"
  using assms(2)
proof (induction k arbitrary: n s)
  case (Suc k)
  have "\<not> done_at B p s" using Suc.prems by force
  then have "Wait_from B env n p s = Wait_from B env (Suc n) p (env n s)"
    by (rule Wait_from_pending [OF assms(1)])
  also have "\<dots> = Wait_from B env (Suc n + k) p (polled env (Suc n) k (env n s))"
  proof (rule Suc.IH, intro allI impI)
    fix i assume "i < k"
    with Suc.prems [rule_format, of "Suc i"] show "\<not> done_at B p (polled env (Suc n) i (env n s))"
      by simp
  qed
  finally show ?case by simp
qed simp

text \<open>A wait that returns has seen the state DONE; induction on its iterations.\<close>

lemma Wait_from_returns:
  assumes "basket_laws B" "Wait_from B env n p s = Some r"
  shows "\<exists>k. done_at B p (polled env n k s)"
proof -
  have "basket_laws B \<longrightarrow> (\<exists>k. done_at B p (polled env n k s))"
    using assms(2)
  proof (induction rule: Wait_from.raw_induct [rotated, consumes 1])
    case (1 Wait_from B env n p s r)
    show ?case
    proof
      assume B: "basket_laws B"
      show "\<exists>k. done_at B p (polled env n k s)"
      proof (cases "done_at B p s")
        case True
        then show ?thesis by (intro exI [of _ 0]) simp
      next
        case False
        with 1(2) have "Wait_from B env (Suc n) p (env n s) = Some r"
          using poll_pending [OF B False] by (simp add: Let_def)
        with 1(1) B obtain k where "done_at B p (polled env (Suc n) k (env n s))"
          by (metis prod_cases3)
        then show ?thesis by (intro exI [of _ "Suc k"]) simp
      qed
    qed
  qed
  with assms(1) show ?thesis by blast
qed

section \<open>Properties: publishing and draining\<close>

text \<open>
  C21. \<open>Publish\<close> of a buffer that has the announced size stores its first \<open>data_size_\<close> bytes,
  then queues the parcel for this server and marks it QUEUED; when the push fails it answers
  false, and the data stay in the warehouse with no queue entry and no state. A shorter buffer
  is read out of bounds.
\<close>

theorem Publish_effects:
  assumes "basket_laws B"
  shows "if unat (data_size p) \<le> length data
    then \<exists>ok s'. Publish B now p data s = Inr (ok, s')
      \<and> data_of B s' = (data_of B s)(key_of p \<mapsto> take (unat (data_size p)) data)
      \<and> to_read B s' = to_read B s
      \<and> (if ok then to_write B s' = (to_write B s)(my_server B := to_write B s (my_server B) @ [wire_of p])
             \<and> state_of B s' = (state_of B s)(key_of p \<mapsto> ParcelState now QUEUED)
         else to_write B s' = to_write B s \<and> state_of B s' = state_of B s)
    else Publish B now p data s = Inl Out_of_bounds"
proof -
  let ?d = "take (unat (data_size p)) data"
  obtain w where w: "m_put (wh B) p ?d (warehouse s) = (True, w)"
    using map_total_put(1) [OF basket_lawsD(1) [OF assms]] by (metis prod.collapse)
  obtain t where t: "m_put (st B) p (ParcelState now QUEUED) (parsel_state s) = (True, t)"
    using map_total_put(1) [OF basket_lawsD(2) [OF assms]] by (metis prod.collapse)
  obtain ok q where q: "q_push (qu B) p (my_server B) (write_queue s) = (ok, q)"
    by (cases "q_push (qu B) p (my_server B) (write_queue s)")
  show ?thesis
    using map_total_put(2) [OF basket_lawsD(1) [OF assms], of p ?d "warehouse s"]
      map_total_put(2) [OF basket_lawsD(2) [OF assms], of p "ParcelState now QUEUED" "parsel_state s"]
      queue_push_waiting [OF basket_lawsD(5) [OF assms], of p "my_server B" "write_queue s"]
    by (cases ok) (auto simp: Publish_def string_of_buffer_def w t q view_defs Let_def)
qed

text \<open>A store of empty containers in one process, for the instances below.\<close>

definition local_basket ::
  "(parcel_key \<Rightarrow> string option, parcel_key \<Rightarrow> parcel_state option, u16 \<Rightarrow> parcel list) basket" where
  "local_basket = \<lparr>wh = fun_map '''', st = fun_map default_state, qu = list_queue sample_parcel,
     my_server = 0, cs_of = (\<lambda>s. s)\<rparr>"

definition local_store ::
  "(parcel_key \<Rightarrow> string option, parcel_key \<Rightarrow> parcel_state option, u16 \<Rightarrow> parcel list) store" where
  "local_store = \<lparr>warehouse = (\<lambda>_. None), parsel_state = (\<lambda>_. None), write_queue = (\<lambda>_. []), read_queue = (\<lambda>_. [])\<rparr>"

lemma local_basket_laws: "basket_laws local_basket"
  by (simp add: basket_laws_def local_basket_def fun_map_total list_queue_laws)

lemma local_views [simp]:
  "data_of local_basket s = warehouse s" "state_of local_basket s = parsel_state s"
  "to_write local_basket s srv = map wire_of (write_queue s srv)"
  "to_read local_basket s srv = map wire_of (read_queue s srv)"
  "my_server local_basket = 0" "cs_of local_basket x = x"
  by (simp_all add: view_defs local_basket_def fun_map_def list_queue_def)

theorem Publish_effects_witness:
  "\<exists>ok s'. Publish local_basket 9 sample_parcel ''abcdef'' local_store = Inr (ok, s')
     \<and> warehouse s' (''7'', 3) = Some ''abcd''"
  using Publish_effects [OF local_basket_laws, of sample_parcel "''abcdef''" 9 local_store]
  by (auto simp: sample_parcel_def key_of_def)

text \<open>
  C17. \<open>GetWriteParsel\<close> and \<open>GetReadParsel\<close> return, and take every parcel waiting for the server,
  first in first out, although the loops are written to take a tenth of them; other servers'
  queues, data and states stay.
\<close>

theorem GetParsel_drains:
  assumes "basket_laws B"
  shows "(\<exists>ps s'. GetWriteParsel B srv s = Some (ps, s') \<and> map wire_of ps = to_write B s srv
      \<and> to_write B s' = (to_write B s)(srv := []) \<and> to_read B s' = to_read B s
      \<and> data_of B s' = data_of B s \<and> state_of B s' = state_of B s)
    \<and> (\<exists>ps s'. GetReadParsel B srv s = Some (ps, s') \<and> map wire_of ps = to_read B s srv
      \<and> to_read B s' = (to_read B s)(srv := []) \<and> to_write B s' = to_write B s
      \<and> data_of B s' = data_of B s \<and> state_of B s' = state_of B s)"
  using write_parcels_taken [OF assms, of srv s] read_parcels_taken [OF assms, of srv s] by metis

theorem GetParsel_drains_witness:
  "\<exists>ps s'. GetWriteParsel local_basket 0
       (local_store\<lparr>write_queue := (\<lambda>_. [sample_parcel, sample_parcel\<lparr>unique_id := 4\<rparr>])\<rparr>) = Some (ps, s')
     \<and> map wire_of ps = [(''7'', 16, 4, 1, 3), (''7'', 16, 4, 1, 4)] \<and> write_queue s' 0 = []"
proof -
  let ?s = "local_store\<lparr>write_queue := (\<lambda>_. [sample_parcel, sample_parcel\<lparr>unique_id := 4\<rparr>])\<rparr>"
  obtain ps s' where 1: "GetWriteParsel local_basket 0 ?s = Some (ps, s')"
    "map wire_of ps = to_write local_basket ?s 0"
    "to_write local_basket s' = (to_write local_basket ?s)(0 := [])"
    using GetParsel_drains [OF local_basket_laws, of 0 ?s] by auto
  from fun_cong [OF 1(3), of 0] have "write_queue s' 0 = []" by simp
  with 1(1,2) show ?thesis
    by (intro exI conjI) (auto simp: sample_parcel_def wire_of_def)
qed

lemma pop_loop_endless:
  assumes "\<And>q. fst (fst (q_pop Q srv q))" "amount > 0"
  shows "pop_loop Q srv amount q acc = None"
proof -
  have "amount > 0 \<longrightarrow> (\<forall>q. fst (fst (q_pop Q srv q))) \<longrightarrow> False"
    if "pop_loop Q srv amount q acc = Some (ps, q')" for ps q'
    using that
  proof (induction rule: pop_loop.raw_induct [rotated, consumes 1])
    case 1
    then show ?case by (auto simp: Let_def split: if_splits prod.splits) (metis fst_conv)
  qed
  with assms show ?thesis
    by (cases "pop_loop Q srv amount q acc") auto
qed

text \<open>
  The loop of \<open>GetWriteParsel\<close> has no bound of its own: when other processes push as fast as
  it pops, so that \<open>Pop\<close> never fails, it does not return.
\<close>

theorem GetWriteParsel_endless:
  assumes "\<And>q. fst (fst (q_pop (qu B) srv q))" "q_size (qu B) srv (write_queue s) > 0"
  shows "GetWriteParsel B srv s = None"
  using assms(2) by (simp add: GetWriteParsel_def pop_loop_endless assms(1) amount_of_pos)

definition refilled_queue :: "unit queue_ops" where
  "refilled_queue = \<lparr>q_push = (\<lambda>p srv q. (True, q)), q_pop = (\<lambda>srv q. ((True, sample_parcel), q)),
     q_size = (\<lambda>srv q. 1), waiting = (\<lambda>q srv. [])\<rparr>"

theorem GetWriteParsel_endless_witness:
  "GetWriteParsel \<lparr>wh = fun_map '''', st = fun_map default_state, qu = refilled_queue, my_server = 0,
      cs_of = (\<lambda>s. s)\<rparr> 0
     \<lparr>warehouse = (\<lambda>_. None), parsel_state = (\<lambda>_. None), write_queue = (), read_queue = ()\<rparr> = None"
  by (rule GetWriteParsel_endless) (simp_all add: refilled_queue_def)

section \<open>Properties: waiting and subscribing\<close>

definition first_done :: "('w, 't, 'q) basket \<Rightarrow> ('w, 't, 'q) environment \<Rightarrow> parcel \<Rightarrow> nat \<Rightarrow> ('w, 't, 'q) store \<Rightarrow> bool" where
  "first_done B env p k s = (done_at B p (polled env 0 k s) \<and> (\<forall>i < k. \<not> done_at B p (polled env 0 i s)))"

lemma Wait_first_done:
  assumes "basket_laws B" "first_done B env p k s"
  shows "\<exists>t. state_of B (polled env 0 k s) (key_of p) = Some t \<and> status t = DONE
    \<and> Wait B env p s = Some (t, k, erased B p (polled env 0 k s))"
proof -
  from assms(2) obtain t where "state_of B (polled env 0 k s) (key_of p) = Some t" "status t = DONE"
    by (auto simp: first_done_def done_at_def)
  moreover from assms(2) have "Wait B env p s = Wait_from B env k p (polled env 0 k s)"
    using Wait_from_skip [OF assms(1), of k p env 0 s] by (simp add: Wait_def first_done_def)
  ultimately show ?thesis
    using Wait_from_done [OF assms(1)] by metis
qed

lemma Wait_returns_first:
  assumes "basket_laws B" "Wait B env p s \<noteq> None"
  obtains k where "first_done B env p k s"
proof -
  from assms have "\<exists>k. done_at B p (polled env 0 k s)"
    unfolding Wait_def by (auto intro: Wait_from_returns)
  then obtain k where "done_at B p (polled env 0 k s)" "\<forall>i < k. \<not> done_at B p (polled env 0 i s)"
    using exists_least_iff [of "\<lambda>k. done_at B p (polled env 0 k s)"] by auto
  then show thesis using that by (simp add: first_done_def)
qed

text \<open>
  C13. \<open>Wait\<close> returns if and only if some poll finds the parcel DONE. Then it answers the state of
  the first such poll, and removes the parcel's state, leaving data and queues as they are.
\<close>

theorem Wait_returns_iff:
  assumes "basket_laws B"
  shows "(Wait B env p s \<noteq> None \<longleftrightarrow> (\<exists>k. done_at B p (polled env 0 k s)))
    \<and> (\<forall>t n s'. Wait B env p s = Some (t, n, s') \<longrightarrow>
        first_done B env p n s \<and> status t = DONE
        \<and> state_of B (polled env 0 n s) (key_of p) = Some t
        \<and> state_of B s' = (state_of B (polled env 0 n s))(key_of p := None)
        \<and> data_of B s' = data_of B (polled env 0 n s))"
proof (intro conjI allI impI)
  show "Wait B env p s \<noteq> None \<longleftrightarrow> (\<exists>k. done_at B p (polled env 0 k s))"
  proof
    assume "Wait B env p s \<noteq> None"
    then show "\<exists>k. done_at B p (polled env 0 k s)"
      by (rule Wait_returns_first [OF assms]) (auto simp: first_done_def)
  next
    assume "\<exists>k. done_at B p (polled env 0 k s)"
    then obtain k where "first_done B env p k s"
      using exists_least_iff [of "\<lambda>k. done_at B p (polled env 0 k s)"] by (auto simp: first_done_def)
    with Wait_first_done [OF assms] show "Wait B env p s \<noteq> None" by fastforce
  qed
next
  fix t n s' assume w: "Wait B env p s = Some (t, n, s')"
  then obtain k where k: "first_done B env p k s"
    using Wait_returns_first [OF assms] by (metis option.discI)
  from Wait_first_done [OF assms k] w have r: "n = k" "s' = erased B p (polled env 0 k s)"
    "state_of B (polled env 0 k s) (key_of p) = Some t" "status t = DONE"
    by auto
  with k show "first_done B env p n s" "status t = DONE" "state_of B (polled env 0 n s) (key_of p) = Some t"
    "state_of B s' = (state_of B (polled env 0 n s))(key_of p := None)"
    "data_of B s' = data_of B (polled env 0 n s)"
    by (simp_all add: erased_views [OF assms])
qed

text \<open>An environment that finishes the sample parcel during the second sleep.\<close>

definition finish_later ::
  "(parcel_key \<Rightarrow> string option, parcel_key \<Rightarrow> parcel_state option, u16 \<Rightarrow> parcel list) environment" where
  "finish_later n s = (if n = 1 then s\<lparr>parsel_state := (parsel_state s)((''7'', 3) \<mapsto> ParcelState 50 DONE)\<rparr> else s)"

lemma finish_later_polled: "polled finish_later 0 2 s = finish_later 1 s"
  by (simp add: numeral_2_eq_2 finish_later_def)

theorem Wait_returns_iff_witness: "Wait local_basket finish_later sample_parcel local_store \<noteq> None"
proof -
  have "done_at local_basket sample_parcel (polled finish_later 0 2 local_store)"
    unfolding finish_later_polled by (simp add: done_at_def finish_later_def sample_parcel_def key_of_def)
  then show ?thesis
    using Wait_returns_iff [OF local_basket_laws, of finish_later sample_parcel local_store] by blast
qed

definition leaves_state :: "('w, 't, 'q) basket \<Rightarrow> ('w, 't, 'q) environment \<Rightarrow> parcel_key \<Rightarrow> bool" where
  "leaves_state B env k = (\<forall>n s. state_of B (env n s) k = state_of B s k)"

lemma leaves_state_polled: "leaves_state B env k \<Longrightarrow> state_of B (polled env n i s) k = state_of B s k"
  by (induction i arbitrary: n s) (simp_all add: leaves_state_def)

lemma Wait_without_state:
  assumes "basket_laws B" "leaves_state B env (key_of p)" "\<not> done_at B p s"
  shows "Wait B env p s = None"
proof (rule ccontr)
  assume "Wait B env p s \<noteq> None"
  then obtain k where "first_done B env p k s"
    using Wait_returns_first [OF assms(1)] by blast
  with assms(2,3) show False
    by (auto simp: first_done_def done_at_def leaves_state_polled)
qed

text \<open>
  A second \<open>Wait\<close> for a parcel whose \<open>Wait\<close> returned does not return, as long as nobody sets a
  state for that parcel again: the first one removed the state.
\<close>

theorem Wait_twice_hangs:
  assumes "basket_laws B" "Wait B env p s = Some (t, n, s')" "leaves_state B env' (key_of q)" "parcel_eq p q"
  shows "Wait B env' q s' = None"
proof -
  obtain k where "first_done B env p k s"
    using Wait_returns_first [OF assms(1), of env p s] assms(2) by auto
  from Wait_first_done [OF assms(1) this] assms(2) have "s' = erased B p (polled env 0 k s)"
    by auto
  then have "state_of B s' (key_of q) = None"
    using assms(1,4) by (simp add: erased_views parcel_eq_key)
  then show ?thesis
    using Wait_without_state [OF assms(1,3)] by (simp add: done_at_def)
qed

definition done_store ::
  "(parcel_key \<Rightarrow> string option, parcel_key \<Rightarrow> parcel_state option, u16 \<Rightarrow> parcel list) store" where
  "done_store = local_store\<lparr>parsel_state := [key_of sample_parcel \<mapsto> ParcelState 50 DONE]\<rparr>"

lemma quiet_leaves [simp]: "leaves_state B (\<lambda>n s. s) k"
  by (simp add: leaves_state_def)

lemma Wait_now:
  assumes "basket_laws B" "state_of B s (key_of p) = Some t" "status t = DONE"
  shows "Wait B env p s = Some (t, 0, erased B p s)"
  unfolding Wait_def using Wait_from_done [OF assms] .

theorem Wait_twice_hangs_witness:
  "Wait local_basket (\<lambda>n s. s) sample_parcel (erased local_basket sample_parcel done_store) = None"
proof (rule Wait_twice_hangs [OF local_basket_laws])
  show "Wait local_basket (\<lambda>n s. s) sample_parcel done_store
      = Some (ParcelState 50 DONE, 0, erased local_basket sample_parcel done_store)"
    by (rule Wait_now [OF local_basket_laws]) (simp_all add: done_store_def)
qed simp_all

lemma WaitAll_distinct:
  assumes "basket_laws B" "distinct (map key_of ps)"
    "\<forall>p \<in> set ps. state_of B s (key_of p) = Some (f p) \<and> status (f p) = DONE"
  shows "\<exists>s'. WaitAll_from B env 0 ps s = Some (map f ps, 0, s')
    \<and> state_of B s' = state_of B s |` (- key_of ` set ps) \<and> data_of B s' = data_of B s"
  using assms(2,3)
proof (induction ps arbitrary: s)
  case (Cons p ps)
  let ?s = "erased B p s"
  have w: "Wait_from B env 0 p s = Some (f p, 0, ?s)"
    using Cons.prems(2) by (intro Wait_from_done [OF assms(1)]) auto
  have "key_of q \<noteq> key_of p" if "q \<in> set ps" for q
    using Cons.prems(1) that by (auto simp: image_iff intro: sym)
  then have "\<forall>q \<in> set ps. state_of B ?s (key_of q) = Some (f q) \<and> status (f q) = DONE"
    using Cons.prems(2) by (simp add: erased_views [OF assms(1)])
  with Cons.IH [of ?s] Cons.prems(1) obtain s' where
    "WaitAll_from B env 0 ps ?s = Some (map f ps, 0, s')"
    "state_of B s' = state_of B ?s |` (- key_of ` set ps)" "data_of B s' = data_of B ?s"
    by auto
  with w show ?case
    by (auto simp: erased_views [OF assms(1)] restrict_map_def fun_eq_iff)
qed (simp add: fun_eq_iff)

text \<open>In a quiet store, a parcel that occurs twice or has no state is waited for in vain.\<close>

lemma WaitAll_blocked:
  assumes "basket_laws B" "\<not> distinct (map key_of ps) \<or> (\<exists>p \<in> set ps. state_of B s (key_of p) = None)"
  shows "WaitAll_from B (\<lambda>n s. s) n ps s = None"
  using assms(2)
proof (induction ps arbitrary: n s)
  case (Cons p ps)
  show ?case
  proof (cases "Wait_from B (\<lambda>n s. s) n p s")
    case (Some r)
    obtain t m s' where r: "r = (t, m, s')" by (cases r)
    have "polled (\<lambda>n s. s) n k s = s" for k n and s :: "('a, 'b, 'c) store"
      by (induction k arbitrary: n) simp_all
    then have "done_at B p s"
      using Wait_from_returns [OF assms(1) Some] by simp
    then have "s' = erased B p s" "state_of B s (key_of p) \<noteq> None"
      using Some r by (auto simp: done_at_def Wait_from_done [OF assms(1)])
    with Cons.prems have "\<not> distinct (map key_of ps) \<or> (\<exists>q \<in> set ps. state_of B s' (key_of q) = None)"
      by (auto simp: erased_views [OF assms(1)])
    with Cons.IH [of s' m] show ?thesis by (simp add: Some r)
  qed simp
qed simp

text \<open>
  C25. \<open>WaitAll\<close> of different parcels that are all DONE returns their states in the order of the
  list at once, and forgets the states of exactly these parcels. With a parcel that occurs
  twice, and nobody setting its state again, it does not return.
\<close>

theorem WaitAll_done:
  assumes "basket_laws B" "\<forall>p \<in> set ps. state_of B s (key_of p) = Some (f p) \<and> status (f p) = DONE"
  shows "if distinct (map key_of ps)
    then \<exists>s'. WaitAll B env ps s = Some (map f ps, 0, s')
      \<and> state_of B s' = state_of B s |` (- key_of ` set ps) \<and> data_of B s' = data_of B s
    else WaitAll B (\<lambda>n s. s) ps s = None"
  using WaitAll_distinct [OF assms(1) _ assms(2)] WaitAll_blocked [OF assms(1)] by (simp add: WaitAll_def)

theorem WaitAll_done_witness:
  "WaitAll local_basket (\<lambda>n s. s) [sample_parcel, sample_parcel] done_store = None"
  using WaitAll_done [OF local_basket_laws, of "[sample_parcel, sample_parcel]" done_store
      "\<lambda>_. ParcelState 50 DONE" "\<lambda>n s. s"]
  by (simp add: done_store_def)

text \<open>\<open>Subscribe\<close> after a poll that found DONE: with data for the parcel, and without.\<close>

lemma subscribe_found:
  assumes "basket_laws B" "s1 = pushed (snd (AsyncSubscribe B p s))" "first_done B env p k s1"
    and "data_of B (waited (erased B p (polled env 0 k s1))) (key_of p) = Some d"
  shows "if length (cs_of B d) \<le> length buf
     then \<exists>s'. Subscribe B pushed env waited got p buf s = Some (Inr (True, cs_of B d @ drop (length (cs_of B d)) buf, s'))
       \<and> data_of B s' = (data_of B (got (waited (erased B p (polled env 0 k s1)))))(key_of p := None)
       \<and> state_of B s' = state_of B (got (waited (erased B p (polled env 0 k s1))))
       \<and> state_of B (erased B p (polled env 0 k s1)) = (state_of B (polled env 0 k s1))(key_of p := None)
     else Subscribe B pushed env waited got p buf s = Some (Inl Out_of_bounds)"
proof -
  let ?s2 = "waited (erased B p (polled env 0 k s1))"
  note M = basket_lawsD(3) [OF assms(1)]
  have s1: "pushed (s\<lparr>read_queue := snd (q_push (qu B) p (my_server B) (read_queue s))\<rparr>) = s1"
    by (simp add: assms(2) AsyncSubscribe_def split: prod.splits)
  have g: "m_get (wh B) p (warehouse ?s2) = (True, d)" using map_get_found [OF M] assms(4) by (simp add: data_of_def)
  let ?s' = "(got ?s2)\<lparr>warehouse := snd (m_erase (wh B) p (warehouse (got ?s2)))\<rparr>"
  have "data_of B ?s' = (data_of B (got ?s2))(key_of p := None)" "state_of B ?s' = state_of B (got ?s2)"
    using map_erase_contents [OF M] by (simp_all add: view_defs)
  with Wait_first_done [OF assms(1,3)] erased_views(1) [OF assms(1)] show ?thesis
    by (auto simp: Subscribe_def s1 g Let_def memcpy_into_def)
qed

lemma subscribe_missing:
  assumes "basket_laws B" "s1 = pushed (snd (AsyncSubscribe B p s))" "first_done B env p k s1"
    and "data_of B (waited (erased B p (polled env 0 k s1))) (key_of p) = None"
  shows "\<exists>r. Subscribe B pushed env waited got p buf s = Some r \<and> (\<forall>ok data s'. r = Inr (ok, data, s') \<longrightarrow> \<not> ok)"
proof -
  have s1: "pushed (s\<lparr>read_queue := snd (q_push (qu B) p (my_server B) (read_queue s))\<rparr>) = s1"
    by (simp add: assms(2) AsyncSubscribe_def split: prod.splits)
  have "\<not> fst (m_get (wh B) p (warehouse (waited (erased B p (polled env 0 k s1)))))"
    using map_get_missing [OF basket_lawsD(3) [OF assms(1)]] assms(4) by (simp add: data_of_def)
  with Wait_first_done [OF assms(1,3)] show ?thesis by (auto simp: Subscribe_def s1 Let_def memcpy_into_def)
qed

lemma subscribe_hangs:
  assumes "basket_laws B" "s1 = pushed (snd (AsyncSubscribe B p s))" "\<And>k. \<not> done_at B p (polled env 0 k s1)"
  shows "Subscribe B pushed env waited got p buf s = None"
proof -
  have "pushed (s\<lparr>read_queue := snd (q_push (qu B) p (my_server B) (read_queue s))\<rparr>) = s1"
    by (simp add: assms(2) AsyncSubscribe_def split: prod.splits)
  moreover have "Wait B env p s1 = None"
    using Wait_returns_first [OF assms(1), of env p s1] assms(3) by (metis first_done_def)
  ultimately show ?thesis by (simp add: Subscribe_def Let_def)
qed

text \<open>
  C15. \<open>Subscribe\<close>, whatever the other processes do between its calls: if the parcel becomes DONE at some poll and
  the warehouse holds data for it when the call looks, it returns true with these data (as \<open>CharStruct\<close> keeps
  them) at the start of the caller's buffer, and removes state and data; data longer than the buffer are written past
  its end. If the warehouse has no data then, it does not succeed. If the parcel never becomes DONE, for instance
  because the push failed, the call does not return.
\<close>

theorem Subscribe_delivers:
  assumes "basket_laws B" "s1 = pushed (snd (AsyncSubscribe B p s))"
  shows "(\<forall>k d. first_done B env p k s1 \<and> data_of B (waited (erased B p (polled env 0 k s1))) (key_of p) = Some d \<longrightarrow>
      (if length (cs_of B d) \<le> length buf
       then \<exists>s'. Subscribe B pushed env waited got p buf s = Some (Inr (True, cs_of B d @ drop (length (cs_of B d)) buf, s'))
         \<and> data_of B s' = (data_of B (got (waited (erased B p (polled env 0 k s1)))))(key_of p := None)
         \<and> state_of B s' = state_of B (got (waited (erased B p (polled env 0 k s1))))
         \<and> state_of B (erased B p (polled env 0 k s1)) = (state_of B (polled env 0 k s1))(key_of p := None)
       else Subscribe B pushed env waited got p buf s = Some (Inl Out_of_bounds)))
    \<and> (\<forall>k. first_done B env p k s1 \<and> data_of B (waited (erased B p (polled env 0 k s1))) (key_of p) = None \<longrightarrow>
         (\<exists>r. Subscribe B pushed env waited got p buf s = Some r \<and> (\<forall>ok data s'. r = Inr (ok, data, s') \<longrightarrow> \<not> ok)))
    \<and> ((\<nexists>k. done_at B p (polled env 0 k s1)) \<longrightarrow> Subscribe B pushed env waited got p buf s = None)"
  using subscribe_found [where pushed = pushed, OF assms] subscribe_missing [where pushed = pushed, OF assms]
    subscribe_hangs [where pushed = pushed, OF assms] by blast

definition served_store ::
  "(parcel_key \<Rightarrow> string option, parcel_key \<Rightarrow> parcel_state option, u16 \<Rightarrow> parcel list) store" where
  "served_store = done_store\<lparr>warehouse := [key_of sample_parcel \<mapsto> ''data'']\<rparr>"

theorem Subscribe_delivers_witness:
  "\<exists>s'. Subscribe local_basket id (\<lambda>n s. s) id id sample_parcel ''......'' served_store = Some (Inr (True, ''data..'', s'))"
proof -
  let ?s1 = "id (snd (AsyncSubscribe local_basket sample_parcel served_store))"
  have "first_done local_basket (\<lambda>n s. s) sample_parcel 0 ?s1"
    by (simp add: first_done_def done_at_def AsyncSubscribe_def served_store_def done_store_def split: prod.splits)
  moreover have "data_of local_basket (id (erased local_basket sample_parcel (polled (\<lambda>n s. s) 0 0 ?s1))) (key_of sample_parcel) = Some ''data''"
    by (simp only: id_apply erased_views [OF local_basket_laws])
      (simp add: AsyncSubscribe_def served_store_def done_store_def split: prod.splits)
  moreover have "length (cs_of local_basket ''data'') \<le> length ''......''"
    "cs_of local_basket ''data'' @ drop (length (cs_of local_basket ''data'')) ''......'' = ''data..''"
    by (simp_all add: local_basket_def)
  moreover note Subscribe_delivers [OF local_basket_laws refl, where pushed = id and p = sample_parcel and s = served_store and env = "\<lambda>n s. s" and waited = id and got = id and buf = "''......''",
      THEN conjunct1, rule_format, of 0 "''data''"]
  ultimately show ?thesis by (metis (no_types, lifting))
qed

text \<open>
  \<open>GetSubscribedData\<close> after \<open>PutData\<close>: the data come back through any parcel with the same key,
  and the second read finds nothing and leaves the buffer alone.
\<close>

theorem GetSubscribedData_once:
  assumes "basket_laws B" "parcel_eq p q" "length (cs_of B d) \<le> length buf"
  shows "\<exists>s'. GetSubscribedData B q buf (snd (PutData B p d s))
      = Inr (True, cs_of B d @ drop (length (cs_of B d)) buf, s')
    \<and> GetSubscribedData B q buf' s' = Inr (False, buf', s')"
proof -
  let ?s = "snd (PutData B p d s)"
  have "data_of B ?s (key_of q) = Some d"
    using assms(1,2) by (simp add: parcel_eq_key)
  then have g: "m_get (wh B) q (warehouse ?s) = (True, d)"
    using map_get_found [OF basket_lawsD(3) [OF assms(1)]] by (simp add: view_defs)
  let ?s' = "?s\<lparr>warehouse := snd (m_erase (wh B) q (warehouse ?s))\<rparr>"
  have "contents (wh B) (warehouse ?s') (key_of q) = None"
    using map_erase_contents [OF basket_lawsD(3) [OF assms(1)]] by simp
  then have "\<not> fst (m_get (wh B) q (warehouse ?s'))"
    by (rule map_get_missing [OF basket_lawsD(3) [OF assms(1)]])
  then have "GetSubscribedData B q buf' ?s' = Inr (False, buf', ?s')"
    by (simp add: GetSubscribedData_def)
  moreover have "GetSubscribedData B q buf ?s = Inr (True, cs_of B d @ drop (length (cs_of B d)) buf, ?s')"
    using assms(3) by (simp add: GetSubscribedData_def g memcpy_into_def)
  ultimately show ?thesis by blast
qed

theorem GetSubscribedData_once_witness:
  "\<exists>s'. GetSubscribedData local_basket (sample_parcel\<lparr>position := 99\<rparr>) ''____''
       (snd (PutData local_basket sample_parcel ''ab'' local_store)) = Inr (True, ''ab__'', s')"
  using GetSubscribedData_once [OF local_basket_laws, of sample_parcel "sample_parcel\<lparr>position := 99\<rparr>"
      "''ab''" "''____''" local_store "''''"]
  by (auto simp: parcel_eq_def)

section \<open>Properties: the life of a job\<close>

text \<open>
  Over all ranks of an application the job is submitted exactly once and terminated exactly
  once, both by rank 0, and every rank meets the others at the same barriers: one when the
  client is made, two when it is finalised. A client that is no application submits nothing.
\<close>

theorem job_submitted_once:
  "count_list (concat (map (\<lambda>r. Client_new jid True (int r) c k) [0..<Suc n])) (SubmitJob jid c k) = 1
   \<and> count_list (concat (map (\<lambda>r. FinalizeClient jid (int r)) [0..<Suc n])) (TerminateJob jid) = 1
   \<and> (\<forall>rank. count_list (Client_new jid app rank c k) Barrier = 1
        \<and> count_list (FinalizeClient jid rank) Barrier = 2
        \<and> hd (FinalizeClient jid rank) = Barrier \<and> last (FinalizeClient jid rank) = Barrier
        \<and> Client_new jid False rank c k = [Barrier])"
proof -
  have "count_list (concat (map (\<lambda>r. Client_new jid True (int r) c k) [0..<Suc n])) (SubmitJob jid c k) = 1"
    by (induction n) (simp_all add: Client_new_def)
  moreover have "count_list (concat (map (\<lambda>r. FinalizeClient jid (int r)) [0..<Suc n])) (TerminateJob jid) = 1"
    by (induction n) (simp_all add: FinalizeClient_def)
  ultimately show ?thesis
    by (simp add: Client_new_def FinalizeClient_def)
qed

end
