(* ===== verification/Storage.thy ===== *)
theory Storage
  imports Data_Model
begin

text \<open>
  The storage clients the tasks write to and read from (\<open>FileIOClient\<close> and \<open>IOFactory\<close> of the
  sentinel and common submodules): parameters of the model, with the behaviour the tasks rely
  on. A file is found by the client that holds it and its name; \<open>files\<close> is what the storage
  holds. The laws speak only of calls whose buffers are as long as the parcel says.
\<close>

section \<open>Files as byte strings\<close>

text \<open>Writing bytes at an offset; a gap before it is filled with zero bytes.\<close>

definition splice :: "string \<Rightarrow> nat \<Rightarrow> string \<Rightarrow> string" where
  "splice old pos bytes =
     take pos (old @ replicate (pos - length old) (CHR 0x00)) @ bytes @ drop (pos + length bytes) old"

definition slice :: "string \<Rightarrow> nat \<Rightarrow> nat \<Rightarrow> string" where
  "slice s pos n = take n (drop pos s)"

lemma splice_length: "length (splice old pos bytes) = max (length old) (pos + length bytes)"
  by (auto simp: splice_def)

lemma splice_nth:
  assumes "i < length (splice old pos bytes)"
  shows "splice old pos bytes ! i =
    (if pos \<le> i \<and> i < pos + length bytes then bytes ! (i - pos)
     else if i < length old then old ! i else CHR 0x00)"
proof -
  define pre where "pre = take pos (old @ replicate (pos - length old) (CHR 0x00))"
  have len: "length pre = pos" by (simp add: pre_def)
  have eq: "splice old pos bytes = pre @ bytes @ drop (pos + length bytes) old"
    by (simp only: splice_def pre_def)
  have "pre ! j = (if j < length old then old ! j else CHR 0x00)" if "j < pos" for j
    using that by (simp add: pre_def nth_append)
  with assms len show ?thesis
    by (auto simp: eq nth_append)
qed

lemma slice_nth: "pos + n \<le> length s \<Longrightarrow> i < n \<Longrightarrow> slice s pos n ! i = s ! (pos + i)"
  by (simp add: slice_def add.commute)

lemma slice_length: "pos + n \<le> length s \<Longrightarrow> length (slice s pos n) = n"
  by (simp add: slice_def)

text \<open>What was written is read back, and bytes outside the written range stay.\<close>

lemma slice_splice_same: "slice (splice old pos bytes) pos (length bytes) = bytes"
  by (simp add: slice_def splice_def)

lemma slice_splice_other:
  assumes "q + n \<le> length old" "q + n \<le> pos \<or> pos + length bytes \<le> q"
  shows "slice (splice old pos bytes) q n = slice old q n"
proof (rule nth_equalityI)
  have q: "q + n \<le> length (splice old pos bytes)"
    using assms(1) by (simp add: splice_length)
  with assms(1) show "length (slice (splice old pos bytes) q n) = length (slice old q n)"
    by (simp add: slice_length)
  fix i assume "i < length (slice (splice old pos bytes) q n)"
  then have i: "i < n" by (simp add: slice_length q)
  with q assms show "slice (splice old pos bytes) q n ! i = slice old q n ! i"
    by (subst (1 2) slice_nth) (auto simp: splice_nth)
qed

section \<open>Storage operations\<close>

type_synonym file_name = "nat \<times> string"

record 'f io_ops =
  io_write :: "nat \<Rightarrow> parcel \<Rightarrow> parcel \<Rightarrow> 'f \<Rightarrow> 'f"      \<comment> \<open>\<open>Write(source, destination)\<close>\<close>
  io_read :: "nat \<Rightarrow> parcel \<Rightarrow> parcel \<Rightarrow> 'f \<Rightarrow> string"   \<comment> \<open>\<open>Read(source, destination)\<close>: the new buffer\<close>
  io_remove :: "nat \<Rightarrow> parcel \<Rightarrow> 'f \<Rightarrow> 'f"
  file_client :: nat                                \<comment> \<open>\<open>FileIOClient::GetInstance(0)\<close>\<close>
  io_client :: "u16 \<Rightarrow> nat"                         \<comment> \<open>\<open>GetIOClient(storage_index)\<close>\<close>
  files :: "'f \<Rightarrow> file_name \<Rightarrow> string option"

definition old_content :: "string option \<Rightarrow> string" where
  "old_content c = (case c of None \<Rightarrow> '''' | Some s \<Rightarrow> s)"

definition io_laws :: "'f io_ops \<Rightarrow> bool" where
  "io_laws IO =
     ((\<forall>c src dst f. unat (data_size src) \<le> length (buffer src) \<longrightarrow>
         files IO (io_write IO c src dst f) = (files IO f)((c, pid dst) \<mapsto>
           splice (old_content (files IO f (c, pid dst))) (unat (position dst))
             (take (unat (data_size src)) (buffer src))))
      \<and> (\<forall>c src dst f s. files IO f (c, pid src) = Some s
           \<and> unat (position src) + unat (data_size src) \<le> length s
           \<and> unat (data_size src) \<le> length (buffer dst) \<longrightarrow>
         io_read IO c src dst f = slice s (unat (position src)) (unat (data_size src))
           @ drop (unat (data_size src)) (buffer dst))
      \<and> (\<forall>c src f. files IO (io_remove IO c src f) = (files IO f)((c, pid src) := None)))"

lemma io_write_files:
  "io_laws IO \<Longrightarrow> unat (data_size src) \<le> length (buffer src) \<Longrightarrow>
    files IO (io_write IO c src dst f) = (files IO f)((c, pid dst) \<mapsto>
      splice (old_content (files IO f (c, pid dst))) (unat (position dst))
        (take (unat (data_size src)) (buffer src)))"
  by (simp add: io_laws_def)

lemma io_read_buffer:
  "io_laws IO \<Longrightarrow> files IO f (c, pid src) = Some s \<Longrightarrow>
    unat (position src) + unat (data_size src) \<le> length s \<Longrightarrow>
    unat (data_size src) = length (buffer dst) \<Longrightarrow>
    io_read IO c src dst f = slice s (unat (position src)) (unat (data_size src))"
  by (simp add: io_laws_def)

lemma io_remove_files: "io_laws IO \<Longrightarrow> files IO (io_remove IO c src f) = (files IO f)((c, pid src) := None)"
  by (simp add: io_laws_def)

section \<open>An instance\<close>

text \<open>Files in memory; the temporary files are kept with those of storage 0.\<close>

definition memory_io :: "(file_name \<Rightarrow> string option) io_ops" where
  "memory_io =
     \<lparr>io_write = (\<lambda>c src dst f. f((c, pid dst) \<mapsto>
        splice (old_content (f (c, pid dst))) (unat (position dst)) (take (unat (data_size src)) (buffer src)))),
      io_read = (\<lambda>c src dst f. slice (old_content (f (c, pid src))) (unat (position src)) (unat (data_size src))
        @ drop (unat (data_size src)) (buffer dst)),
      io_remove = (\<lambda>c src f. f((c, pid src) := None)),
      file_client = 0, io_client = unat, files = (\<lambda>f. f)\<rparr>"

lemma memory_io_laws: "io_laws memory_io"
  by (simp add: io_laws_def memory_io_def old_content_def)

end
