(* ===== verification/Codec.thy ===== *)
theory Codec
  imports Data_Model
begin

text \<open>
  The msgpack adaptors of \<open>include/rhea/common/data_structures.h\<close>: \<open>pack\<close>, \<open>object_with_zone\<close>
  and \<open>convert\<close> for \<open>Parcel\<close>, \<open>ParcelState\<close> and \<open>bip::string\<close>. A packer appends tokens to a
  stream; an object is the tagged union the adaptors build and read. The encodings of the
  scalar types and of \<open>CharStruct\<close> are those of msgpack and basket: parameters, of which the
  code needs that \<open>as<T>()\<close> gives back what was packed.
\<close>

section \<open>Streams and objects\<close>

datatype 'v token =
    Item 'v            \<comment> \<open>a value packed by an adaptor outside this repository\<close>
  | Str_header nat
  | Str_body string
  | Array_header nat

datatype 'v mobj =
    Ext 'v
  | STR_obj string
  | BIN_obj string
  | ARRAY_obj "'v mobj list"

text \<open>The object a stream stands for: an array header is followed by that many objects.\<close>

inductive denotes :: "'v token list \<Rightarrow> 'v mobj \<Rightarrow> bool" where
  item: "denotes [Item v] (Ext v)"
| str: "denotes [Str_header (length s), Str_body s] (STR_obj s)"
| arr: "\<lbrakk>list_all2 denotes tss os; n = length os\<rbrakk> \<Longrightarrow> denotes (Array_header n # concat tss) (ARRAY_obj os)"

text \<open>\<open>o.via.array.ptr[i]\<close>\<close>

definition elem :: "'v mobj \<Rightarrow> nat \<Rightarrow> 'v mobj result" where
  "elem ob i = (case ob of ARRAY_obj os \<Rightarrow> if i < length os then Inr (os ! i) else Inl Out_of_bounds
    | _ \<Rightarrow> Inl Out_of_bounds)"

lemma elem_simps [simp]:
  "elem (ARRAY_obj (x # xs)) 0 = Inr x"
  "elem (ARRAY_obj (x # xs)) (Suc n) = elem (ARRAY_obj xs) n"
  "elem (ARRAY_obj []) n = Inl Out_of_bounds"
  by (simp_all add: elem_def)

text \<open>The adaptors outside this repository, one pair per type the sources pack.\<close>

record 'v scalars =
  enc_cs :: "string \<Rightarrow> 'v"
  dec_cs :: "'v mobj \<Rightarrow> string result"
  enc_u64 :: "u64 \<Rightarrow> 'v"
  dec_u64 :: "'v mobj \<Rightarrow> u64 result"
  enc_u32 :: "u32 \<Rightarrow> 'v"
  dec_u32 :: "'v mobj \<Rightarrow> u32 result"
  enc_u16 :: "u16 \<Rightarrow> 'v"
  dec_u16 :: "'v mobj \<Rightarrow> u16 result"
  enc_status :: "task_status \<Rightarrow> 'v"
  dec_status :: "'v mobj \<Rightarrow> task_status result"
  enc_time :: "int \<Rightarrow> 'v"
  dec_time :: "'v mobj \<Rightarrow> int result"
  enc_type :: "int \<Rightarrow> 'v"
  dec_type :: "'v mobj \<Rightarrow> int result"

definition faithful :: "'v scalars \<Rightarrow> bool" where
  "faithful sc =
     ((\<forall>x. dec_cs sc (Ext (enc_cs sc x)) = Inr x) \<and> (\<forall>x. dec_u64 sc (Ext (enc_u64 sc x)) = Inr x)
      \<and> (\<forall>x. dec_u32 sc (Ext (enc_u32 sc x)) = Inr x) \<and> (\<forall>x. dec_u16 sc (Ext (enc_u16 sc x)) = Inr x)
      \<and> (\<forall>x. dec_status sc (Ext (enc_status sc x)) = Inr x)
      \<and> (\<forall>x. dec_time sc (Ext (enc_time sc x)) = Inr x)
      \<and> (\<forall>x. dec_type sc (Ext (enc_type sc x)) = Inr x))"

lemma faithfulD:
  assumes "faithful sc"
  shows "dec_cs sc (Ext (enc_cs sc s)) = Inr s" "dec_u64 sc (Ext (enc_u64 sc a)) = Inr a"
    "dec_u32 sc (Ext (enc_u32 sc b)) = Inr b" "dec_u16 sc (Ext (enc_u16 sc c)) = Inr c"
    "dec_status sc (Ext (enc_status sc d)) = Inr d" "dec_time sc (Ext (enc_time sc e)) = Inr e"
    "dec_type sc (Ext (enc_type sc f)) = Inr f"
  using assms by (simp_all add: faithful_def)

section \<open>What a codec promises\<close>

text \<open>
  \<open>pack\<close> and \<open>object_with_zone\<close> describe the same object, and \<open>convert\<close> reads back \<open>view x y\<close>:
  the fields of \<open>x\<close> that travel, on top of the target \<open>y\<close>.
\<close>

locale wire_codec =
  fixes good :: "'c \<Rightarrow> bool"
    and ok :: "'a \<Rightarrow> bool"
    and pack :: "'c \<Rightarrow> 'a \<Rightarrow> 'v token list"
    and zone :: "'c \<Rightarrow> 'a \<Rightarrow> 'v mobj"
    and conv :: "'c \<Rightarrow> 'v mobj \<Rightarrow> 'b \<Rightarrow> 'b result"
    and view :: "'a \<Rightarrow> 'b \<Rightarrow> 'b"
  assumes pack_zone: "ok x \<Longrightarrow> denotes (pack c x) (zone c x)"
    and conv_zone: "good c \<Longrightarrow> ok x \<Longrightarrow> conv c (zone c x) y = Inr (view x y)"
begin

text \<open>A vector of such values: its length, then the elements.\<close>

lemma vector_denotes:
  "list_all ok xs \<Longrightarrow> denotes (Array_header (length xs) # concat (map (pack c) xs)) (ARRAY_obj (map (zone c) xs))"
  by (rule denotes.arr) (auto simp: list_all2_conv_all_nth list_all_length pack_zone)

lemma vector_conv:
  "good c \<Longrightarrow> list_all ok xs \<Longrightarrow>
    rmap (\<lambda>ob. conv c ob y) (map (zone c) xs) = Inr (map (\<lambda>x. view x y) xs)"
  by (rule rmap_map_Inr) (simp add: conv_zone list_all_iff)

text \<open>Two values with the same object have the same view: nothing that travels is confused.\<close>

lemma zone_determines:
  "good c \<Longrightarrow> ok x \<Longrightarrow> ok x' \<Longrightarrow> zone c x = zone c x' \<Longrightarrow> view x y = view x' y"
  by (metis conv_zone sum.inject(2))

end

section \<open>Parcel\<close>

definition pack_parcel :: "'v scalars \<Rightarrow> parcel \<Rightarrow> 'v token list" where
  "pack_parcel sc input =
     [Array_header 5] @ [Item (enc_cs sc (pid input))] @ [Item (enc_u64 sc (position input))]
     @ [Item (enc_u64 sc (data_size input))] @ [Item (enc_u16 sc (storage_index input))]
     @ [Item (enc_u64 sc (unique_id input))]"

definition zone_parcel :: "'v scalars \<Rightarrow> parcel \<Rightarrow> 'v mobj" where
  "zone_parcel sc input =
     ARRAY_obj [Ext (enc_cs sc (pid input)), Ext (enc_u64 sc (position input)),
       Ext (enc_u64 sc (data_size input)), Ext (enc_u16 sc (storage_index input)),
       Ext (enc_u64 sc (unique_id input))]"

definition convert_parcel :: "'v scalars \<Rightarrow> 'v mobj \<Rightarrow> parcel \<Rightarrow> parcel result" where
  "convert_parcel sc ob input =
     rbind (rbind (elem ob 0) (dec_cs sc)) (\<lambda>v0. let input = input\<lparr>pid := v0\<rparr> in
     rbind (rbind (elem ob 1) (dec_u64 sc)) (\<lambda>v1. let input = input\<lparr>position := v1\<rparr> in
     rbind (rbind (elem ob 2) (dec_u64 sc)) (\<lambda>v2. let input = input\<lparr>data_size := v2\<rparr> in
     rbind (rbind (elem ob 3) (dec_u16 sc)) (\<lambda>v3. let input = input\<lparr>storage_index := v3\<rparr> in
     rbind (rbind (elem ob 4) (dec_u64 sc)) (\<lambda>v4. let input = input\<lparr>unique_id := v4\<rparr> in
     Inr input)))))"

text \<open>The travelled parcel: the sender's fields, the receiver's buffer.\<close>

definition travelled :: "parcel \<Rightarrow> parcel \<Rightarrow> parcel" where
  "travelled p q = p\<lparr>buffer := buffer q\<rparr>"

section \<open>ParcelState\<close>

definition pack_state :: "'v scalars \<Rightarrow> parcel_state \<Rightarrow> 'v token list" where
  "pack_state sc input =
     [Array_header 2] @ [Item (enc_status sc (status input))] @ [Item (enc_time sc (timestamp input))]"

definition zone_state :: "'v scalars \<Rightarrow> parcel_state \<Rightarrow> 'v mobj" where
  "zone_state sc input =
     ARRAY_obj [Ext (enc_status sc (status input)), Ext (enc_time sc (timestamp input))]"

definition convert_state :: "'v scalars \<Rightarrow> 'v mobj \<Rightarrow> parcel_state \<Rightarrow> parcel_state result" where
  "convert_state sc ob input =
     rbind (rbind (elem ob 0) (dec_status sc)) (\<lambda>v0. let input = input\<lparr>status := v0\<rparr> in
     rbind (rbind (elem ob 1) (dec_time sc)) (\<lambda>v1. let input = input\<lparr>timestamp := v1\<rparr> in
     Inr input))"

section \<open>\<open>bip::string\<close>\<close>

text \<open>\<open>checked_get_container_size\<close>: the size as a 32-bit value, an exception if it does not fit.\<close>

definition checked_size :: "nat \<Rightarrow> nat result" where
  "checked_size n = (if n < 2 ^ 32 then Inr n else Inl Size_overflow)"

definition pack_string :: "string \<Rightarrow> 'v token list result" where
  "pack_string v = rbind (checked_size (length v)) (\<lambda>size.
     Inr ([Str_header size] @ [Str_body (take size v)]))"

definition object_string :: "string \<Rightarrow> 'v mobj result" where
  "object_string v = rbind (checked_size (length v)) (\<lambda>size. Inr (STR_obj (take size v)))"

definition zone_string :: "string \<Rightarrow> 'v mobj result" where
  "zone_string v = rbind (checked_size (length v)) (\<lambda>size.
     rbind (memcpy_into (replicate size (CHR 0x00)) v) (\<lambda>ptr. Inr (STR_obj ptr)))"

definition convert_string :: "'v mobj \<Rightarrow> string \<Rightarrow> string result" where
  "convert_string ob v = (case ob of BIN_obj s \<Rightarrow> Inr s | STR_obj s \<Rightarrow> Inr s | _ \<Rightarrow> Inl Type_error)"

text \<open>The string adaptors for strings whose size fits.\<close>

definition the_result :: "'a result \<Rightarrow> 'a \<Rightarrow> 'a" where
  "the_result r d = (case r of Inr x \<Rightarrow> x | Inl e \<Rightarrow> d)"

definition fits :: "string \<Rightarrow> bool" where
  "fits v = (length v < 2 ^ 32)"

lemma checked_size_fits: "fits v \<Longrightarrow> checked_size (length v) = Inr (length v)"
  unfolding fits_def checked_size_def by simp

lemma string_adaptors_fit:
  assumes "fits v"
  shows "pack_string v = Inr [Str_header (length v), Str_body v]" "object_string v = Inr (STR_obj v)"
    "zone_string v = Inr (STR_obj v)"
  by (simp_all add: pack_string_def object_string_def zone_string_def checked_size_fits [OF assms]
      memcpy_into_def)

section \<open>The codecs keep their promises\<close>

lemmas codec_defs [model_defs] = pack_parcel_def zone_parcel_def convert_parcel_def pack_state_def
  zone_state_def convert_state_def

lemma denotes_items: "n = length vs \<Longrightarrow> denotes (Array_header n # map Item vs) (ARRAY_obj (map Ext vs))"
proof -
  assume n: "n = length vs"
  have "list_all2 denotes (map (\<lambda>v. [Item v]) vs) (map Ext vs)"
    by (simp add: list_all2_conv_all_nth denotes.item)
  from denotes.arr [OF this refl] n show ?thesis
    by (simp add: concat_map_singleton)
qed

interpretation parcel_codec:
  wire_codec faithful "\<lambda>_. True" pack_parcel zone_parcel convert_parcel travelled
proof unfold_locales
  show "denotes (pack_parcel sc p) (zone_parcel sc p)" for sc :: "'v scalars" and p
    using denotes_items [of 5 "[enc_cs sc (pid p), enc_u64 sc (position p), enc_u64 sc (data_size p),
        enc_u16 sc (storage_index p), enc_u64 sc (unique_id p)]"]
    by (simp add: model_defs)
  show "convert_parcel sc (zone_parcel sc p) q = Inr (travelled p q)" if "faithful sc"
    for sc :: "'v scalars" and p q
    using faithfulD [OF that] by (simp add: model_defs travelled_def numeral_eq_Suc Let_def)
qed

interpretation state_codec:
  wire_codec faithful "\<lambda>_. True" pack_state zone_state convert_state "\<lambda>x y. x"
proof unfold_locales
  show "denotes (pack_state sc p) (zone_state sc p)" for sc :: "'v scalars" and p
    using denotes_items [of 2 "[enc_status sc (status p), enc_time sc (timestamp p)]"]
    by (simp add: model_defs)
  show "convert_state sc (zone_state sc p) q = Inr p" if "faithful sc" for sc :: "'v scalars" and p q
    using faithfulD [OF that] by (simp add: model_defs)
qed

interpretation string_codec:
  wire_codec "\<lambda>_. True" fits "\<lambda>_ v. the_result (pack_string v) []"
    "\<lambda>_ v. the_result (zone_string v) (STR_obj [])" "\<lambda>_. convert_string" "\<lambda>x y. x"
  by unfold_locales
    (simp_all add: string_adaptors_fit the_result_def denotes.str convert_string_def)

section \<open>Properties\<close>

text \<open>
  C23. A parcel survives the trip: what \<open>pack\<close> streams is the object \<open>object_with_zone\<close> builds,
  and \<open>convert\<close> restores the five fields that are packed, leaving the buffer of the target; the
  result is the same key, so containers find it again.
\<close>

theorem parcel_roundtrip:
  assumes "faithful sc"
  shows "denotes (pack_parcel sc p) (zone_parcel sc p)
    \<and> (\<exists>r. convert_parcel sc (zone_parcel sc p) q = Inr r \<and> wire_of r = wire_of p
         \<and> parcel_eq r p \<and> buffer r = buffer q)"
  using parcel_codec.conv_zone [OF assms TrueI, of p q] parcel_codec.pack_zone [OF TrueI, of sc p]
  by (simp add: travelled_def wire_of_def parcel_eq_def)

text \<open>An instance of the scalar adaptors: one constructor per type.\<close>

datatype plain = PCs string | PU64 u64 | PU32 u32 | PU16 u16 | PStatus task_status | PTime int | PType int

definition plain_scalars :: "plain scalars" where
  "plain_scalars =
     \<lparr>enc_cs = PCs, dec_cs = (\<lambda>ob. case ob of Ext (PCs x) \<Rightarrow> Inr x | _ \<Rightarrow> Inl Type_error),
      enc_u64 = PU64, dec_u64 = (\<lambda>ob. case ob of Ext (PU64 x) \<Rightarrow> Inr x | _ \<Rightarrow> Inl Type_error),
      enc_u32 = PU32, dec_u32 = (\<lambda>ob. case ob of Ext (PU32 x) \<Rightarrow> Inr x | _ \<Rightarrow> Inl Type_error),
      enc_u16 = PU16, dec_u16 = (\<lambda>ob. case ob of Ext (PU16 x) \<Rightarrow> Inr x | _ \<Rightarrow> Inl Type_error),
      enc_status = PStatus, dec_status = (\<lambda>ob. case ob of Ext (PStatus x) \<Rightarrow> Inr x | _ \<Rightarrow> Inl Type_error),
      enc_time = PTime, dec_time = (\<lambda>ob. case ob of Ext (PTime x) \<Rightarrow> Inr x | _ \<Rightarrow> Inl Type_error),
      enc_type = PType, dec_type = (\<lambda>ob. case ob of Ext (PType x) \<Rightarrow> Inr x | _ \<Rightarrow> Inl Type_error)\<rparr>"

lemma faithful_plain: "faithful plain_scalars"
  by (simp add: faithful_def plain_scalars_def)

theorem parcel_roundtrip_witness:
  "\<exists>r. convert_parcel plain_scalars (zone_parcel plain_scalars sample_parcel)
         (sample_parcel\<lparr>pid := '''', buffer := ''xy''\<rparr>) = Inr r
     \<and> wire_of r = (''7'', 16, 4, 1, 3) \<and> buffer r = ''xy''"
  using parcel_roundtrip [OF faithful_plain, of sample_parcel "sample_parcel\<lparr>pid := '''', buffer := ''xy''\<rparr>"]
  by (auto simp: wire_of_def sample_parcel_def)

text \<open>
  A \<open>bip::string\<close> of less than \<open>2 ^ 32\<close> bytes survives the trip, whichever of the three
  adaptors encodes it; a longer one raises the size exception, and an object that is neither a
  string nor binary raises the type error.
\<close>

theorem string_roundtrip:
  "(if length v < 2 ^ 32
    then \<exists>ts (ob :: 'v mobj). pack_string v = Inr ts \<and> zone_string v = Inr ob \<and> object_string v = Inr ob
         \<and> denotes ts ob \<and> convert_string ob w = Inr v
    else (pack_string v :: 'v token list result) = Inl Size_overflow
         \<and> (zone_string v :: 'v mobj result) = Inl Size_overflow)
   \<and> convert_string (ARRAY_obj obs :: 'v mobj) w = Inl Type_error"
proof (cases "fits v")
  case True
  have "convert_string (STR_obj v :: 'v mobj) w = Inr v"
    by (simp add: convert_string_def)
  with True show ?thesis
    by (auto simp: fits_def string_adaptors_fit [OF True] denotes.str convert_string_def
        intro!: exI [of _ "[Str_header (length v), Str_body v]"])
next
  case False
  then show ?thesis
    by (simp add: fits_def checked_size_def pack_string_def zone_string_def convert_string_def)
qed

text \<open>
  The state of a parcel survives the trip, and no two states are confused on the wire.
\<close>

theorem state_roundtrip:
  assumes "faithful sc"
  shows "denotes (pack_state sc x) (zone_state sc x) \<and> convert_state sc (zone_state sc x) y = Inr x
    \<and> (zone_state sc x = zone_state sc x' \<longleftrightarrow> x = x')"
  using state_codec.pack_zone [OF TrueI] state_codec.conv_zone [OF assms TrueI]
    state_codec.zone_determines [OF assms TrueI TrueI]
  by blast

theorem state_roundtrip_witness:
  "convert_state plain_scalars (zone_state plain_scalars (ParcelState 1600 DONE)) default_state
     = Inr (ParcelState 1600 DONE)"
  using state_roundtrip [OF faithful_plain, of "ParcelState 1600 DONE" default_state] by simp

end
