(* ===== verification/Task_Codec.thy ===== *)
theory Task_Codec
  imports Codec
begin

text \<open>
  Tasks of a job and their msgpack adaptors (\<open>rhea_job/include/rhea_job/common/rhea_job.h\<close>):
  \<open>Task<Parcel>\<close>, \<open>RheaWriteQueueSourceTask\<close>, \<open>RheaKeyByTask\<close>, \<open>RheaWriteSinkTask\<close>. \<open>Task\<close> and its
  subclasses \<open>SourceTask\<close>, \<open>KeyByTask\<close>, \<open>SinkTask\<close> come from the sentinel submodule; a task here has
  the fields the adaptors touch and the C++ class of the object as its kind. The vector and
  \<open>shared_ptr\<close> adaptors are msgpack's: an array of the pointed-to tasks, read into fresh
  \<open>Task<Parcel>\<close> objects.
\<close>

section \<open>Tasks\<close>

datatype task_kind =
    Plain_task
  | Write_queue_source u16   \<comment> \<open>with its \<open>server_id\<close>\<close>
  | Read_queue_source u16
  | IOF_write_source u16
  | Key_by
  | Write_sink
  | Read_sink

datatype task = Task (t_job: u32) (t_id: u32) (t_type: int) (t_kind: task_kind) (t_links: "task list")

definition fresh_task :: task where
  "fresh_task = Task 0 0 0 Plain_task []"

section \<open>\<open>Task<Parcel>\<close>\<close>

fun pack_task :: "'v scalars \<Rightarrow> task \<Rightarrow> 'v token list" where
  "pack_task sc (Task job i ty k ls) =
     [Array_header 4] @ [Item (enc_u32 sc job)] @ [Item (enc_u32 sc i)] @ [Item (enc_type sc ty)]
     @ (Array_header (length ls) # concat (map (pack_task sc) ls))"

fun zone_task :: "'v scalars \<Rightarrow> task \<Rightarrow> 'v mobj" where
  "zone_task sc (Task job i ty k ls) =
     ARRAY_obj [Ext (enc_u32 sc job), Ext (enc_u32 sc i), Ext (enc_type sc ty),
       ARRAY_obj (map (zone_task sc) ls)]"

lemma elem_size: "elem ob n = Inr x \<Longrightarrow> size x < size ob"
proof (cases ob)
  case (ARRAY_obj obs)
  assume "elem ob n = Inr x"
  with ARRAY_obj have "x \<in> set obs" by (auto simp: elem_def split: if_splits)
  with ARRAY_obj show ?thesis
    using size_list_estimation' [of x obs "size x" size] by simp
qed (simp_all add: elem_def)

lemma elem_link_size: "elem ob n = Inr (ARRAY_obj obs) \<Longrightarrow> x \<in> set obs \<Longrightarrow> size x < size ob"
  using elem_size [of ob n "ARRAY_obj obs"] size_list_estimation' [of x obs "size x" size] by simp

function convert_task :: "'v scalars \<Rightarrow> 'v mobj \<Rightarrow> task \<Rightarrow> task result" where
  "convert_task sc ob input =
     rbind (rbind (elem ob 0) (dec_u32 sc)) (\<lambda>job.
     rbind (rbind (elem ob 1) (dec_u32 sc)) (\<lambda>i.
     rbind (rbind (elem ob 2) (dec_type sc)) (\<lambda>ty.
     rbind (elem ob 3) (\<lambda>ob3.
     rbind (case ob3 of ARRAY_obj obs \<Rightarrow> rmap (\<lambda>x. convert_task sc x fresh_task) obs | _ \<Rightarrow> Inl Type_error)
       (\<lambda>ls. Inr (Task job i ty (t_kind input) ls))))))"
  by pat_completeness auto
termination
  by (relation "measure (\<lambda>(sc, ob, input). size ob)") (auto dest: elem_link_size)

declare convert_task.simps [simp del]

definition convert_links :: "'v scalars \<Rightarrow> 'v mobj \<Rightarrow> task list result" where
  "convert_links sc ob = (case ob of ARRAY_obj obs \<Rightarrow> rmap (\<lambda>x. convert_task sc x fresh_task) obs
     | _ \<Rightarrow> Inl Type_error)"

section \<open>The three task classes with adaptors of their own\<close>

definition pack_write_source :: "'v scalars \<Rightarrow> task \<Rightarrow> 'v token list" where
  "pack_write_source sc input =
     [Array_header 4] @ [Item (enc_u32 sc (t_job input))] @ [Item (enc_u32 sc (t_id input))]
     @ [Item (enc_type sc (t_type input))]
     @ (Array_header (length (t_links input)) # concat (map (pack_task sc) (t_links input)))"

definition zone_write_source :: "'v scalars \<Rightarrow> task \<Rightarrow> 'v mobj" where
  "zone_write_source sc input =
     ARRAY_obj [Ext (enc_u32 sc (t_job input)), Ext (enc_u32 sc (t_id input)),
       Ext (enc_type sc (t_type input)), ARRAY_obj (map (zone_task sc) (t_links input))]"

definition convert_write_source :: "'v scalars \<Rightarrow> 'v mobj \<Rightarrow> task \<Rightarrow> task result" where
  "convert_write_source sc ob input =
     rbind (rbind (elem ob 0) (dec_u32 sc)) (\<lambda>job.
     rbind (rbind (elem ob 1) (dec_u32 sc)) (\<lambda>i.
     rbind (rbind (elem ob 2) (dec_type sc)) (\<lambda>ty.
     rbind (rbind (elem ob 3) (convert_links sc)) (\<lambda>ls.
     Inr (Task job i ty (t_kind input) ls)))))"

definition pack_key_by :: "'v scalars \<Rightarrow> task \<Rightarrow> 'v token list" where
  "pack_key_by sc input =
     [Array_header 4] @ [Item (enc_u32 sc (t_job input))] @ [Item (enc_u32 sc (t_id input))]
     @ [Item (enc_type sc (t_type input))]
     @ (Array_header (length (t_links input)) # concat (map (pack_task sc) (t_links input)))"

definition zone_key_by :: "'v scalars \<Rightarrow> task \<Rightarrow> 'v mobj" where
  "zone_key_by sc input =
     ARRAY_obj [Ext (enc_u32 sc (t_job input)), Ext (enc_u32 sc (t_id input)),
       Ext (enc_type sc (t_type input)), ARRAY_obj (map (zone_task sc) (t_links input))]"

definition convert_key_by :: "'v scalars \<Rightarrow> 'v mobj \<Rightarrow> task \<Rightarrow> task result" where
  "convert_key_by sc ob input =
     rbind (rbind (elem ob 0) (dec_u32 sc)) (\<lambda>job.
     rbind (rbind (elem ob 1) (dec_u32 sc)) (\<lambda>i.
     rbind (rbind (elem ob 2) (dec_type sc)) (\<lambda>ty.
     rbind (rbind (elem ob 3) (convert_links sc)) (\<lambda>ls.
     Inr (Task job i ty (t_kind input) ls)))))"

definition pack_write_sink :: "'v scalars \<Rightarrow> task \<Rightarrow> 'v token list" where
  "pack_write_sink sc input =
     [Array_header 4] @ [Item (enc_u32 sc (t_job input))] @ [Item (enc_u32 sc (t_id input))]
     @ [Item (enc_type sc (t_type input))]
     @ (Array_header (length (t_links input)) # concat (map (pack_task sc) (t_links input)))"

definition zone_write_sink :: "'v scalars \<Rightarrow> task \<Rightarrow> 'v mobj" where
  "zone_write_sink sc input =
     ARRAY_obj [Ext (enc_u32 sc (t_job input)), Ext (enc_u32 sc (t_id input)),
       Ext (enc_type sc (t_type input)), ARRAY_obj (map (zone_task sc) (t_links input))]"

definition convert_write_sink :: "'v scalars \<Rightarrow> 'v mobj \<Rightarrow> task \<Rightarrow> task result" where
  "convert_write_sink sc ob input =
     rbind (rbind (elem ob 0) (dec_u32 sc)) (\<lambda>job.
     rbind (rbind (elem ob 1) (dec_u32 sc)) (\<lambda>i.
     rbind (rbind (elem ob 2) (dec_type sc)) (\<lambda>ty.
     rbind (rbind (elem ob 3) (convert_links sc)) (\<lambda>ls.
     Inr (Task job i ty (t_kind input) ls)))))"

text \<open>The four adaptors agree with one another.\<close>

lemma pack_same:
  "pack_write_source sc t = pack_task sc t" "pack_key_by sc t = pack_task sc t"
  "pack_write_sink sc t = pack_task sc t"
  by (cases t; simp add: pack_write_source_def pack_key_by_def pack_write_sink_def)+

lemma zone_same:
  "zone_write_source sc t = zone_task sc t" "zone_key_by sc t = zone_task sc t"
  "zone_write_sink sc t = zone_task sc t"
  by (cases t; simp add: zone_write_source_def zone_key_by_def zone_write_sink_def)+

lemma rbind_assoc: "rbind (rbind r f) g = rbind r (\<lambda>x. rbind (f x) g)"
  by (cases r) simp_all

lemma convert_same:
  "convert_write_source sc ob t = convert_task sc ob t" "convert_key_by sc ob t = convert_task sc ob t"
  "convert_write_sink sc ob t = convert_task sc ob t"
  by (simp_all add: convert_write_source_def convert_key_by_def convert_write_sink_def
      convert_links_def rbind_assoc convert_task.simps [of sc ob t])

section \<open>What survives the trip\<close>

text \<open>A task read back: the classes of the linked tasks are lost, all of them being plain.\<close>

fun plain_task :: "task \<Rightarrow> task" where
  "plain_task (Task job i ty k ls) = Task job i ty Plain_task (map plain_task ls)"

definition task_view :: "task \<Rightarrow> task \<Rightarrow> task" where
  "task_view t input = Task (t_job t) (t_id t) (t_type t) (t_kind input) (map plain_task (t_links t))"

lemma task_view_fresh: "task_view t fresh_task = plain_task t"
  by (cases t) (simp add: task_view_def fresh_task_def)

lemma plain_task_idem [simp]: "plain_task (plain_task t) = plain_task t"
  by (induction t rule: plain_task.induct) simp

lemma denotes_task: "denotes (pack_task sc t) (zone_task sc t)"
proof (induction t)
  case (Task job i ty k ls)
  then have "denotes (Array_header (length ls) # concat (map (pack_task sc) ls))
      (ARRAY_obj (map (zone_task sc) ls))"
    by (intro denotes.arr) (auto simp: list_all2_conv_all_nth)
  then have "list_all2 denotes
      [[Item (enc_u32 sc job)], [Item (enc_u32 sc i)], [Item (enc_type sc ty)],
       Array_header (length ls) # concat (map (pack_task sc) ls)]
      [Ext (enc_u32 sc job), Ext (enc_u32 sc i), Ext (enc_type sc ty), ARRAY_obj (map (zone_task sc) ls)]"
    by (simp add: denotes.item)
  from denotes.arr [OF this, of 4] show ?case by simp
qed

lemma convert_zone_task:
  assumes "faithful sc"
  shows "convert_task sc (zone_task sc t) input = Inr (task_view t input)"
proof (induction t arbitrary: input)
  case (Task job i ty k ls)
  then have "rmap (\<lambda>x. convert_task sc x fresh_task) (map (zone_task sc) ls) = Inr (map plain_task ls)"
    by (intro rmap_map_Inr) (simp add: task_view_fresh)
  then show ?case
    by (subst convert_task.simps)
       (simp add: faithfulD [OF assms] numeral_eq_Suc task_view_def)
qed

interpretation task_codec:
  wire_codec faithful "\<lambda>_. True" pack_task zone_task convert_task task_view
  by unfold_locales (simp_all add: denotes_task convert_zone_task)

interpretation write_source_codec:
  wire_codec faithful "\<lambda>_. True" pack_write_source zone_write_source convert_write_source task_view
  by unfold_locales (simp_all add: pack_same zone_same convert_same denotes_task convert_zone_task)

interpretation key_by_codec:
  wire_codec faithful "\<lambda>_. True" pack_key_by zone_key_by convert_key_by task_view
  by unfold_locales (simp_all add: pack_same zone_same convert_same denotes_task convert_zone_task)

interpretation write_sink_codec:
  wire_codec faithful "\<lambda>_. True" pack_write_sink zone_write_sink convert_write_sink task_view
  by unfold_locales (simp_all add: pack_same zone_same convert_same denotes_task convert_zone_task)

section \<open>Properties\<close>

text \<open>
  C20. A tree of tasks of any depth survives the trip through each of the four adaptors: the stream that \<open>pack\<close>
  writes denotes the object that \<open>object_with_zone\<close> makes, and from that object \<open>convert\<close> reads ids, job
  ids, types and links back; the target keeps its own class and server id, and every
  linked task comes back as a plain \<open>Task<Parcel>\<close>, whatever its class was.
\<close>

theorem task_roundtrip:
  assumes "faithful sc"
  shows "denotes (pack_task sc t) (zone_task sc t) \<and> denotes (pack_write_source sc t) (zone_write_source sc t)
    \<and> denotes (pack_key_by sc t) (zone_key_by sc t) \<and> denotes (pack_write_sink sc t) (zone_write_sink sc t)
    \<and> convert_task sc (zone_task sc t) q = Inr (task_view t q)
    \<and> convert_write_source sc (zone_write_source sc t) q = Inr (task_view t q)
    \<and> convert_key_by sc (zone_key_by sc t) q = Inr (task_view t q)
    \<and> convert_write_sink sc (zone_write_sink sc t) q = Inr (task_view t q)
    \<and> plain_task (task_view t q) = plain_task t
    \<and> t_kind (task_view t q) = t_kind q \<and> (\<forall>l \<in> set (t_links (task_view t q)). t_kind l = Plain_task)"
proof -
  have "t_kind (plain_task l) = Plain_task" for l
    by (cases l) simp
  moreover have "plain_task (task_view t q) = plain_task t"
    by (cases t) (simp add: task_view_def)
  ultimately show ?thesis
    using task_codec.pack_zone [OF TrueI] write_source_codec.pack_zone [OF TrueI] key_by_codec.pack_zone [OF TrueI]
      write_sink_codec.pack_zone [OF TrueI] task_codec.conv_zone [OF assms TrueI]
      write_source_codec.conv_zone [OF assms TrueI] key_by_codec.conv_zone [OF assms TrueI]
      write_sink_codec.conv_zone [OF assms TrueI]
    by (auto simp: task_view_def)
qed

definition sample_tasks :: task where
  "sample_tasks = Task 0 0 1 (Write_queue_source 7) [Task 0 1 2 Key_by [Task 0 2 3 Write_sink []]]"

theorem task_roundtrip_witness:
  "convert_write_source plain_scalars (zone_write_source plain_scalars sample_tasks)
       (Task 9 9 9 (Write_queue_source 0) [])
     = Inr (Task 0 0 1 (Write_queue_source 0) [Task 0 1 2 Plain_task [Task 0 2 3 Plain_task []]])"
  using task_roundtrip [OF faithful_plain, of sample_tasks "Task 9 9 9 (Write_queue_source 0) []"]
  by (simp add: sample_tasks_def task_view_def)

end
