(* ===== verification/Jobs.thy ===== *)
theory Jobs
  imports Warehouse Storage Task_Codec
begin

text \<open>
  The jobs that move parcels between the warehouse and the storage
  (\<open>rhea_job/include/rhea_job/common/rhea_job.h\<close>, \<open>rhea_job/src/rhea_job.cpp\<close>): the tasks'
  \<open>Initialize\<close> and \<open>Run\<close>, and the task graphs of the jobs. The runtime that moves emitted parcels
  along the links is sentinel's; a task here returns what it emits. The temporary name of a
  parcel is built with \<open>CharStruct\<close>'s \<open>+=\<close>, so \<open>cs_of\<close> is applied to it.
\<close>

section \<open>Source tasks\<close>

text \<open>\<open>Initialize\<close>: the id of the first event names the server; the \<open>int\<close> is narrowed.\<close>

definition write_source_Initialize :: "parcel \<Rightarrow> u16 result" where
  "write_source_Initialize event = rbind (atoi (c_str (pid event))) (\<lambda>i. Inr (word_of_int i))"

definition read_source_Initialize :: "parcel \<Rightarrow> u16 result" where
  "read_source_Initialize event = rbind (atoi (c_str (pid event))) (\<lambda>i. Inr (word_of_int i))"

definition iof_source_Initialize :: "parcel \<Rightarrow> u16 result" where
  "iof_source_Initialize event = rbind (atoi (c_str (pid event))) (\<lambda>i. Inr (word_of_int i))"

definition temp_suffix :: "parcel \<Rightarrow> string" where
  "temp_suffix parcel = ''_temp'' @ to_string (unat (position parcel))"

text \<open>The shared containers and the storage, which all tasks act on.\<close>

type_synonym ('w, 't, 'q, 'f) world = "('w, 't, 'q) store \<times> 'f"

definition write_source_parcel ::
  "('w, 't, 'q) basket \<Rightarrow> 'f io_ops \<Rightarrow> int \<Rightarrow> parcel \<Rightarrow> ('w, 't, 'q, 'f) world \<Rightarrow> ('w, 't, 'q, 'f) world" where
  "write_source_parcel B IO now parcel w =
     (let (s, f) = w;
          data = GetData B parcel s;
          destination = parcel\<lparr>pid := cs_of B (pid parcel @ temp_suffix parcel), position := 0\<rparr>;
          source = parcel\<lparr>position := 0, buffer := data\<rparr>;
          f' = io_write IO (file_client IO) source destination f;
          s1 = snd (DeleteData B parcel s);
          s2 = snd (UpdateParcelStatus B now parcel IN_PROGRESS s1)
      in (s2, f'))"

definition write_source_round ::
  "('w, 't, 'q) basket \<Rightarrow> 'f io_ops \<Rightarrow> u16 \<Rightarrow> int \<Rightarrow> ('w, 't, 'q, 'f) world \<Rightarrow>
   (parcel list \<times> ('w, 't, 'q, 'f) world) option" where
  "write_source_round B IO server_id now w =
     map_option (\<lambda>(parsels, s). (parsels, fold (write_source_parcel B IO now) parsels (s, snd w)))
       (GetWriteParsel B server_id (fst w))"

definition read_source_parcel ::
  "('w, 't, 'q) basket \<Rightarrow> int \<Rightarrow> parcel \<Rightarrow> ('w, 't, 'q, 'f) world \<Rightarrow> ('w, 't, 'q, 'f) world" where
  "read_source_parcel B now parcel w = (snd (UpdateParcelStatus B now parcel IN_PROGRESS (fst w)), snd w)"

definition read_source_round ::
  "('w, 't, 'q) basket \<Rightarrow> u16 \<Rightarrow> int \<Rightarrow> ('w, 't, 'q, 'f) world \<Rightarrow>
   (parcel list \<times> ('w, 't, 'q, 'f) world) option" where
  "read_source_round B server_id now w =
     map_option (\<lambda>(parsels, s). (parsels, fold (read_source_parcel B now) parsels (s, snd w)))
       (GetReadParsel B server_id (fst w))"

definition iof_source_parcel ::
  "('w, 't, 'q) basket \<Rightarrow> 'f io_ops \<Rightarrow> int \<Rightarrow> parcel \<Rightarrow> ('w, 't, 'q, 'f) world \<Rightarrow> ('w, 't, 'q, 'f) world" where
  "iof_source_parcel B IO now parcel w =
     (let (s, f) = w;
          data = GetData B parcel s;
          destination = parcel;
          source = parcel\<lparr>position := 0, buffer := data\<rparr>;
          f' = io_write IO (io_client IO (storage_index parcel)) source destination f;
          s1 = snd (DeleteData B parcel s);
          s2 = snd (UpdateParcelStatus B now parcel DONE s1)
      in (s2, f'))"

definition iof_source_round ::
  "('w, 't, 'q) basket \<Rightarrow> 'f io_ops \<Rightarrow> u16 \<Rightarrow> int \<Rightarrow> ('w, 't, 'q, 'f) world \<Rightarrow>
   (parcel list \<times> ('w, 't, 'q, 'f) world) option" where
  "iof_source_round B IO server_id now w =
     map_option (\<lambda>(parsels, s). (parsels, fold (iof_source_parcel B IO now) parsels (s, snd w)))
       (GetWriteParsel B server_id (fst w))"

text \<open>
  \<open>Run\<close> of a source task: one round per time-out of its loop condition. Each element of the list
  is what the other processes do before that round, and the clock. The result has the emitted
  parcels; the loop ends when the condition is signalled.
\<close>

fun source_Run ::
  "(int \<Rightarrow> ('w, 't, 'q, 'f) world \<Rightarrow> (parcel list \<times> ('w, 't, 'q, 'f) world) option) \<Rightarrow>
   ((('w, 't, 'q, 'f) world \<Rightarrow> ('w, 't, 'q, 'f) world) \<times> int) list \<Rightarrow> ('w, 't, 'q, 'f) world \<Rightarrow>
   (parcel list \<times> ('w, 't, 'q, 'f) world) option" where
  "source_Run rnd [] w = Some ([], w)"
| "source_Run rnd ((others, now) # waits) w =
     (case rnd now (others w) of None \<Rightarrow> None | Some (ps, w') \<Rightarrow>
        map_option (\<lambda>(qs, w''). (ps @ qs, w'')) (source_Run rnd waits w'))"

section \<open>Key-by and sink tasks\<close>

text \<open>The key is the standard library's hash of the id up to its first NUL.\<close>

definition key_by_Run :: "(string \<Rightarrow> u64) \<Rightarrow> parcel \<Rightarrow> u64" where
  "key_by_Run hash_string event = hash_string (c_str (pid event))"

definition write_sink_Run ::
  "('w, 't, 'q) basket \<Rightarrow> 'f io_ops \<Rightarrow> int \<Rightarrow> parcel \<Rightarrow> ('w, 't, 'q, 'f) world \<Rightarrow> ('w, 't, 'q, 'f) world" where
  "write_sink_Run B IO now event w =
     (let (s, f) = w;
          destination = event;
          source = event;
          source = source\<lparr>pid := cs_of B (pid source @ temp_suffix event), position := 0\<rparr>;
          destination = destination\<lparr>position := 0\<rparr>;
          data = replicate (unat (data_size event)) (CHR 0x00);
          destination = destination\<lparr>buffer := data\<rparr>;
          data = io_read IO (file_client IO) source destination f;
          destination = destination\<lparr>buffer := data\<rparr>;
          f1 = io_remove IO (file_client IO) source f;
          source = source\<lparr>pid := pid event, position := position event\<rparr>;
          f2 = io_write IO (io_client IO (storage_index event)) destination source f1
      in (snd (UpdateParcelStatus B now event DONE s), f2))"

definition read_sink_Run ::
  "('w, 't, 'q) basket \<Rightarrow> 'f io_ops \<Rightarrow> int \<Rightarrow> parcel \<Rightarrow> ('w, 't, 'q, 'f) world \<Rightarrow> ('w, 't, 'q, 'f) world" where
  "read_sink_Run B IO now event w =
     (let (s, f) = w;
          destination = event;
          data = replicate (unat (data_size event)) (CHR 0x00);
          destination = destination\<lparr>buffer := data\<rparr>;
          source = event;
          data = io_read IO (io_client IO (storage_index event)) source destination f;
          s1 = snd (PutData B source data s)
      in (snd (UpdateParcelStatus B now event DONE s1), f))"

text \<open>The other \<open>Initialize\<close> and every \<open>Finalize\<close> that is written out: constant answers.\<close>

definition key_by_Initialize :: "parcel \<Rightarrow> bool" where "key_by_Initialize event = True"
definition sink_Initialize :: "parcel \<Rightarrow> bool" where "sink_Initialize event = True"
definition read_sink_Initialize :: "parcel \<Rightarrow> bool" where "read_sink_Initialize event = True"
definition source_Finalize :: "parcel \<Rightarrow> bool" where "source_Finalize event = True"
definition read_source_Finalize :: "parcel \<Rightarrow> bool" where "read_source_Finalize event = True"
definition iof_source_Finalize :: "parcel \<Rightarrow> bool" where "iof_source_Finalize event = True"
definition key_by_Finalize :: "parcel \<Rightarrow> bool" where "key_by_Finalize event = True"
definition sink_Finalize :: "parcel \<Rightarrow> bool" where "sink_Finalize event = False"
definition read_sink_Finalize :: "parcel \<Rightarrow> bool" where "read_sink_Finalize event = False"

section \<open>Task graphs\<close>

text \<open>
  \<open>CreateDAG\<close> of the three jobs; the types are set by the constructors of sentinel's
  \<open>SourceTask\<close>, \<open>KeyByTask\<close> and \<open>SinkTask\<close>: parameters.
\<close>

record type_codes =
  source_type :: int
  keyby_type :: int
  sink_type :: int

definition RheaWriteJob :: "type_codes \<Rightarrow> u32 \<Rightarrow> task" where
  "RheaWriteJob tc job =
     (let sink = Task job 2 (sink_type tc) Write_sink [];
          key_by = Task job 1 (keyby_type tc) Key_by [sink]
      in Task job 0 (source_type tc) (Write_queue_source 0) [key_by])"

definition IOFWriteJob :: "type_codes \<Rightarrow> u32 \<Rightarrow> task" where
  "IOFWriteJob tc job = Task job 0 (source_type tc) (IOF_write_source 0) []"

definition RheaReadJob :: "type_codes \<Rightarrow> u32 \<Rightarrow> task" where
  "RheaReadJob tc job =
     (let sink = Task job 1 (sink_type tc) Read_sink []
      in Task job 0 (source_type tc) (Read_queue_source 0) [sink])"

definition create_job_0 :: "type_codes \<Rightarrow> task" where "create_job_0 tc = RheaWriteJob tc 0"
definition create_job_1 :: "type_codes \<Rightarrow> task" where "create_job_1 tc = RheaReadJob tc 1"
definition create_job_2 :: "type_codes \<Rightarrow> task" where "create_job_2 tc = IOFWriteJob tc 2"
definition create_job_3 :: "type_codes \<Rightarrow> task" where "create_job_3 tc = IOFWriteJob tc 3"
definition create_job_4 :: "type_codes \<Rightarrow> task" where "create_job_4 tc = IOFWriteJob tc 4"

end
