(* ===== verification/Pipeline.thy ===== *)
theory Pipeline
  imports Client Jobs "HOL-Library.Multiset"
begin

text \<open>
  The paths of a parcel: from \<open>Publish\<close> through the write job to a file, through the direct write
  job, and from a file through the read job to \<open>GetSubscribedData\<close>.
\<close>

section \<open>Names and ranges\<close>

definition temp_file :: "('w, 't, 'q) basket \<Rightarrow> 'f io_ops \<Rightarrow> parcel \<Rightarrow> file_name" where
  "temp_file B IO p = (file_client IO, cs_of B (pid p @ temp_suffix p))"

definition target_file :: "'f io_ops \<Rightarrow> parcel \<Rightarrow> file_name" where
  "target_file IO p = (io_client IO (storage_index p), pid p)"

text \<open>Two parcels that go to different files, or to ranges of one file that do not overlap.\<close>

definition apart :: "'f io_ops \<Rightarrow> parcel \<Rightarrow> parcel \<Rightarrow> bool" where
  "apart IO p q = (target_file IO p \<noteq> target_file IO q
     \<or> unat (position p) + unat (data_size p) \<le> unat (position q)
     \<or> unat (position q) + unat (data_size q) \<le> unat (position p))"

definition all_apart :: "'f io_ops \<Rightarrow> parcel list \<Rightarrow> bool" where
  "all_apart IO ps = (distinct (map key_of ps)
     \<and> list_all (\<lambda>p. list_all (\<lambda>q. key_of p = key_of q \<or> apart IO p q) ps) ps)"

text \<open>Parcels whose temporary files do not get in each other's or anybody's way.\<close>

definition temps_apart :: "('w, 't, 'q) basket \<Rightarrow> 'f io_ops \<Rightarrow> parcel list \<Rightarrow> bool" where
  "temps_apart B IO ps = (distinct (map (temp_file B IO) ps)
     \<and> list_all (\<lambda>p. list_all (\<lambda>q. temp_file B IO p \<noteq> target_file IO q) ps) ps)"

text \<open>The bytes of a parcel are in its file, at its position.\<close>

definition in_file :: "'f io_ops \<Rightarrow> 'f \<Rightarrow> parcel \<Rightarrow> string \<Rightarrow> bool" where
  "in_file IO f p d = (case files IO f (target_file IO p) of None \<Rightarrow> False
     | Some c \<Rightarrow> unat (position p) + unat (data_size p) \<le> length c
         \<and> slice c (unat (position p)) (unat (data_size p)) = d)"

definition in_temp :: "('w, 't, 'q) basket \<Rightarrow> 'f io_ops \<Rightarrow> 'f \<Rightarrow> parcel \<Rightarrow> string \<Rightarrow> bool" where
  "in_temp B IO f p d = (case files IO f (temp_file B IO p) of None \<Rightarrow> False
     | Some c \<Rightarrow> unat (data_size p) \<le> length c \<and> slice c 0 (unat (data_size p)) = d)"

lemma wire_congs:
  assumes "wire_of p = wire_of q"
  shows "key_of p = key_of q" "temp_file B IO p = temp_file B IO q" "target_file IO p = target_file IO q"
    "position p = position q" "data_size p = data_size q"
    "in_file IO f p d = in_file IO f q d" "in_temp B IO f p d = in_temp B IO f q d"
    "apart IO p r = apart IO q r" "apart IO r p = apart IO r q"
proof -
  from assms have e: "pid p = pid q" "position p = position q" "data_size p = data_size q"
    "storage_index p = storage_index q" "unique_id p = unique_id q"
    by (simp_all add: wire_of_def)
  show "key_of p = key_of q" "temp_file B IO p = temp_file B IO q" "target_file IO p = target_file IO q"
    "position p = position q" "data_size p = data_size q"
    "in_file IO f p d = in_file IO f q d" "in_temp B IO f p d = in_temp B IO f q d"
    "apart IO p r = apart IO q r" "apart IO r p = apart IO r q"
    by (simp_all add: e key_of_def temp_file_def temp_suffix_def target_file_def in_file_def
        in_temp_def apart_def cong: option.case_cong)
qed

section \<open>One parcel through each task\<close>

text \<open>A splice of the target file: the parcel gets its bytes, parcels apart from it keep theirs.\<close>

lemma in_file_own:
  assumes "files IO f' = (files IO f)(target_file IO p \<mapsto> splice old (unat (position p)) d)"
    "length d = unat (data_size p)"
  shows "in_file IO f' p d"
  using assms slice_splice_same [of old "unat (position p)" d]
  by (simp add: in_file_def splice_length)

lemma in_file_other:
  assumes "files IO f' = F(target_file IO q \<mapsto> splice (old_content (F (target_file IO q))) (unat (position q)) d)"
    "F (target_file IO p) = files IO f (target_file IO p)"
    "length d = unat (data_size q)" "apart IO p q" "in_file IO f p e"
  shows "in_file IO f' p e"
proof (cases "target_file IO p = target_file IO q")
  case True
  from assms(5) obtain c where c: "files IO f (target_file IO p) = Some c"
    "unat (position p) + unat (data_size p) \<le> length c" "slice c (unat (position p)) (unat (data_size p)) = e"
    by (auto simp: in_file_def split: option.splits)
  moreover have "slice (splice c (unat (position q)) d) (unat (position p)) (unat (data_size p))
      = slice c (unat (position p)) (unat (data_size p))"
    using assms(3,4) True c(2) by (intro slice_splice_other) (auto simp: apart_def)
  ultimately show ?thesis
    using assms(1,2) True by (simp add: in_file_def old_content_def splice_length)
next
  case False
  with assms(1,2,5) show ?thesis by (simp add: in_file_def)
qed

lemma write_source_effect:
  assumes "basket_laws B" "io_laws IO" "data_of B (fst w) (key_of p) = Some d" "length d = unat (data_size p)"
    "w' = write_source_parcel B IO now p w"
  shows "data_of B (fst w') = (data_of B (fst w))(key_of p := None)"
    "state_of B (fst w') = (state_of B (fst w))(key_of p \<mapsto> ParcelState now IN_PROGRESS)"
    "to_write B (fst w') = to_write B (fst w)"
    "\<exists>old. files IO (snd w') = (files IO (snd w))(temp_file B IO p \<mapsto> splice old 0 d)"
    "in_temp B IO (snd w') p d"
proof -
  obtain s f where w: "w = (s, f)" by (cases w)
  from assms(3) w have s: "data_of B s (key_of p) = Some d" by simp
  have g: "GetData B p s = d" by (rule get_data_stored [OF assms(1) s])
  let ?dst = "p\<lparr>pid := cs_of B (pid p @ temp_suffix p), position := 0\<rparr>"
  let ?src = "p\<lparr>position := 0, buffer := d\<rparr>"
  have w': "fst w' = snd (write_side.consume B now IN_PROGRESS p s)"
    "snd w' = io_write IO (file_client IO) ?src ?dst f"
    by (simp_all add: assms(5) w write_source_parcel_def Let_def g write_side.consume_def)
  obtain d' s' where c: "write_side.consume B now IN_PROGRESS p s = (d', s')"
    by (cases "write_side.consume B now IN_PROGRESS p s")
  from write_side.consume_effect [OF assms(1) s c]
  show "data_of B (fst w') = (data_of B (fst w))(key_of p := None)"
    "state_of B (fst w') = (state_of B (fst w))(key_of p \<mapsto> ParcelState now IN_PROGRESS)"
    "to_write B (fst w') = to_write B (fst w)"
    by (simp_all add: w' c w)
  have f: "files IO (snd w') = (files IO f)(temp_file B IO p \<mapsto>
      splice (old_content (files IO f (temp_file B IO p))) 0 d)"
    using io_write_files [OF assms(2), of ?src "file_client IO" ?dst f] assms(4)
    by (simp add: w'(2) temp_file_def)
  then show "\<exists>old. files IO (snd w') = (files IO (snd w))(temp_file B IO p \<mapsto> splice old 0 d)"
    using w by auto
  show "in_temp B IO (snd w') p d"
    using f slice_splice_same [of _ 0 d] assms(4) by (simp add: in_temp_def splice_length)
qed

lemma write_sink_effect:
  assumes "basket_laws B" "io_laws IO" "in_temp B IO (snd w) p d" "length d = unat (data_size p)"
    "temp_file B IO p \<noteq> target_file IO p" "w' = write_sink_Run B IO now p w"
  shows "data_of B (fst w') = data_of B (fst w)"
    "state_of B (fst w') = (state_of B (fst w))(key_of p \<mapsto> ParcelState now DONE)"
    "files IO (snd w') = (files IO (snd w))(temp_file B IO p := None, target_file IO p \<mapsto>
       splice (old_content (files IO (snd w) (target_file IO p))) (unat (position p)) d)"
    "in_file IO (snd w') p d"
proof -
  obtain s f where w: "w = (s, f)" by (cases w)
  let ?temp = "p\<lparr>pid := cs_of B (pid p @ temp_suffix p), position := 0\<rparr>"
  let ?buf = "p\<lparr>position := 0, buffer := replicate (unat (data_size p)) (CHR 0x00)\<rparr>"
  let ?full = "p\<lparr>position := 0, buffer := d\<rparr>"
  let ?f1 = "io_remove IO (file_client IO) ?temp f"
  from assms(3) obtain c where c: "files IO f (temp_file B IO p) = Some c" "unat (data_size p) \<le> length c"
    "slice c 0 (unat (data_size p)) = d"
    by (auto simp: in_temp_def w split: option.splits)
  have read: "io_read IO (file_client IO) ?temp ?buf f = d"
    using io_read_buffer [OF assms(2), of f "file_client IO" ?temp c ?buf] c
    by (simp add: temp_file_def)
  have w': "w' = (snd (UpdateParcelStatus B now p DONE s), io_write IO (io_client IO (storage_index p)) ?full p ?f1)"
    using read by (simp add: assms(6) w write_sink_Run_def Let_def)
  show "data_of B (fst w') = data_of B (fst w)"
    "state_of B (fst w') = (state_of B (fst w))(key_of p \<mapsto> ParcelState now DONE)"
    using assms(1) by (simp_all add: w w')
  have f1: "files IO ?f1 = (files IO f)(temp_file B IO p := None)"
    using io_remove_files [OF assms(2), of "file_client IO" ?temp f] by (simp add: temp_file_def)
  have "files IO (snd w') = (files IO ?f1)(target_file IO p \<mapsto>
      splice (old_content (files IO ?f1 (target_file IO p))) (unat (position p)) d)"
    using io_write_files [OF assms(2), of ?full "io_client IO (storage_index p)" p ?f1] assms(4)
    by (simp add: w' target_file_def)
  then show f: "files IO (snd w') = (files IO (snd w))(temp_file B IO p := None, target_file IO p \<mapsto>
       splice (old_content (files IO (snd w) (target_file IO p))) (unat (position p)) d)"
    using assms(5) by (simp add: f1 w)
  then show "in_file IO (snd w') p d"
    using assms(4) slice_splice_same [of _ "unat (position p)" d]
    by (simp add: in_file_def splice_length)
qed

lemma iof_source_effect:
  assumes "basket_laws B" "io_laws IO" "data_of B (fst w) (key_of p) = Some d" "length d = unat (data_size p)"
    "w' = iof_source_parcel B IO now p w"
  shows "data_of B (fst w') = (data_of B (fst w))(key_of p := None)"
    "state_of B (fst w') = (state_of B (fst w))(key_of p \<mapsto> ParcelState now DONE)"
    "files IO (snd w') = (files IO (snd w))(target_file IO p \<mapsto>
       splice (old_content (files IO (snd w) (target_file IO p))) (unat (position p)) d)"
    "in_file IO (snd w') p d"
proof -
  obtain s f where w: "w = (s, f)" by (cases w)
  from assms(3) w have s: "data_of B s (key_of p) = Some d" by simp
  have g: "GetData B p s = d" by (rule get_data_stored [OF assms(1) s])
  let ?src = "p\<lparr>position := 0, buffer := d\<rparr>"
  have w': "fst w' = snd (write_side.consume B now DONE p s)"
    "snd w' = io_write IO (io_client IO (storage_index p)) ?src p f"
    by (simp_all add: assms(5) w iof_source_parcel_def Let_def g write_side.consume_def)
  obtain d' s' where c: "write_side.consume B now DONE p s = (d', s')"
    by (cases "write_side.consume B now DONE p s")
  from write_side.consume_effect [OF assms(1) s c]
  show "data_of B (fst w') = (data_of B (fst w))(key_of p := None)"
    "state_of B (fst w') = (state_of B (fst w))(key_of p \<mapsto> ParcelState now DONE)"
    by (simp_all add: w' c w)
  show f: "files IO (snd w') = (files IO (snd w))(target_file IO p \<mapsto>
       splice (old_content (files IO (snd w) (target_file IO p))) (unat (position p)) d)"
    using io_write_files [OF assms(2), of ?src "io_client IO (storage_index p)" p f] assms(4)
    by (simp add: w'(2) w target_file_def)
  then show "in_file IO (snd w') p d"
    using assms(4) by (rule in_file_own)
qed

section \<open>Many parcels\<close>

lemma all_apartD:
  assumes "all_apart IO ps" "p \<in> set ps" "q \<in> set ps" "p \<noteq> q"
  shows "key_of p \<noteq> key_of q" "apart IO p q"
proof -
  show "key_of p \<noteq> key_of q"
    using assms by (auto simp: all_apart_def distinct_map inj_on_def)
  with assms show "apart IO p q"
    by (auto simp: all_apart_def list_all_iff)
qed

lemma temps_apartD:
  assumes "temps_apart B IO ps" "p \<in> set ps" "q \<in> set ps"
  shows "temp_file B IO p \<noteq> target_file IO q" "p \<noteq> q \<Longrightarrow> temp_file B IO p \<noteq> temp_file B IO q"
  using assms by (auto simp: temps_apart_def distinct_map inj_on_def list_all_iff)

lemma all_apart_distinct: "all_apart IO ps \<Longrightarrow> distinct ps"
  by (auto simp: all_apart_def distinct_map)

text \<open>The source task over the parcels it popped.\<close>

lemma write_source_all:
  fixes B :: "('w, 't, 'q) basket" and IO :: "'f io_ops"
  assumes "basket_laws B" "io_laws IO" "all_apart IO ps" "temps_apart B IO ps"
    and d: "\<And>p. p \<in> set ps \<Longrightarrow> data_of B s (key_of p) = Some (d (key_of p)) \<and> length (d (key_of p)) = unat (data_size p)"
    and w: "w = fold (write_source_parcel B IO now) ps (s, f)" and "p \<in> set ps"
  shows "in_temp B IO (snd w) p (d (key_of p)) \<and> data_of B (fst w) (key_of p) = None"
proof -
  let ?pre = "\<lambda>p (w :: ('w, 't, 'q, 'f) world). data_of B (fst w) (key_of p) = Some (d (key_of p)) \<and> length (d (key_of p)) = unat (data_size p)"
  let ?post = "\<lambda>p (w :: ('w, 't, 'q, 'f) world). in_temp B IO (snd w) p (d (key_of p)) \<and> data_of B (fst w) (key_of p) = None"
  note eff = write_source_effect [OF assms(1,2) _ _ refl]
  show ?thesis
    unfolding w
  proof (rule fold_establish [of ps ?pre _ ?post "write_source_parcel B IO now"])
    fix x y :: parcel and w :: "('w, 't, 'q, 'f) world"
    assume xy: "x \<in> set ps" "y \<in> set ps" "x \<noteq> y" and y: "?pre y w"
    note ne = all_apartD(1) [OF assms(3) xy] temps_apartD(2) [OF assms(4) xy]
    show "?pre x (write_source_parcel B IO now y w)" if "?pre x w"
      using that y ne by (simp add: eff(1))
    show "?post x (write_source_parcel B IO now y w)" if "?post x w"
    proof -
      obtain old where "files IO (snd (write_source_parcel B IO now y w))
          = (files IO (snd w))(temp_file B IO y \<mapsto> splice old 0 (d (key_of y)))"
        using eff(4) y by blast
      with that y ne show ?thesis by (simp add: eff(1) in_temp_def)
    qed
  qed (use assms d all_apart_distinct eff in auto)
qed

text \<open>The sink task over the parcels, in whatever order they reach it.\<close>

definition stored_as :: "('w, 't, 'q) basket \<Rightarrow> 'f io_ops \<Rightarrow> int \<Rightarrow> ('w, 't, 'q, 'f) world \<Rightarrow> parcel \<Rightarrow> string \<Rightarrow> bool" where
  "stored_as B IO now w p d = (in_file IO (snd w) p d
     \<and> state_of B (fst w) (key_of p) = Some (ParcelState now DONE) \<and> data_of B (fst w) (key_of p) = None)"

lemma stored_as_wire: "wire_of p = wire_of q \<Longrightarrow> stored_as B IO now w p d = stored_as B IO now w q d"
  by (simp add: stored_as_def wire_congs [of p q])

lemma write_sink_all:
  fixes B :: "('w, 't, 'q) basket" and IO :: "'f io_ops"
  assumes "basket_laws B" "io_laws IO" "all_apart IO ps" "temps_apart B IO ps"
    and d: "\<And>p. p \<in> set ps \<Longrightarrow> in_temp B IO (snd w) p (d (key_of p))
      \<and> length (d (key_of p)) = unat (data_size p) \<and> data_of B (fst w) (key_of p) = None"
    and "p \<in> set ps"
  shows "stored_as B IO now (fold (write_sink_Run B IO now) ps w) p (d (key_of p))
    \<and> files IO (snd (fold (write_sink_Run B IO now) ps w)) (temp_file B IO p) = None"
proof -
  let ?pre = "\<lambda>p (w :: ('w, 't, 'q, 'f) world). in_temp B IO (snd w) p (d (key_of p)) \<and> length (d (key_of p)) = unat (data_size p)
    \<and> data_of B (fst w) (key_of p) = None"
  let ?post = "\<lambda>p (w :: ('w, 't, 'q, 'f) world). stored_as B IO now w p (d (key_of p)) \<and> files IO (snd w) (temp_file B IO p) = None"
  note eff = write_sink_effect [OF assms(1,2) _ _ _ refl]
  show ?thesis
  proof (rule fold_establish [of ps ?pre _ ?post "write_sink_Run B IO now"])
    fix x :: parcel and w :: "('w, 't, 'q, 'f) world"
    assume x: "x \<in> set ps" and pre: "?pre x w"
    note ne = temps_apartD(1) [OF assms(4) x x]
    show "?post x (write_sink_Run B IO now x w)"
      using pre ne eff [of w x "d (key_of x)" now] by (simp add: stored_as_def)
  next
    fix x y :: parcel and w :: "('w, 't, 'q, 'f) world"
    assume xy: "x \<in> set ps" "y \<in> set ps" "x \<noteq> y" and y: "?pre y w"
    note ne = all_apartD [OF assms(3) xy] temps_apartD [OF assms(4) xy(1,2)] temps_apartD [OF assms(4) xy(2,1)]
      temps_apartD(1) [OF assms(4) xy(2) xy(2)]
    note e = eff [of w y "d (key_of y)" now]
    from y temps_apartD(1) [OF assms(4) xy(2) xy(2)] have f: "files IO (snd (write_sink_Run B IO now y w)) =
        (files IO (snd w))(temp_file B IO y := None, target_file IO y \<mapsto>
          splice (old_content (files IO (snd w) (target_file IO y))) (unat (position y)) (d (key_of y)))"
      by (intro e(3)) auto
    show "?pre x (write_sink_Run B IO now y w)" if "?pre x w"
      using that y ne xy e(1) by (simp add: in_temp_def f)
    show "?post x (write_sink_Run B IO now y w)" if "?post x w"
    proof -
      let ?F = "(files IO (snd w))(temp_file B IO y := None)"
      have "files IO (snd (write_sink_Run B IO now y w)) = ?F(target_file IO y \<mapsto>
          splice (old_content (?F (target_file IO y))) (unat (position y)) (d (key_of y)))"
        using f temps_apartD(1) [OF assms(4) xy(2) xy(2)] by simp
      then have "in_file IO (snd (write_sink_Run B IO now y w)) x (d (key_of x))"
        by (rule in_file_other) (use that y ne xy in \<open>auto simp: stored_as_def\<close>)
      with that y ne xy e(1,2) show ?thesis
        by (simp add: stored_as_def f)
    qed
  qed (use assms d all_apart_distinct in auto)
qed

section \<open>What the conditions depend on\<close>

lemma map_wire_nth:
  assumes "map wire_of es = map wire_of ps"
  shows "length es = length ps" "\<And>i. i < length ps \<Longrightarrow> wire_of (es ! i) = wire_of (ps ! i)"
  using assms by (metis length_map, metis length_map nth_map)

lemma map_wire_cong:
  assumes "map wire_of es = map wire_of ps" "\<And>p q. wire_of p = wire_of q \<Longrightarrow> g p = g q"
  shows "map g es = map g ps"
proof (rule nth_equalityI)
  show "length (map g es) = length (map g ps)"
    using map_wire_nth(1) [OF assms(1)] by simp
  fix i assume "i < length (map g es)"
  then have i: "i < length es" "i < length ps"
    using map_wire_nth(1) [OF assms(1)] by simp_all
  have "g (es ! i) = g (ps ! i)"
    by (rule assms(2)) (rule map_wire_nth(2) [OF assms(1) i(2)])
  with i show "map g es ! i = map g ps ! i" by simp
qed

lemma list_all_wire:
  assumes "map wire_of es = map wire_of ps" "\<And>p q. wire_of p = wire_of q \<Longrightarrow> g p = g q"
  shows "list_all g es = list_all g ps"
proof -
  have "list_all (\<lambda>b. b) (map g es) = list_all (\<lambda>b. b) (map g ps)"
    using map_wire_cong [OF assms] by simp
  then show ?thesis by (simp add: list.pred_map comp_def)
qed

lemma all_apart_wire:
  assumes "map wire_of es = map wire_of ps"
  shows "all_apart IO es = all_apart IO ps" "temps_apart B IO es = temps_apart B IO ps"
proof -
  have 1: "map key_of es = map key_of ps" "map (temp_file B IO) es = map (temp_file B IO) ps"
    by (rule map_wire_cong [OF assms]; rule wire_congs; assumption)+
  let ?g = "\<lambda>p q. key_of p = key_of q \<or> apart IO p q"
  let ?h = "\<lambda>p q. temp_file B IO p \<noteq> target_file IO q"
  have "?g p q = ?g p r" "?h p q = ?h p r" "?g q p = ?g r p" "?h q p = ?h r p"
    if "wire_of q = wire_of r" for p q r
    by (simp_all only: wire_congs [OF that])
  then have 2: "list_all (?g p) es = list_all (?g p) ps" "list_all (?h p) es = list_all (?h p) ps"
    and 3: "list_all (\<lambda>p. list_all (?g p) ps) es = list_all (\<lambda>p. list_all (?g p) ps) ps"
    "list_all (\<lambda>p. list_all (?h p) ps) es = list_all (\<lambda>p. list_all (?h p) ps) ps" for p
    by (intro list_all_wire [OF assms] list.pred_cong refl; blast)+
  show "all_apart IO es = all_apart IO ps" "temps_apart B IO es = temps_apart B IO ps"
    by (simp_all only: all_apart_def temps_apart_def 1 2 3)
qed

lemma all_apart_perm:
  assumes "mset es = mset ps"
  shows "all_apart IO es = all_apart IO ps" "temps_apart B IO es = temps_apart B IO ps"
proof -
  have "set es = set ps" by (rule mset_eq_setD [OF assms])
  moreover have "distinct (map key_of es) = distinct (map key_of ps)"
    "distinct (map (temp_file B IO) es) = distinct (map (temp_file B IO) ps)"
    using assms by (metis mset_eq_imp_distinct_iff mset_map)+
  ultimately show "all_apart IO es = all_apart IO ps" "temps_apart B IO es = temps_apart B IO ps"
    by (simp_all add: all_apart_def temps_apart_def list_all_iff)
qed

lemma map_wire_set:
  assumes "map wire_of es = map wire_of ps" "p \<in> set ps"
  obtains e where "e \<in> set es" "wire_of e = wire_of p"
proof -
  from assms(2) have "wire_of p \<in> set (map wire_of ps)" by simp
  then have "wire_of p \<in> set (map wire_of es)" by (simp only: assms(1))
  with that show thesis by auto
qed

text \<open>The data of every parcel of a list are in the warehouse, with the announced sizes.\<close>

definition holds_data :: "('w, 't, 'q) basket \<Rightarrow> ('w, 't, 'q) store \<Rightarrow> (parcel_key \<Rightarrow> string) \<Rightarrow> parcel list \<Rightarrow> bool" where
  "holds_data B s d ps = (\<forall>p \<in> set ps. data_of B s (key_of p) = Some (d (key_of p))
     \<and> length (d (key_of p)) = unat (data_size p))"

lemma holds_data_wire:
  assumes "map wire_of es = map wire_of ps" "holds_data B s d ps" "p \<in> set es"
  shows "data_of B s (key_of p) = Some (d (key_of p)) \<and> length (d (key_of p)) = unat (data_size p)"
proof -
  obtain q where "q \<in> set ps" "wire_of q = wire_of p"
    using map_wire_set [OF assms(1) [symmetric] assms(3)] by blast
  with assms(2) wire_congs [of q p] show ?thesis by (auto simp: holds_data_def)
qed

text \<open>A whole run of the write job over popped parcels \<open>es\<close>, delivered in the order \<open>qs\<close>.\<close>

lemma write_job_run:
  assumes "basket_laws B" "io_laws IO" "map wire_of es = map wire_of ps"
    "all_apart IO ps" "temps_apart B IO ps" "holds_data B s d ps"
    and w1: "w1 = fold (write_source_parcel B IO now) es (s, f)"
    and qs: "mset qs = mset es" and p: "p \<in> set ps"
  shows "stored_as B IO now' (fold (write_sink_Run B IO now') qs w1) p (d (key_of p))
    \<and> files IO (snd (fold (write_sink_Run B IO now') qs w1)) (temp_file B IO p) = None"
proof -
  have ae: "all_apart IO es" "temps_apart B IO es"
    using assms(4,5) by (simp_all add: all_apart_wire [OF assms(3)])
  have de: "data_of B s (key_of p) = Some (d (key_of p)) \<and> length (d (key_of p)) = unat (data_size p)"
    if "p \<in> set es" for p
    using holds_data_wire [OF assms(3,6) that] by simp
  have src: "in_temp B IO (snd w1) p (d (key_of p)) \<and> data_of B (fst w1) (key_of p) = None" if "p \<in> set es" for p
    by (rule write_source_all [OF assms(1,2) ae de w1 that])
  obtain e where e: "e \<in> set es" "wire_of e = wire_of p"
    using map_wire_set [OF assms(3) p] .
  have set: "set qs = set es" by (rule mset_eq_setD [OF qs])
  have "stored_as B IO now' (fold (write_sink_Run B IO now') qs w1) e (d (key_of e))
      \<and> files IO (snd (fold (write_sink_Run B IO now') qs w1)) (temp_file B IO e) = None"
    using ae src de e(1)
    by (intro write_sink_all [OF assms(1,2)]) (auto simp: all_apart_perm [OF qs] set)
  then show ?thesis
    by (simp add: stored_as_wire [OF e(2)] wire_congs [OF e(2)])
qed

section \<open>Properties: the write jobs\<close>

text \<open>
  C9. The write job, end to end: all parcels waiting for a server, whose data are in the
  warehouse, whose ranges do not overlap and whose temporary files do not clash, go through the
  source task and then, in any order of delivery, through the sink task; after that each one's
  bytes are in its file at its position, its state is DONE, its data have left the warehouse
  and its temporary file is gone.
\<close>

theorem write_job_stores:
  assumes "basket_laws B" "io_laws IO" "to_write B s srv = map wire_of ps"
    "all_apart IO ps" "temps_apart B IO ps" "holds_data B s d ps"
  shows "\<exists>es w1. write_source_round B IO srv now (s, f) = Some (es, w1) \<and> map wire_of es = map wire_of ps
    \<and> (\<forall>qs. mset qs = mset es \<longrightarrow> (\<forall>p \<in> set ps.
          stored_as B IO now' (fold (write_sink_Run B IO now') qs w1) p (d (key_of p))
          \<and> files IO (snd (fold (write_sink_Run B IO now') qs w1)) (temp_file B IO p) = None))"
proof -
  obtain es s1 where es: "GetWriteParsel B srv s = Some (es, s1)" "map wire_of es = map wire_of ps"
    and s1: "data_of B s1 = data_of B s"
    using write_parcels_taken [OF assms(1), of srv s] assms(3) by metis
  have "holds_data B s1 d ps" using assms(6) by (simp add: holds_data_def s1)
  note run = write_job_run [OF assms(1,2) es(2) assms(4,5) this refl, where now = now and f = f and now' = now']
  have "write_source_round B IO srv now (s, f) = Some (es, fold (write_source_parcel B IO now) es (s1, f))"
    by (simp add: write_source_round_def es)
  with es(2) run show ?thesis by blast
qed

text \<open>Two parcels that share a file, with their data waiting.\<close>

definition two_parcels :: "parcel list" where
  "two_parcels = [sample_parcel\<lparr>position := 0\<rparr>, sample_parcel\<lparr>unique_id := 4, position := 4\<rparr>]"

definition two_data :: "parcel_key \<Rightarrow> string" where
  "two_data k = (if snd k = 3 then ''abcd'' else ''wxyz'')"

definition two_store ::
  "(parcel_key \<Rightarrow> string option, parcel_key \<Rightarrow> parcel_state option, u16 \<Rightarrow> parcel list) store" where
  "two_store = local_store\<lparr>warehouse := (\<lambda>k. Some (two_data k)), write_queue := (\<lambda>_. two_parcels)\<rparr>"

lemma two_parcels_fit:
  "all_apart memory_io two_parcels" "temps_apart local_basket memory_io two_parcels"
  "holds_data local_basket two_store two_data two_parcels"
  by (simp_all add: all_apart_def temps_apart_def holds_data_def two_parcels_def sample_parcel_def
      key_of_def apart_def temp_file_def target_file_def temp_suffix_def memory_io_def
      to_string.simps digit_char_def two_store_def two_data_def)

theorem write_job_stores_witness:
  "\<exists>es w1. write_source_round local_basket memory_io 0 5 (two_store, (\<lambda>_. None)) = Some (es, w1)
     \<and> (\<forall>p \<in> set two_parcels. stored_as local_basket memory_io 6
          (fold (write_sink_Run local_basket memory_io 6) (rev es) w1) p (two_data (key_of p)))"
proof -
  have "to_write local_basket two_store 0 = map wire_of two_parcels"
    by (simp add: two_store_def)
  from write_job_stores [OF local_basket_laws memory_io_laws this two_parcels_fit, of 5 "\<lambda>_. None" 6]
  obtain es w1 where "write_source_round local_basket memory_io 0 5 (two_store, (\<lambda>_. None)) = Some (es, w1)"
    "\<forall>qs. mset qs = mset es \<longrightarrow> (\<forall>p \<in> set two_parcels. stored_as local_basket memory_io 6
        (fold (write_sink_Run local_basket memory_io 6) qs w1) p (two_data (key_of p)))"
    by blast
  then show ?thesis by (metis mset_rev)
qed

text \<open>
  The direct write job: one round of \<open>IOFWriteQueueSourceTask\<close> takes all parcels waiting for
  the server, puts their bytes at their positions in their files and marks them DONE, if their
  ranges do not overlap.
\<close>

theorem iof_job_stores:
  fixes B :: "('w, 't, 'q) basket" and IO :: "'f io_ops"
  assumes "basket_laws B" "io_laws IO" "to_write B s srv = map wire_of ps"
    "all_apart IO ps" "holds_data B s d ps"
  shows "\<exists>es w1. iof_source_round B IO srv now (s, f) = Some (es, w1) \<and> map wire_of es = map wire_of ps
    \<and> (\<forall>p \<in> set ps. stored_as B IO now w1 p (d (key_of p)))"
proof -
  obtain es s1 where es: "GetWriteParsel B srv s = Some (es, s1)" "map wire_of es = map wire_of ps"
    and s1: "data_of B s1 = data_of B s"
    using write_parcels_taken [OF assms(1), of srv s] assms(3) by metis
  let ?pre = "\<lambda>p (w :: ('w, 't, 'q, 'f) world). data_of B (fst w) (key_of p) = Some (d (key_of p))
    \<and> length (d (key_of p)) = unat (data_size p)"
  let ?post = "\<lambda>p (w :: ('w, 't, 'q, 'f) world). stored_as B IO now w p (d (key_of p))"
  have ae: "all_apart IO es" using assms(4) by (simp add: all_apart_wire [OF es(2)])
  note eff = iof_source_effect [OF assms(1,2) _ _ refl]
  have all: "?post p (fold (iof_source_parcel B IO now) es (s1, f))" if "p \<in> set es" for p
  proof (rule fold_establish [of es ?pre _ ?post "iof_source_parcel B IO now"])
    fix x y :: parcel and w :: "('w, 't, 'q, 'f) world"
    assume xy: "x \<in> set es" "y \<in> set es" "x \<noteq> y" and y: "?pre y w"
    note ne = all_apartD [OF ae xy]
    note e = eff [of w y "d (key_of y)" now]
    show "?pre x (iof_source_parcel B IO now y w)" if "?pre x w"
      using that y ne e(1) by simp
    show "?post x (iof_source_parcel B IO now y w)" if "?post x w"
    proof -
      have "in_file IO (snd (iof_source_parcel B IO now y w)) x (d (key_of x))"
        by (rule in_file_other [OF e(3)]) (use that y ne in \<open>auto simp: stored_as_def\<close>)
      with that y ne e(1,2) show ?thesis by (simp add: stored_as_def)
    qed
  next
    fix x :: parcel and w :: "('w, 't, 'q, 'f) world"
    assume "?pre x w"
    with eff [of w x "d (key_of x)" now] show "?post x (iof_source_parcel B IO now x w)"
      by (simp add: stored_as_def)
  qed (use that ae all_apart_distinct holds_data_wire [OF es(2) assms(5)] s1 in auto)
  have "stored_as B IO now (fold (iof_source_parcel B IO now) es (s1, f)) p (d (key_of p))" if "p \<in> set ps" for p
  proof -
    obtain e where "e \<in> set es" "wire_of e = wire_of p"
      using map_wire_set [OF es(2) \<open>p \<in> set ps\<close>] .
    with all show ?thesis by (metis stored_as_wire wire_congs(1))
  qed
  with es show ?thesis
    by (simp add: iof_source_round_def)
qed

theorem iof_job_stores_witness:
  "\<exists>es w1. iof_source_round local_basket memory_io 0 5 (two_store, (\<lambda>_. None)) = Some (es, w1)
     \<and> (\<forall>p \<in> set two_parcels. stored_as local_basket memory_io 5 w1 p (two_data (key_of p)))"
  using iof_job_stores [OF local_basket_laws memory_io_laws _ two_parcels_fit(1,3), of 0 5 "\<lambda>_. None"]
  by (auto simp: two_store_def)

text \<open>
  The name of the temporary file is a function of id and position alone, and determines both
  (as long as \<open>CharStruct\<close> keeps the names whole): the \<open>unique_id\<close> and the storage index of a
  parcel are not part of it.
\<close>

theorem temp_file_determines:
  assumes "cs_of B (pid p @ temp_suffix p) = pid p @ temp_suffix p"
    "cs_of B (pid q @ temp_suffix q) = pid q @ temp_suffix q"
  shows "temp_file B IO p = temp_file B IO q \<longleftrightarrow> pid p = pid q \<and> position p = position q"
proof
  assume "temp_file B IO p = temp_file B IO q"
  then have "pid p @ temp_suffix p = pid q @ temp_suffix q"
    by (simp only: temp_file_def prod.inject assms)
  then have "(pid p @ ''_tem'') @ CHR ''p'' # to_string (unat (position p))
      = (pid q @ ''_tem'') @ CHR ''p'' # to_string (unat (position q))"
    by (simp add: temp_suffix_def)
  from append_to_string_inject [OF _ this] show "pid p = pid q \<and> position p = position q"
    by (simp add: is_digit_def word_unat_eq_iff)
qed (simp add: temp_file_def temp_suffix_def)

theorem temp_file_determines_witness:
  "temp_file local_basket memory_io sample_parcel = temp_file local_basket memory_io (sample_parcel\<lparr>storage_index := 9, unique_id := 8\<rparr>)
   \<and> temp_file local_basket memory_io sample_parcel \<noteq> temp_file local_basket memory_io (sample_parcel\<lparr>pid := ''7_temp1''\<rparr>)"
  using temp_file_determines [of local_basket sample_parcel "sample_parcel\<lparr>storage_index := 9, unique_id := 8\<rparr>" memory_io]
    temp_file_determines [of local_basket sample_parcel "sample_parcel\<lparr>pid := ''7_temp1''\<rparr>" memory_io]
  by (simp add: sample_parcel_def)

text \<open>
  C38. So two parcels with the same id and position, say for different storages, share a
  temporary file: when the source task handles both before the sink task, the file of the first
  one gets the bytes of the second, and the temporary file of the second one is gone before its
  sink task runs.
\<close>

theorem temp_file_clash:
  assumes "basket_laws B" "io_laws IO" "key_of p \<noteq> key_of q" "temp_file B IO p = temp_file B IO q"
    "data_of B (fst w) (key_of p) = Some dp" "length dp = unat (data_size p)"
    "data_of B (fst w) (key_of q) = Some dq" "length dq = unat (data_size q)"
    "data_size p = data_size q" "temp_file B IO p \<noteq> target_file IO p"
    "w1 = write_source_parcel B IO now q (write_source_parcel B IO now p w)"
    "w2 = write_sink_Run B IO now' p w1"
  shows "in_file IO (snd w2) p dq \<and> files IO (snd w2) (temp_file B IO q) = None
    \<and> state_of B (fst w2) (key_of p) = Some (ParcelState now' DONE)"
proof -
  let ?w = "write_source_parcel B IO now p w"
  have "data_of B (fst ?w) = (data_of B (fst w))(key_of p := None)"
    by (rule write_source_effect(1) [OF assms(1,2,5,6) refl])
  with assms(3,7) have "data_of B (fst ?w) (key_of q) = Some dq" by simp
  then have "in_temp B IO (snd w1) q dq"
    by (rule write_source_effect(5) [OF assms(1,2) _ assms(8,11)])
  then have "in_temp B IO (snd w1) p dq"
    using assms(4,9) by (simp add: in_temp_def cong: option.case_cong)
  moreover have "length dq = unat (data_size p)" using assms(8,9) by simp
  ultimately have "files IO (snd w2) = (files IO (snd w1))(temp_file B IO p := None, target_file IO p \<mapsto>
       splice (old_content (files IO (snd w1) (target_file IO p))) (unat (position p)) dq)"
    and "in_file IO (snd w2) p dq" "state_of B (fst w2) = (state_of B (fst w1))(key_of p \<mapsto> ParcelState now' DONE)"
    using write_sink_effect [OF assms(1,2) _ _ assms(10,12)] by blast+
  with assms(4,10) show ?thesis by simp
qed

theorem temp_file_clash_witness:
  "in_file memory_io (snd (write_sink_Run local_basket memory_io 6 (sample_parcel\<lparr>position := 0\<rparr>)
     (write_source_parcel local_basket memory_io 5 (sample_parcel\<lparr>unique_id := 4, position := 0, storage_index := 2\<rparr>)
       (write_source_parcel local_basket memory_io 5 (sample_parcel\<lparr>position := 0\<rparr>) (two_store, \<lambda>_. None)))))
     (sample_parcel\<lparr>position := 0\<rparr>) ''wxyz''"
proof -
  let ?p = "sample_parcel\<lparr>position := 0\<rparr>"
  let ?q = "sample_parcel\<lparr>unique_id := 4, position := 0, storage_index := 2\<rparr>"
  have "temp_file local_basket memory_io ?p = temp_file local_basket memory_io ?q"
    "key_of ?p \<noteq> key_of ?q" "temp_file local_basket memory_io ?p \<noteq> target_file memory_io ?p"
    "data_of local_basket (fst (two_store, \<lambda>_. None)) (key_of ?p) = Some ''abcd''"
    "data_of local_basket (fst (two_store, \<lambda>_. None)) (key_of ?q) = Some ''wxyz''"
    "length ''abcd'' = unat (data_size ?p)" "length ''wxyz'' = unat (data_size ?q)" "data_size ?p = data_size ?q"
    by (simp_all add: temp_file_def target_file_def temp_suffix_def key_of_def sample_parcel_def
        two_store_def two_data_def memory_io_def)
  from temp_file_clash [OF local_basket_laws memory_io_laws this(2,1,4,6,5,7,8,3) refl refl]
  show ?thesis by blast
qed

section \<open>Properties: from \<open>Publish\<close> to the file\<close>

text \<open>\<open>Publish\<close> is its first two stores, and then, if they succeeded, the marking of the parcel.\<close>

definition publish_store ::
  "('w, 't, 'q) basket \<Rightarrow> parcel \<Rightarrow> string \<Rightarrow> ('w, 't, 'q) store \<Rightarrow> (bool \<times> ('w, 't, 'q) store) result" where
  "publish_store B p data s = rbind (string_of_buffer data (unat (data_size p))) (\<lambda>d.
     let (ok, s1) = PutData B p d s
     in if \<not> ok then Inr (False, s1)
        else let (ok, q) = q_push (qu B) p (my_server B) (write_queue s1)
             in Inr (ok, s1\<lparr>write_queue := q\<rparr>))"

definition publish_mark ::
  "('w, 't, 'q) basket \<Rightarrow> int \<Rightarrow> parcel \<Rightarrow> ('w, 't, 'q) store \<Rightarrow> bool \<times> ('w, 't, 'q) store" where
  "publish_mark B now p s =
     (let (ok, t) = m_put (st B) p (ParcelState now QUEUED) (parsel_state s) in (ok, s\<lparr>parsel_state := t\<rparr>))"

lemma Publish_steps:
  "Publish B now p data s = rbind (publish_store B p data s) (\<lambda>(ok, s').
     if ok then Inr (publish_mark B now p s') else Inr (False, s'))"
  by (cases "string_of_buffer data (unat (data_size p))")
    (auto simp: Publish_def publish_store_def publish_mark_def PutData_def Let_def split: prod.splits)

lemma publish_store_effect:
  assumes "basket_laws B" "publish_store B p data s = Inr (True, s')"
  shows "data_of B s' = (data_of B s)(key_of p \<mapsto> take (unat (data_size p)) data)"
    "state_of B s' = state_of B s" "unat (data_size p) \<le> length data"
    "to_write B s' = (to_write B s)(my_server B := to_write B s (my_server B) @ [wire_of p])"
proof -
  from assms(2) show n: "unat (data_size p) \<le> length data"
    by (simp add: publish_store_def string_of_buffer_def split: if_splits)
  let ?d = "take (unat (data_size p)) data"
  obtain ok s1 where put: "PutData B p ?d s = (ok, s1)" by (cases "PutData B p ?d s")
  then have s1: "s1 = snd (PutData B p ?d s)" by simp
  obtain ok2 q where q: "q_push (qu B) p (my_server B) (write_queue s1) = (ok2, q)"
    by (cases "q_push (qu B) p (my_server B) (write_queue s1)")
  from assms(2) n have *: "ok2" "s' = s1\<lparr>write_queue := q\<rparr>"
    by (auto simp: publish_store_def string_of_buffer_def put q split: if_splits)
  have v: "data_of B s' = data_of B s1" "state_of B s' = state_of B s1"
    by (simp_all add: * view_defs)
  show "data_of B s' = (data_of B s)(key_of p \<mapsto> ?d)" "state_of B s' = state_of B s"
    using assms(1) by (simp_all add: v s1)
  have "to_write B s' = (to_write B s1)(my_server B := to_write B s1 (my_server B) @ [wire_of p])"
    using queue_push_waiting [OF basket_lawsD(5) [OF assms(1)], of p "my_server B" "write_queue s1"] q *
    by (simp add: view_defs)
  moreover have "to_write B s1 = to_write B s" using assms(1) by (simp add: s1)
  ultimately show "to_write B s' = (to_write B s)(my_server B := to_write B s (my_server B) @ [wire_of p])"
    by simp
qed

lemma single_apart:
  "all_apart IO [p]" "temp_file B IO p \<noteq> target_file IO p \<Longrightarrow> temps_apart B IO [p]"
  by (simp_all add: all_apart_def temps_apart_def)

text \<open>The write job over a store in which the parcel is the only one waiting.\<close>

lemma single_write_job:
  assumes "basket_laws B" "io_laws IO" "temp_file B IO p \<noteq> target_file IO p"
    "to_write B s srv = [wire_of p]" "data_of B s (key_of p) = Some d" "length d = unat (data_size p)"
  shows "\<exists>es w1. write_source_round B IO srv now (s, f) = Some (es, w1)
    \<and> stored_as B IO now' (fold (write_sink_Run B IO now') es w1) p d"
proof -
  obtain es s1 where es: "GetWriteParsel B srv s = Some (es, s1)" "map wire_of es = map wire_of [p]"
    and s1: "data_of B s1 = data_of B s"
    using write_parcels_taken [OF assms(1), of srv s] assms(4) by (metis list.simps(8,9))
  have h: "holds_data B s1 (\<lambda>_. d) [p]" using assms(5,6) by (simp add: holds_data_def s1)
  have "stored_as B IO now' (fold (write_sink_Run B IO now') es
      (fold (write_source_parcel B IO now) es (s1, f))) p d"
    using write_job_run [OF assms(1,2) es(2) single_apart(1) single_apart(2) [OF assms(3)] h refl refl, of p]
    by simp
  with es show ?thesis by (simp add: write_source_round_def)
qed

text \<open>
  A published parcel reaches its file and its \<open>Wait\<close> returns: after \<open>Publish\<close> on an empty
  queue, one round of the source task and the sink task, the first \<open>data_size_\<close> bytes of the
  buffer are in the file at the position of the parcel, and \<open>Wait\<close> answers DONE at its first
  poll.
\<close>

theorem published_is_stored:
  assumes "basket_laws B" "io_laws IO" "temp_file B IO p \<noteq> target_file IO p"
    "to_write B s (my_server B) = []" "Publish B now p data s = Inr (True, s1)"
  shows "\<exists>es w1. write_source_round B IO (my_server B) now1 (s1, f) = Some (es, w1)
    \<and> (let w2 = fold (write_sink_Run B IO now2) es w1
       in in_file IO (snd w2) p (take (unat (data_size p)) data)
          \<and> (\<exists>s2. Wait B env p (fst w2) = Some (ParcelState now2 DONE, 0, s2)))"
proof -
  from assms(5) obtain s0 where s0: "publish_store B p data s = Inr (True, s0)" "publish_mark B now p s0 = (True, s1)"
    by (auto simp: Publish_steps split: if_splits prod.splits)
  then have s1: "s1 = s0\<lparr>parsel_state := snd (m_put (st B) p (ParcelState now QUEUED) (parsel_state s0))\<rparr>"
    by (auto simp: publish_mark_def split: prod.splits)
  note eff = publish_store_effect [OF assms(1) s0(1)]
  have v: "to_write B s1 (my_server B) = [wire_of p]" "data_of B s1 (key_of p) = Some (take (unat (data_size p)) data)"
    using eff(1,4) assms(4) by (simp_all add: s1 view_defs)
  obtain es w1 where es: "write_source_round B IO (my_server B) now1 (s1, f) = Some (es, w1)"
    "stored_as B IO now2 (fold (write_sink_Run B IO now2) es w1) p (take (unat (data_size p)) data)"
    using single_write_job [OF assms(1,2,3) v] eff(3) by force
  then have "Wait B env p (fst (fold (write_sink_Run B IO now2) es w1))
      = Some (ParcelState now2 DONE, 0, erased B p (fst (fold (write_sink_Run B IO now2) es w1)))"
    by (intro Wait_now [OF assms(1)]) (simp_all add: stored_as_def)
  with es show ?thesis by (auto simp: stored_as_def Let_def)
qed

lemma sample_publish:
  "\<exists>s1. Publish local_basket 9 sample_parcel ''abcdef'' local_store = Inr (True, s1)"
  by (simp add: Publish_def string_of_buffer_def local_basket_def fun_map_def list_queue_def
      sample_parcel_def)

lemma sample_temp: "temp_file local_basket memory_io sample_parcel \<noteq> target_file memory_io sample_parcel"
  by (simp add: temp_file_def target_file_def memory_io_def sample_parcel_def)

theorem published_is_stored_witness:
  "\<exists>s1 es w1. Publish local_basket 9 sample_parcel ''abcdef'' local_store = Inr (True, s1)
     \<and> write_source_round local_basket memory_io 0 10 (s1, (\<lambda>_. None)) = Some (es, w1)
     \<and> in_file memory_io (snd (fold (write_sink_Run local_basket memory_io 11) es w1)) sample_parcel ''abcd''"
proof -
  obtain s1 where s1: "Publish local_basket 9 sample_parcel ''abcdef'' local_store = Inr (True, s1)"
    using sample_publish by blast
  have "to_write local_basket local_store (my_server local_basket) = []"
    by (simp add: local_store_def)
  from published_is_stored [OF local_basket_laws memory_io_laws sample_temp this s1, of 10 "\<lambda>_. None" 11 "\<lambda>n s. s"]
  show ?thesis using s1 by (auto simp: Let_def sample_parcel_def)
qed

text \<open>
  The order of the stores in \<open>Publish\<close> admits a lost wake-up: the parcel is in the queue before
  it is marked QUEUED, so that the job can finish it in between. The mark then replaces DONE;
  the bytes are in the file, \<open>Publish\<close> answers true, and \<open>Wait\<close> never returns.
\<close>

theorem late_mark_hangs:
  assumes "basket_laws B" "io_laws IO" "temp_file B IO p \<noteq> target_file IO p"
    "to_write B s (my_server B) = []" "publish_store B p data s = Inr (True, s1)"
    "leaves_state B env (key_of p)"
  shows "\<exists>es w1. write_source_round B IO (my_server B) now1 (s1, f) = Some (es, w1)
    \<and> (let w2 = fold (write_sink_Run B IO now2) es w1; (ok, s3) = publish_mark B now p (fst w2)
       in in_file IO (snd w2) p (take (unat (data_size p)) data) \<and> ok \<and> Wait B env p s3 = None)"
proof -
  note eff = publish_store_effect [OF assms(1,5)]
  have v: "to_write B s1 (my_server B) = [wire_of p]" "data_of B s1 (key_of p) = Some (take (unat (data_size p)) data)"
    using eff(1,4) assms(4) by simp_all
  obtain es w1 where es: "write_source_round B IO (my_server B) now1 (s1, f) = Some (es, w1)"
    "stored_as B IO now2 (fold (write_sink_Run B IO now2) es w1) p (take (unat (data_size p)) data)"
    using single_write_job [OF assms(1,2,3) v] eff(3) by force
  let ?s2 = "fst (fold (write_sink_Run B IO now2) es w1)"
  obtain t where t: "m_put (st B) p (ParcelState now QUEUED) (parsel_state ?s2) = (True, t)"
    using map_total_put(1) [OF basket_lawsD(2) [OF assms(1)]] by (metis prod.collapse)
  let ?s3 = "?s2\<lparr>parsel_state := t\<rparr>"
  have "state_of B ?s3 (key_of p) = Some (ParcelState now QUEUED)"
    using map_total_put(2) [OF basket_lawsD(2) [OF assms(1)], of p "ParcelState now QUEUED" "parsel_state ?s2"] t
    by (simp add: view_defs)
  then have "Wait B env p ?s3 = None"
    by (intro Wait_without_state [OF assms(1,6)]) (simp add: done_at_def)
  with es t show ?thesis
    by (auto simp: publish_mark_def stored_as_def Let_def)
qed

theorem late_mark_hangs_witness:
  "\<exists>s1 es w1. publish_store local_basket sample_parcel ''abcdef'' local_store = Inr (True, s1)
     \<and> write_source_round local_basket memory_io 0 10 (s1, (\<lambda>_. None)) = Some (es, w1)
     \<and> Wait local_basket (\<lambda>n s. s) sample_parcel
         (snd (publish_mark local_basket 9 sample_parcel (fst (fold (write_sink_Run local_basket memory_io 11) es w1)))) = None"
proof -
  obtain s1 where s1: "publish_store local_basket sample_parcel ''abcdef'' local_store = Inr (True, s1)"
    by (simp add: publish_store_def PutData_def string_of_buffer_def local_basket_def fun_map_def
        list_queue_def sample_parcel_def)
  have "to_write local_basket local_store (my_server local_basket) = []"
    by (simp add: local_store_def)
  from late_mark_hangs [OF local_basket_laws memory_io_laws sample_temp this s1 quiet_leaves, of 10 "\<lambda>_. None" 11 9]
  obtain es w1 where "write_source_round local_basket memory_io 0 10 (s1, (\<lambda>_. None)) = Some (es, w1)"
    "Wait local_basket (\<lambda>n s. s) sample_parcel
       (snd (publish_mark local_basket 9 sample_parcel (fst (fold (write_sink_Run local_basket memory_io 11) es w1)))) = None"
    by (auto simp: Let_def case_prod_beta)
  with s1 show ?thesis by blast
qed

section \<open>Properties: the read job\<close>

lemma read_sink_effect:
  assumes "basket_laws B" "io_laws IO" "in_file IO (snd w) p d" "w' = read_sink_Run B IO now p w"
  shows "data_of B (fst w') = (data_of B (fst w))(key_of p \<mapsto> d)"
    "state_of B (fst w') = (state_of B (fst w))(key_of p \<mapsto> ParcelState now DONE)"
    "to_read B (fst w') = to_read B (fst w)" "snd w' = snd w"
proof -
  obtain s f where w: "w = (s, f)" by (cases w)
  let ?buf = "p\<lparr>buffer := replicate (unat (data_size p)) (CHR 0x00)\<rparr>"
  from assms(3) w obtain c where c: "files IO f (target_file IO p) = Some c"
    "unat (position p) + unat (data_size p) \<le> length c"
    "slice c (unat (position p)) (unat (data_size p)) = d"
    by (auto simp: in_file_def split: option.splits)
  then have "io_read IO (io_client IO (storage_index p)) p ?buf f = d"
    using io_read_buffer [OF assms(2), of f "io_client IO (storage_index p)" p c ?buf]
    by (simp add: target_file_def)
  then have w': "w' = (snd (UpdateParcelStatus B now p DONE (snd (PutData B p d s))), f)"
    by (simp add: assms(4) w read_sink_Run_def Let_def)
  from read_side.fill_effect [OF assms(1) refl, of now p DONE d s]
  show "data_of B (fst w') = (data_of B (fst w))(key_of p \<mapsto> d)"
    "state_of B (fst w') = (state_of B (fst w))(key_of p \<mapsto> ParcelState now DONE)"
    "to_read B (fst w') = to_read B (fst w)" "snd w' = snd w"
    by (simp_all add: w' w)
qed

lemma read_source_all:
  assumes "basket_laws B"
  shows "data_of B (fst (fold (read_source_parcel B now) ps w)) = data_of B (fst w)
    \<and> snd (fold (read_source_parcel B now) ps w) = snd w"
proof (induction ps arbitrary: w)
  case (Cons p ps)
  from Cons.IH [of "read_source_parcel B now p w"] show ?case
    by (simp add: read_source_parcel_def assms)
qed simp

text \<open>The sink task over the parcels of one round, in whatever order they reach it.\<close>

lemma read_sink_all:
  fixes B :: "('w, 't, 'q) basket" and IO :: "'f io_ops"
  assumes "basket_laws B" "io_laws IO" "distinct (map key_of qs)"
    and d: "\<And>p. p \<in> set qs \<Longrightarrow> in_file IO (snd w) p (d (key_of p))"
  shows "snd (fold (read_sink_Run B IO now) qs w) = snd w"
    "p \<in> set qs \<Longrightarrow> data_of B (fst (fold (read_sink_Run B IO now) qs w)) (key_of p) = Some (d (key_of p))
       \<and> state_of B (fst (fold (read_sink_Run B IO now) qs w)) (key_of p) = Some (ParcelState now DONE)"
proof -
  note eff = read_sink_effect [OF assms(1,2) _ refl, where now = now]
  have keep: "snd (fold (read_sink_Run B IO now) xs v) = snd w" if "set xs \<subseteq> set qs" "snd v = snd w" for xs and v :: "('w, 't, 'q, 'f) world"
    using that
  proof (induction xs arbitrary: v)
    case (Cons x xs)
    from Cons.prems have "in_file IO (snd v) x (d (key_of x))" using d by simp
    from eff(4) [OF this] Cons show ?case by simp
  qed simp
  show "snd (fold (read_sink_Run B IO now) qs w) = snd w" by (rule keep) simp_all
  let ?pre = "\<lambda>p (v :: ('w, 't, 'q, 'f) world). snd v = snd w"
  let ?post = "\<lambda>p (v :: ('w, 't, 'q, 'f) world). data_of B (fst v) (key_of p) = Some (d (key_of p))
    \<and> state_of B (fst v) (key_of p) = Some (ParcelState now DONE)"
  show "?post p (fold (read_sink_Run B IO now) qs w)" if p: "p \<in> set qs"
  proof (rule fold_establish [of qs ?pre _ ?post "read_sink_Run B IO now"])
    show "distinct qs" using assms(3) by (simp add: distinct_map)
    fix x y :: parcel and v :: "('w, 't, 'q, 'f) world"
    assume xy: "x \<in> set qs" "y \<in> set qs" "x \<noteq> y" and v: "snd v = snd w"
    have e: "in_file IO (snd v) y (d (key_of y))" using d [OF xy(2)] v by simp
    have "key_of x \<noteq> key_of y" using assms(3) xy by (auto simp: distinct_map inj_on_def)
    then show "?post x (read_sink_Run B IO now y v)" if "?post x v" using that eff [OF e] by simp
    show "snd (read_sink_Run B IO now y v) = snd w" using eff(4) [OF e] v by simp
  next
    fix x :: parcel and v :: "('w, 't, 'q, 'f) world"
    assume "x \<in> set qs" "snd v = snd w"
    then show "?post x (read_sink_Run B IO now x v)" using eff [of v x "d (key_of x)"] d by simp
  qed (use p in simp_all)
qed

lemma GetSubscribedData_there:
  assumes "basket_laws B" "data_of B s (key_of p) = Some e" "length (cs_of B e) \<le> length buf"
  shows "\<exists>s'. GetSubscribedData B p buf s = Inr (True, cs_of B e @ drop (length (cs_of B e)) buf, s')"
  using assms(2,3) map_get_found [OF basket_lawsD(3) [OF assms(1)], of "warehouse s" p e]
  by (simp add: GetSubscribedData_def view_defs memcpy_into_def)

text \<open>
  The read job: all parcels requested from a server, with different keys and their ranges
  in their files, are answered in one round of the source task and, in any order of delivery,
  the sink task: the warehouse has the bytes of the file, the state is DONE, the files are
  unchanged, and \<open>GetSubscribedData\<close> hands the bytes to the subscriber.
\<close>

theorem read_job_delivers:
  fixes B :: "('w, 't, 'q) basket" and IO :: "'f io_ops"
  assumes "basket_laws B" "io_laws IO" "to_read B s srv = map wire_of ps" "distinct (map key_of ps)"
    "\<forall>p \<in> set ps. in_file IO f p (d (key_of p))"
  shows "\<exists>es w1. read_source_round B srv now (s, f) = Some (es, w1) \<and> map wire_of es = map wire_of ps
    \<and> (\<forall>qs. mset qs = mset es \<longrightarrow> (let w2 = fold (read_sink_Run B IO now') qs w1 in snd w2 = f
         \<and> (\<forall>p \<in> set ps. data_of B (fst w2) (key_of p) = Some (d (key_of p))
             \<and> state_of B (fst w2) (key_of p) = Some (ParcelState now' DONE)
             \<and> (\<forall>buf. length (cs_of B (d (key_of p))) \<le> length buf \<longrightarrow>
                  (\<exists>s'. GetSubscribedData B p buf (fst w2) =
                     Inr (True, cs_of B (d (key_of p)) @ drop (length (cs_of B (d (key_of p)))) buf, s'))))))"
proof -
  obtain es s1 where es: "GetReadParsel B srv s = Some (es, s1)" "map wire_of es = map wire_of ps"
    using read_parcels_taken [OF assms(1), of srv s] assms(3) by metis
  define w1 where "w1 = fold (read_source_parcel B now) es (s1, f)"
  have f1: "snd w1 = f"
    using read_source_all [OF assms(1), of now es "(s1, f)"] by (simp add: w1_def)
  have "map key_of es = map key_of ps" by (rule map_wire_cong [OF es(2)]) (rule wire_congs)
  then have keys: "distinct (map key_of es)" using assms(4) by simp
  have in_es: "in_file IO f p (d (key_of p))" if p: "p \<in> set es" for p
  proof -
    obtain q where q: "q \<in> set ps" "wire_of q = wire_of p" using map_wire_set [OF es(2) [symmetric] p] .
    with assms(5) show ?thesis using wire_congs(1,6) [OF q(2)] by metis
  qed
  have sinks: "snd (fold (read_sink_Run B IO now') qs w1) = f"
    "\<forall>p \<in> set ps. data_of B (fst (fold (read_sink_Run B IO now') qs w1)) (key_of p) = Some (d (key_of p))
       \<and> state_of B (fst (fold (read_sink_Run B IO now') qs w1)) (key_of p) = Some (ParcelState now' DONE)"
    if qs: "mset qs = mset es" for qs
  proof -
    have "set qs = set es" "distinct (map key_of qs)"
      using mset_eq_setD [OF qs] keys qs by (simp, metis mset_eq_imp_distinct_iff mset_map)
    then have all: "snd (fold (read_sink_Run B IO now') qs w1) = f"
      "e \<in> set es \<Longrightarrow> data_of B (fst (fold (read_sink_Run B IO now') qs w1)) (key_of e) = Some (d (key_of e))
         \<and> state_of B (fst (fold (read_sink_Run B IO now') qs w1)) (key_of e) = Some (ParcelState now' DONE)" for e
      using read_sink_all [OF assms(1,2), of qs w1 d] in_es f1 by auto
    then show "snd (fold (read_sink_Run B IO now') qs w1) = f"
      "\<forall>p \<in> set ps. data_of B (fst (fold (read_sink_Run B IO now') qs w1)) (key_of p) = Some (d (key_of p))
         \<and> state_of B (fst (fold (read_sink_Run B IO now') qs w1)) (key_of p) = Some (ParcelState now' DONE)"
      using map_wire_set [OF es(2)] wire_congs(1) by metis+
  qed
  have "read_source_round B srv now (s, f) = Some (es, w1)" by (simp add: read_source_round_def es w1_def)
  with es(2) sinks GetSubscribedData_there [OF assms(1)] show ?thesis by (simp add: Let_def)
qed

theorem read_job_delivers_witness:
  "\<exists>es w1. read_source_round local_basket 0 5 (local_store\<lparr>read_queue := (\<lambda>_. two_parcels)\<rparr>, (\<lambda>_. Some ''abcdwxyz'')) = Some (es, w1)
     \<and> (\<forall>p \<in> set two_parcels. warehouse (fst (fold (read_sink_Run local_basket memory_io 6) es w1)) (key_of p)
          = Some (two_data (key_of p)))"
proof -
  have 1: "to_read local_basket (local_store\<lparr>read_queue := (\<lambda>_. two_parcels)\<rparr>) 0 = map wire_of two_parcels"
    "distinct (map key_of two_parcels)"
    by (simp_all add: two_parcels_def key_of_def sample_parcel_def)
  have 2: "\<forall>p \<in> set two_parcels. in_file memory_io (\<lambda>_. Some ''abcdwxyz'') p (two_data (key_of p))"
    by (simp add: two_parcels_def in_file_def memory_io_def slice_def sample_parcel_def two_data_def key_of_def)
  from read_job_delivers [OF local_basket_laws memory_io_laws 1 2, of 5 6]
  show ?thesis by (auto simp: Let_def)
qed

section \<open>Properties: the source tasks\<close>

lemma c_str_to_string: "c_str (to_string n) = to_string n"
proof -
  have "\<not> is_digit (CHR 0x00)" by (simp add: is_digit_def)
  with to_string_digits [of n] show ?thesis
    by (auto simp: c_str_def takeWhile_eq_all_conv)
qed

text \<open>
  The server a source task works for: an id that is a number below \<open>2 ^ 31\<close> gives that
  number modulo \<open>2 ^ 16\<close> in all three source tasks; an id that starts with a letter gives
  server 0.
\<close>

theorem Initialize_server:
  "(n < 2 ^ 31 \<longrightarrow>
      write_source_Initialize (p\<lparr>pid := to_string n\<rparr>) = Inr (of_nat n)
      \<and> read_source_Initialize (p\<lparr>pid := to_string n\<rparr>) = Inr (of_nat n)
      \<and> iof_source_Initialize (p\<lparr>pid := to_string n\<rparr>) = Inr (of_nat n)
      \<and> unat (of_nat n :: u16) = n mod 65536)
   \<and> write_source_Initialize (p\<lparr>pid := CHR ''s'' # rest\<rparr>) = Inr 0"
proof (intro conjI impI)
  assume "n < 2 ^ 31"
  then have a: "atoi (to_string n) = Inr (int n)" by (rule atoi_to_string)
  show "write_source_Initialize (p\<lparr>pid := to_string n\<rparr>) = Inr (of_nat n)"
    "read_source_Initialize (p\<lparr>pid := to_string n\<rparr>) = Inr (of_nat n)"
    "iof_source_Initialize (p\<lparr>pid := to_string n\<rparr>) = Inr (of_nat n)"
    by (simp_all add: write_source_Initialize_def read_source_Initialize_def iof_source_Initialize_def
        c_str_to_string a)
  show "unat (of_nat n :: u16) = n mod 65536" by (simp add: unat_of_nat)
next
  show "write_source_Initialize (p\<lparr>pid := CHR ''s'' # rest\<rparr>) = Inr 0"
    by (simp add: write_source_Initialize_def c_str_def atoi_def is_space_def is_digit_def
        digits_value_def fit_int_def)
qed

theorem Initialize_server_witness:
  "write_source_Initialize (sample_parcel\<lparr>pid := to_string 65538\<rparr>) = Inr 2"
  using Initialize_server [of 65538 sample_parcel "''''"] by simp

lemma source_Run_returns:
  assumes "\<And>now w. rnd now w \<noteq> None"
  shows "source_Run rnd waits w \<noteq> None"
proof (induction waits arbitrary: w)
  case (Cons a waits)
  obtain others now where a: "a = (others, now)" by (cases a)
  obtain ps w' where "rnd now (others w) = Some (ps, w')"
    using assms [of now "others w"] by auto
  with Cons.IH [of w'] show ?case by (simp add: a)
qed simp

text \<open>
  The source tasks' loops return when their condition is signalled, whatever the other
  processes do between the rounds: no round gets stuck.
\<close>

theorem source_tasks_return:
  assumes "basket_laws B"
  shows "source_Run (write_source_round B IO srv) waits w \<noteq> None
    \<and> source_Run (iof_source_round B IO srv) waits w \<noteq> None
    \<and> source_Run (read_source_round B srv) waits w \<noteq> None"
proof -
  have "GetWriteParsel B srv s \<noteq> None" "GetReadParsel B srv s \<noteq> None" for s
    using write_parcels_taken [OF assms, of srv s] read_parcels_taken [OF assms, of srv s]
    by (metis option.discI)+
  then have "write_source_round B IO srv now v \<noteq> None" "iof_source_round B IO srv now v \<noteq> None"
    "read_source_round B srv now v \<noteq> None" for now and v :: "('a, 'b, 'c, 'd) world"
    by (simp_all add: write_source_round_def iof_source_round_def read_source_round_def)
  then show ?thesis by (intro conjI source_Run_returns)
qed

theorem source_tasks_return_witness:
  "source_Run (write_source_round local_basket memory_io 0) [(\<lambda>w. w, 1), (\<lambda>w. w, 2)] (two_store, (\<lambda>_. None)) \<noteq> None"
  using source_tasks_return [OF local_basket_laws] by blast

end
