(* ===== verification/Round_Trip.thy ===== *)
theory Round_Trip
  imports Pipeline
begin

text \<open>
  A parcel there and back: one client publishes it and waits, the write job stores it; another client, on its own
  server, asks for it with \<open>AsyncSubscribe\<close>, waits, and fetches it with \<open>GetSubscribedData\<close> after the read job.
  The calls are those of \<open>rhea.cpp\<close> and the rounds of the tasks those of \<open>rhea_job.h\<close>.
\<close>

section \<open>The session\<close>

text \<open>
  The publisher's library is \<open>B\<close>, the subscriber's the same containers with \<open>srv\<close> as its own server.
  The result is \<open>None\<close> if a call answers false or does not return, and otherwise the answer of
  \<open>GetSubscribedData\<close> with the caller's buffer, the store and the files.
\<close>

definition publisher_session ::
  "('w, 't, 'q) basket \<Rightarrow> 'f io_ops \<Rightarrow> int \<Rightarrow> parcel \<Rightarrow> string \<Rightarrow> ('w, 't, 'q, 'f) world \<Rightarrow>
   ('w, 't, 'q, 'f) world option result" where
  "publisher_session B IO now p data w =
     rbind (Publish B now p data (fst w)) (\<lambda>(ok, s1).
       if \<not> ok then Inr None else
       case write_source_round B IO (my_server B) (now + 1) (s1, snd w) of None \<Rightarrow> Inr None
       | Some (es, w1) \<Rightarrow>
         let w2 = fold (write_sink_Run B IO (now + 2)) es w1
         in Inr (map_option (\<lambda>(v, n, s3). (s3, snd w2)) (Wait B (\<lambda>n s. s) p (fst w2))))"

definition subscriber_session ::
  "('w, 't, 'q) basket \<Rightarrow> 'f io_ops \<Rightarrow> int \<Rightarrow> parcel \<Rightarrow> string \<Rightarrow> ('w, 't, 'q, 'f) world \<Rightarrow>
   (bool \<times> string \<times> ('w, 't, 'q, 'f) world) option result" where
  "subscriber_session B IO now p buf w =
     (let (ok, s1) = AsyncSubscribe B p (fst w) in
      if \<not> ok then Inr None else
      case read_source_round B (my_server B) (now + 1) (s1, snd w) of None \<Rightarrow> Inr None
      | Some (es, w1) \<Rightarrow>
        let w2 = fold (read_sink_Run B IO (now + 2)) es w1
        in case Wait B (\<lambda>n s. s) p (fst w2) of None \<Rightarrow> Inr None
           | Some (v, n, s3) \<Rightarrow>
             rbind (GetSubscribedData B p buf s3) (\<lambda>(ok, buf', s4). Inr (Some (ok, buf', (s4, snd w2)))))"

definition there_and_back ::
  "('w, 't, 'q) basket \<Rightarrow> 'f io_ops \<Rightarrow> int \<Rightarrow> u16 \<Rightarrow> parcel \<Rightarrow> string \<Rightarrow> string \<Rightarrow> ('w, 't, 'q, 'f) world \<Rightarrow>
   (bool \<times> string \<times> ('w, 't, 'q, 'f) world) option result" where
  "there_and_back B IO now srv p data buf w =
     rbind (publisher_session B IO now p data w) (\<lambda>r. case r of None \<Rightarrow> Inr None
       | Some w' \<Rightarrow> subscriber_session (B\<lparr>my_server := srv\<rparr>) IO (now + 3) p buf w')"

section \<open>The two halves\<close>

lemma other_server [simp]:
  "basket_laws (B\<lparr>my_server := srv\<rparr>) = basket_laws B" "data_of (B\<lparr>my_server := srv\<rparr>) = data_of B"
  "state_of (B\<lparr>my_server := srv\<rparr>) = state_of B" "to_read (B\<lparr>my_server := srv\<rparr>) = to_read B"
  "to_write (B\<lparr>my_server := srv\<rparr>) = to_write B"
  by (simp_all add: basket_laws_def view_defs fun_eq_iff)


text \<open>The write job leaves the read queues alone.\<close>

lemma write_tasks_reads:
  assumes "basket_laws B"
  shows "to_read B (fst (write_source_parcel B IO now p w)) = to_read B (fst w)"
    "to_read B (fst (write_sink_Run B IO now p w)) = to_read B (fst w)"
  using assms by (simp_all add: write_source_parcel_def write_sink_Run_def Let_def case_prod_beta)

lemma fold_reads:
  assumes "\<And>p w. to_read B (fst (g p w)) = to_read B (fst w)"
  shows "to_read B (fst (fold g ps w)) = to_read B (fst w)"
  using assms by (induction ps arbitrary: w) simp_all

lemma write_round_reads:
  assumes "basket_laws B" "write_source_round B IO srv now w = Some (es, w')"
  shows "to_read B (fst w') = to_read B (fst w)"
proof -
  from assms(2) obtain s where s: "GetWriteParsel B srv (fst w) = Some (es, s)"
    "w' = fold (write_source_parcel B IO now) es (s, snd w)"
    by (auto simp: write_source_round_def)
  with write_parcels_taken [OF assms(1), of srv "fst w"] have "to_read B s = to_read B (fst w)" by auto
  moreover have "to_read B (fst w') = to_read B (fst (s, snd w))"
    unfolding s(2) by (rule fold_reads) (rule write_tasks_reads(1) [OF assms(1)])
  ultimately show ?thesis by simp
qed

lemma publish_store_reads:
  assumes "basket_laws B" "publish_store B p data s = Inr (True, s')"
  shows "to_read B s' = to_read B s"
proof -
  from assms(2) have "s' = (snd (PutData B p (take (unat (data_size p)) data) s))
      \<lparr>write_queue := snd (q_push (qu B) p (my_server B) (write_queue (snd (PutData B p (take (unat (data_size p)) data) s))))\<rparr>"
    by (auto simp: publish_store_def string_of_buffer_def split: if_splits prod.splits)
  with assms(1) show ?thesis by (simp add: PutData_def view_defs split: prod.splits)
qed

text \<open>The stored bytes and the queues after a publisher's session.\<close>

lemma publisher_session_effect:
  assumes "basket_laws B" "io_laws IO" "temp_file B IO p \<noteq> target_file IO p"
    "to_write B (fst w) (my_server B) = []" "Publish B now p data (fst w) = Inr (True, s1)"
  shows "\<exists>w'. publisher_session B IO now p data w = Inr (Some w')
    \<and> in_file IO (snd w') p (take (unat (data_size p)) data) \<and> to_read B (fst w') = to_read B (fst w)"
proof -
  let ?d = "take (unat (data_size p)) data"
  from assms(5) obtain s0 where s0: "publish_store B p data (fst w) = Inr (True, s0)" "publish_mark B now p s0 = (True, s1)"
    by (auto simp: Publish_steps split: if_splits prod.splits)
  then have s1: "s1 = s0\<lparr>parsel_state := snd (m_put (st B) p (ParcelState now QUEUED) (parsel_state s0))\<rparr>"
    by (auto simp: publish_mark_def split: prod.splits)
  note eff = publish_store_effect [OF assms(1) s0(1)]
  have v: "to_write B s1 (my_server B) = [wire_of p]" "data_of B s1 (key_of p) = Some ?d"
    using eff(1,4) assms(4) by (simp_all add: s1 view_defs)
  obtain es w1 where es: "write_source_round B IO (my_server B) (now + 1) (s1, snd w) = Some (es, w1)"
    "stored_as B IO (now + 2) (fold (write_sink_Run B IO (now + 2)) es w1) p ?d"
    using single_write_job [OF assms(1,2,3) v] eff(3) by force
  define w2 where "w2 = fold (write_sink_Run B IO (now + 2)) es w1"
  have wait: "Wait B (\<lambda>n s. s) p (fst w2) = Some (ParcelState (now + 2) DONE, 0, erased B p (fst w2))"
    using es(2) by (intro Wait_now [OF assms(1)]) (simp_all add: stored_as_def w2_def)
  have "to_read B (fst w2) = to_read B (fst w1)"
    unfolding w2_def by (rule fold_reads) (rule write_tasks_reads(2) [OF assms(1)])
  also have "\<dots> = to_read B s1" using write_round_reads [OF assms(1) es(1)] by simp
  also have "\<dots> = to_read B s0" by (simp add: s1 view_defs)
  also have "\<dots> = to_read B (fst w)" by (rule publish_store_reads [OF assms(1) s0(1)])
  finally have "to_read B (fst w2) = to_read B (fst w)" .
  with wait es show ?thesis
    by (simp add: publisher_session_def assms(5) Let_def erased_views [OF assms(1)] stored_as_def flip: w2_def)
qed

text \<open>The read job over a store in which the parcel is the only one asked for.\<close>

lemma single_read_job:
  assumes "basket_laws B" "io_laws IO" "to_read B s srv = [wire_of p]" "in_file IO f p d"
  shows "\<exists>es w1. read_source_round B srv now (s, f) = Some (es, w1)
    \<and> (let w2 = fold (read_sink_Run B IO now') es w1
       in snd w2 = f \<and> data_of B (fst w2) (key_of p) = Some d
          \<and> state_of B (fst w2) (key_of p) = Some (ParcelState now' DONE))"
proof -
  obtain es s1 where es: "GetReadParsel B srv s = Some (es, s1)" "map wire_of es = [wire_of p]"
    using read_parcels_taken [OF assms(1), of srv s] assms(3) by metis
  then obtain e where e: "es = [e]" "wire_of e = wire_of p" by auto
  note c = wire_congs [OF e(2)]
  let ?w1 = "read_source_parcel B now e (s1, f)"
  have f: "snd ?w1 = f" by (simp add: read_source_parcel_def)
  then have "in_file IO (snd ?w1) e d" using assms(4) by (simp add: c)
  from read_sink_effect [OF assms(1,2) this refl, of now'] show ?thesis
    by (simp add: read_source_round_def es(1) e(1) f Let_def c)
qed

lemma subscriber_session_effect:
  assumes "basket_laws B" "io_laws IO" "to_read B (fst w) (my_server B) = []" "in_file IO (snd w) p d"
    "fst (AsyncSubscribe B p (fst w))" "length (cs_of B d) \<le> length buf"
  shows "\<exists>s. subscriber_session B IO now p buf w
    = Inr (Some (True, cs_of B d @ drop (length (cs_of B d)) buf, (s, snd w)))"
proof -
  obtain s1 where s1: "AsyncSubscribe B p (fst w) = (True, s1)"
    using assms(5) by (cases "AsyncSubscribe B p (fst w)") auto
  have "to_read B s1 (my_server B) = [wire_of p]"
    using queue_push_waiting [OF basket_lawsD(5) [OF assms(1)], of p "my_server B" "read_queue (fst w)"] s1 assms(3)
    by (auto simp: AsyncSubscribe_def view_defs split: prod.splits)
  from single_read_job [OF assms(1,2) this assms(4), of "now + 1" "now + 2"]
  obtain es w1 where es: "read_source_round B (my_server B) (now + 1) (s1, snd w) = Some (es, w1)"
    and w2: "snd (fold (read_sink_Run B IO (now + 2)) es w1) = snd w"
      "data_of B (fst (fold (read_sink_Run B IO (now + 2)) es w1)) (key_of p) = Some d"
      "state_of B (fst (fold (read_sink_Run B IO (now + 2)) es w1)) (key_of p) = Some (ParcelState (now + 2) DONE)"
    by (auto simp: Let_def)
  let ?s3 = "erased B p (fst (fold (read_sink_Run B IO (now + 2)) es w1))"
  have "data_of B ?s3 (key_of p) = Some d" using w2(2) by (simp add: erased_views [OF assms(1)])
  then have "\<exists>s4. GetSubscribedData B p buf ?s3 = Inr (True, cs_of B d @ drop (length (cs_of B d)) buf, s4)"
    by (rule GetSubscribedData_there [OF assms(1) _ assms(6)])
  with Wait_now [OF assms(1) w2(3)] w2(1) show ?thesis
    by (auto simp: subscriber_session_def s1 es Let_def)
qed

section \<open>Properties\<close>

text \<open>
  C11. What was published comes back: on quiet queues, when \<open>Publish\<close> and the subscriber's push are accepted, the
  subscriber on any server gets exactly the first \<open>data_size_\<close> bytes of the publisher's buffer (as \<open>CharStruct\<close>
  keeps them) at the start of its own, whatever was in the target file before.
\<close>

theorem published_comes_back:
  assumes "basket_laws B" "io_laws IO" "temp_file B IO p \<noteq> target_file IO p"
    and "to_write B (fst w) (my_server B) = []" "to_read B (fst w) srv = []"
    and "\<exists>s1. Publish B now p data (fst w) = Inr (True, s1)"
    and "\<And>s. fst (AsyncSubscribe (B\<lparr>my_server := srv\<rparr>) p s)"
    and "length (cs_of B (take (unat (data_size p)) data)) \<le> length buf"
  shows "\<exists>w'. there_and_back B IO now srv p data buf w
    = Inr (Some (True, cs_of B (take (unat (data_size p)) data)
        @ drop (length (cs_of B (take (unat (data_size p)) data))) buf, w'))"
proof -
  obtain w1 where w1: "publisher_session B IO now p data w = Inr (Some w1)"
    "in_file IO (snd w1) p (take (unat (data_size p)) data)" "to_read B (fst w1) = to_read B (fst w)"
    using publisher_session_effect [OF assms(1-4)] assms(6) by blast
  obtain s where "subscriber_session (B\<lparr>my_server := srv\<rparr>) IO (now + 3) p buf w1
      = Inr (Some (True, cs_of B (take (unat (data_size p)) data)
          @ drop (length (cs_of B (take (unat (data_size p)) data))) buf, (s, snd w1)))"
    using subscriber_session_effect [of "B\<lparr>my_server := srv\<rparr>" IO w1 p "take (unat (data_size p)) data" buf "now + 3"]
      assms w1 by auto
  with w1(1) show ?thesis by (simp add: there_and_back_def)
qed

theorem published_comes_back_witness:
  "\<exists>w'. there_and_back local_basket memory_io 1 5 sample_parcel ''abcdef'' ''......'' (local_store, \<lambda>_. Some ''old'')
    = Inr (Some (True, ''abcd..'', w'))"
proof -
  have "\<exists>s1. Publish local_basket 1 sample_parcel ''abcdef'' local_store = Inr (True, s1)"
    by (simp add: Publish_def string_of_buffer_def local_basket_def fun_map_def list_queue_def sample_parcel_def)
  moreover have "fst (AsyncSubscribe (local_basket\<lparr>my_server := 5\<rparr>) sample_parcel s)" for s
    by (simp add: AsyncSubscribe_def local_basket_def list_queue_def)
  moreover have "unat (data_size sample_parcel) = 4" by (simp add: sample_parcel_def)
  ultimately show ?thesis
    using published_comes_back [OF local_basket_laws memory_io_laws sample_temp, of "(local_store, \<lambda>_. Some ''old'')" 5 1
        "''abcdef''" "''......''"]
    by (simp add: local_store_def)
qed

end
