(* ===== verification/Stepwise.thy ===== *)
theory Stepwise
  imports Main
begin

text \<open>
  What the state machines of the write and the read path share: a system that refines a specification step by step, and
  jobs whose steps use up the work that is left. Both are interfaces: theories \<open>Broker\<close> and \<open>Reader\<close> interpret them
  for their own steps.
\<close>

section \<open>Refinement\<close>

text \<open>\<open>tracked\<close> relates a state of the system to a state of the specification.\<close>

locale simulation =
  fixes step :: "'s \<Rightarrow> 's \<Rightarrow> bool" and spec_step :: "'a \<Rightarrow> 'a \<Rightarrow> bool" and tracked :: "'s \<Rightarrow> 'a \<Rightarrow> bool"
  assumes step_tracked: "step s t \<Longrightarrow> tracked s a \<Longrightarrow> \<exists>b. spec_step a b \<and> tracked t b"
begin

lemma run_simulated:
  assumes "step\<^sup>*\<^sup>* s t" "tracked s a"
  obtains b where "spec_step\<^sup>*\<^sup>* a b" "tracked t b"
proof -
  from assms(1) have "\<exists>b. spec_step\<^sup>*\<^sup>* a b \<and> tracked t b"
  proof (induction rule: rtranclp_induct)
    case base
    then show ?case using assms(2) by blast
  next
    case (step y z)
    then show ?case using step_tracked by (meson rtranclp.rtrancl_into_rtrancl)
  qed
  with that show thesis by blast
qed

end

section \<open>Work that runs out\<close>

text \<open>A job leaves what the clients see of the system, and each of its steps does some of the work.\<close>

locale working =
  fixes job :: "'s \<Rightarrow> 's \<Rightarrow> bool" and tracked :: "'s \<Rightarrow> 'a \<Rightarrow> bool" and left :: "'a \<Rightarrow> nat" and seen :: "'s \<Rightarrow> 'c"
  assumes job_works: "job s t \<Longrightarrow> tracked s a \<Longrightarrow> \<exists>b. tracked t b \<and> left b < left a"
    and job_unseen: "job s t \<Longrightarrow> seen t = seen s"
begin

lemma jobs_work:
  assumes "(job ^^ n) s t" "tracked s a"
  obtains b where "tracked t b" "left b + n \<le> left a" "seen t = seen s"
proof -
  from assms(1) have "\<exists>b. tracked t b \<and> left b + n \<le> left a \<and> seen t = seen s"
  proof (induction n arbitrary: t)
    case 0
    then show ?case using assms(2) by auto
  next
    case (Suc n)
    then obtain y where y: "(job ^^ n) s y" "job y t" by auto
    from Suc.IH [OF y(1)] obtain b where b: "tracked y b" "left b + n \<le> left a" "seen y = seen s" by blast
    from job_works [OF y(2) b(1)] obtain c where "tracked t c" "left c < left b" by blast
    with b job_unseen [OF y(2)] show ?case by (intro exI [of _ c]) simp
  qed
  with that show thesis by blast
qed

end

end
