(* ===== verification/Broker.thy ===== *)
theory Broker
  imports Pipeline Stepwise
begin

text \<open>
  The write path with all of its processes at once: any number of clients that publish parcels and wait
  for them, the source tasks of the write job and of the direct write job on their servers, and the sink tasks. The steps are the
  operations of \<open>rhea.cpp\<close> and \<open>rhea_job.h\<close> (theories \<open>Warehouse\<close>, \<open>Jobs\<close> and \<open>Pipeline\<close>), each on the shared
  containers and files; they come in any order the programs allow. A whole task is one step here; what may happen between
  the calls of a task is the subject of theory \<open>Calls\<close>. The specification is the life of a
  parcel, from the queue through a source task, the temporary file and a sink task to its file, or straight into it.
\<close>

section \<open>The system\<close>

text \<open>Who publishes what: the parcels, the callers' buffers and the servers whose queue a client pushes to.\<close>

record ('w, 't, 'q, 'f) setting =
  basket :: "('w, 't, 'q) basket"
  io :: "'f io_ops"
  parcels :: "parcel list"
  bytes :: "parcel_key \<Rightarrow> string"
  home :: "parcel_key \<Rightarrow> u16"

text \<open>
  Where the client of a parcel is: before \<open>Publish\<close>, between the push and the mark, after a push that was refused,
  after \<open>Publish\<close>, and after \<open>Wait\<close>.
\<close>

datatype client_pc = Before | Pushed | Refused | Published | Waited

record ('w, 't, 'q, 'f) system =
  shared :: "('w, 't, 'q, 'f) world"
  popped :: "parcel list"                   \<comment> \<open>taken by a source task, not yet run\<close>
  in_flight :: "parcel list"                \<comment> \<open>emitted by a source task, on the way to a sink task\<close>
  client :: "parcel_key \<Rightarrow> client_pc"

definition at_home :: "('w, 't, 'q, 'f) setting \<Rightarrow> parcel \<Rightarrow> ('w, 't, 'q) basket" where
  "at_home S p = (basket S)\<lparr>my_server := home S (key_of p)\<rparr>"

inductive broker_step :: "('w, 't, 'q, 'f) setting \<Rightarrow> ('w, 't, 'q, 'f) system \<Rightarrow> ('w, 't, 'q, 'f) system \<Rightarrow> bool"
  for S where
  Push: "\<lbrakk>p \<in> set (parcels S); client sys (key_of p) = Before;
      publish_store (at_home S p) p (bytes S (key_of p)) (fst (shared sys)) = Inr (True, s)\<rbrakk>
    \<Longrightarrow> broker_step S sys (sys\<lparr>shared := (s, snd (shared sys)), client := (client sys)(key_of p := Pushed)\<rparr>)"
| Refuse: "\<lbrakk>p \<in> set (parcels S); client sys (key_of p) = Before;
      publish_store (at_home S p) p (bytes S (key_of p)) (fst (shared sys)) = Inr (False, s)\<rbrakk>
    \<Longrightarrow> broker_step S sys (sys\<lparr>shared := (s, snd (shared sys)), client := (client sys)(key_of p := Refused)\<rparr>)"
| Mark: "\<lbrakk>p \<in> set (parcels S); client sys (key_of p) = Pushed;
      publish_mark (at_home S p) now p (fst (shared sys)) = (ok, s)\<rbrakk>
    \<Longrightarrow> broker_step S sys (sys\<lparr>shared := (s, snd (shared sys)), client := (client sys)(key_of p := Published)\<rparr>)"
| Take: "\<lbrakk>GetWriteParsel (basket S) srv (fst (shared sys)) = Some (es, s)\<rbrakk>
    \<Longrightarrow> broker_step S sys (sys\<lparr>shared := (s, snd (shared sys)), popped := popped sys @ es\<rparr>)"
| Save: "\<lbrakk>e \<in> set (popped sys)\<rbrakk>
    \<Longrightarrow> broker_step S sys (sys\<lparr>shared := write_source_parcel (basket S) (io S) now e (shared sys),
          popped := remove1 e (popped sys), in_flight := in_flight sys @ [e]\<rparr>)"
| Store: "\<lbrakk>e \<in> set (in_flight sys)\<rbrakk>
    \<Longrightarrow> broker_step S sys (sys\<lparr>shared := write_sink_Run (basket S) (io S) now e (shared sys),
          in_flight := remove1 e (in_flight sys)\<rparr>)"
| Direct: "\<lbrakk>e \<in> set (popped sys)\<rbrakk>
    \<Longrightarrow> broker_step S sys (sys\<lparr>shared := iof_source_parcel (basket S) (io S) now e (shared sys),
          popped := remove1 e (popped sys)\<rparr>)"
| Collect: "\<lbrakk>p \<in> set (parcels S); client sys (key_of p) = Published;
      Wait (basket S) (\<lambda>n s. s) p (fst (shared sys)) = Some (v, n, s)\<rbrakk>
    \<Longrightarrow> broker_step S sys (sys\<lparr>shared := (s, snd (shared sys)), client := (client sys)(key_of p := Waited)\<rparr>)"

inductive_cases broker_stepE: "broker_step S sys sys'"

text \<open>
  Nothing is queued, on the way or known of the parcels, and their temporary names are free; there may be other files,
  earlier contents of the parcels' files and data of others.
\<close>

definition broker_start :: "('w, 't, 'q, 'f) setting \<Rightarrow> ('w, 't, 'q, 'f) system \<Rightarrow> bool" where
  "broker_start S sys =
     (popped sys = [] \<and> in_flight sys = [] \<and> client sys = (\<lambda>_. Before)
      \<and> to_write (basket S) (fst (shared sys)) = (\<lambda>_. [])
      \<and> (\<forall>p \<in> set (parcels S). state_of (basket S) (fst (shared sys)) (key_of p) = None
           \<and> files (io S) (snd (shared sys)) (temp_file (basket S) (io S) p) = None))"

text \<open>
  The parcels differ in their keys, ranges and temporary names, the callers' buffers are as long as announced,
  and the containers and the storage do what they document.
\<close>

definition payload :: "('w, 't, 'q, 'f) setting \<Rightarrow> parcel \<Rightarrow> string" where
  "payload S p = take (unat (data_size p)) (bytes S (key_of p))"

definition proper :: "('w, 't, 'q, 'f) setting \<Rightarrow> bool" where
  "proper S =
     (basket_laws (basket S) \<and> io_laws (io S)
      \<and> all_apart (io S) (parcels S) \<and> temps_apart (basket S) (io S) (parcels S)
      \<and> (\<forall>p \<in> set (parcels S). unat (data_size p) \<le> length (bytes S (key_of p))))"

section \<open>The specification: the life of a parcel\<close>

datatype place = Outside | In_queue | Taken | In_temp | In_file

record life =
  place :: "parcel_key \<Rightarrow> place"
  progress :: "parcel_key \<Rightarrow> client_pc"
  late :: "parcel_key set"                  \<comment> \<open>parcels that were marked when they were in their files already\<close>

inductive life_step :: "life \<Rightarrow> life \<Rightarrow> bool" where
  Accepted: "\<lbrakk>place a k = Outside; progress a k = Before\<rbrakk>
    \<Longrightarrow> life_step a (a\<lparr>place := (place a)(k := In_queue), progress := (progress a)(k := Pushed)\<rparr>)"
| Rejected: "\<lbrakk>place a k = Outside; progress a k = Before\<rbrakk> \<Longrightarrow> life_step a (a\<lparr>progress := (progress a)(k := Refused)\<rparr>)"
| Marked: "\<lbrakk>progress a k = Pushed\<rbrakk>
    \<Longrightarrow> life_step a (a\<lparr>progress := (progress a)(k := Published), late := (if place a k = In_file then insert k (late a) else late a)\<rparr>)"
| Fetched: "\<lbrakk>\<forall>k \<in> K. place a k = In_queue\<rbrakk> \<Longrightarrow> life_step a (a\<lparr>place := (\<lambda>k. if k \<in> K then Taken else place a k)\<rparr>)"
| Saved: "\<lbrakk>place a k = Taken\<rbrakk> \<Longrightarrow> life_step a (a\<lparr>place := (place a)(k := In_temp)\<rparr>)"
| Stored: "\<lbrakk>place a k = In_temp\<rbrakk> \<Longrightarrow> life_step a (a\<lparr>place := (place a)(k := In_file)\<rparr>)"
| Stored_at_once: "\<lbrakk>place a k = Taken\<rbrakk> \<Longrightarrow> life_step a (a\<lparr>place := (place a)(k := In_file)\<rparr>)"
| Collected: "\<lbrakk>place a k = In_file; progress a k = Published; k \<notin> late a\<rbrakk>
    \<Longrightarrow> life_step a (a\<lparr>progress := (progress a)(k := Waited)\<rparr>)"

definition unborn :: life where
  "unborn = \<lparr>place = (\<lambda>_. Outside), progress = (\<lambda>_. Before), late = {}\<rparr>"

text \<open>What the steps keep: a parcel is somewhere exactly when its push was accepted.\<close>

definition life_inv :: "life \<Rightarrow> bool" where
  "life_inv a = (\<forall>k. (place a k = Outside \<longleftrightarrow> progress a k \<in> {Before, Refused})
     \<and> (progress a k = Waited \<longrightarrow> place a k = In_file \<and> k \<notin> late a)
     \<and> (k \<in> late a \<longrightarrow> place a k = In_file \<and> progress a k = Published))"

lemma life_inv_unborn: "life_inv unborn"
  by (simp add: life_inv_def unborn_def)

lemma life_inv_step: "life_step a b \<Longrightarrow> life_inv a \<Longrightarrow> life_inv b"
  by (induction rule: life_step.induct) (auto simp: life_inv_def split: if_splits; metis place.distinct client_pc.distinct)+

section \<open>The simulation relation\<close>

fun key_of_wire :: "wire \<Rightarrow> parcel_key" where
  "key_of_wire (i, pos, sz, si, u) = (i, u)"

lemma key_of_wire_of [simp]: "key_of_wire (wire_of p) = key_of p"
  by (simp add: wire_of_def key_of_def)

definition known :: "('w, 't, 'q, 'f) setting \<Rightarrow> wire set" where
  "known S = wire_of ` set (parcels S)"

text \<open>The keys of a list of wires: each once, and those of a given set.\<close>

definition lists_keys :: "('w, 't, 'q, 'f) setting \<Rightarrow> wire list \<Rightarrow> parcel_key set \<Rightarrow> bool" where
  "lists_keys S xs K = (set xs \<subseteq> known S \<and> distinct (map key_of_wire xs) \<and> key_of_wire ` set xs = K)"

text \<open>The contents of the containers and files for a parcel at a place.\<close>

definition held :: "('w, 't, 'q, 'f) setting \<Rightarrow> ('w, 't, 'q, 'f) world \<Rightarrow> place \<Rightarrow> parcel \<Rightarrow> bool" where
  "held S w pl p =
     (let d = data_of (basket S) (fst w) (key_of p);
          free = (files (io S) (snd w) (temp_file (basket S) (io S) p) = None)
      in case pl of Outside \<Rightarrow> free
         | In_queue \<Rightarrow> d = Some (payload S p) \<and> free
         | Taken \<Rightarrow> d = Some (payload S p) \<and> free
         | In_temp \<Rightarrow> d = None \<and> in_temp (basket S) (io S) (snd w) p (payload S p)
         | In_file \<Rightarrow> d = None \<and> in_file (io S) (snd w) p (payload S p) \<and> free)"

text \<open>What the state of a parcel can say.\<close>

definition says :: "place \<Rightarrow> client_pc \<Rightarrow> bool \<Rightarrow> task_status option \<Rightarrow> bool" where
  "says pl pc is_late told =
     (case pl of Outside \<Rightarrow> told = None
      | In_queue \<Rightarrow> told = (if pc = Published then Some QUEUED else None)
      | Taken \<Rightarrow> told = (if pc = Published then Some QUEUED else None)
      | In_temp \<Rightarrow> told = Some IN_PROGRESS \<or> (pc = Published \<and> told = Some QUEUED)
      | In_file \<Rightarrow> told = (if pc = Waited then None else if is_late then Some QUEUED else Some DONE))"

definition told_status :: "('w, 't, 'q, 'f) setting \<Rightarrow> ('w, 't, 'q, 'f) system \<Rightarrow> parcel_key \<Rightarrow> task_status option" where
  "told_status S sys k = map_option status (state_of (basket S) (fst (shared sys)) k)"

definition tracks :: "('w, 't, 'q, 'f) setting \<Rightarrow> ('w, 't, 'q, 'f) system \<Rightarrow> life \<Rightarrow> bool" where
  "tracks S sys a =
     (client sys = progress a \<and> life_inv a
      \<and> (\<forall>srv. lists_keys S (to_write (basket S) (fst (shared sys)) srv) {k. place a k = In_queue \<and> home S k = srv})
      \<and> lists_keys S (map wire_of (popped sys)) {k. place a k = Taken}
      \<and> lists_keys S (map wire_of (in_flight sys)) {k. place a k = In_temp}
      \<and> (\<forall>p \<in> set (parcels S). held S (shared sys) (place a (key_of p)) p
           \<and> says (place a (key_of p)) (progress a (key_of p)) (key_of p \<in> late a) (told_status S sys (key_of p))))"

section \<open>Lists of keys\<close>

lemma lists_keys_Nil [simp]: "lists_keys S [] K \<longleftrightarrow> K = {}"
  by (auto simp: lists_keys_def)

lemma lists_keys_append:
  "lists_keys S xs K \<Longrightarrow> lists_keys S ys L \<Longrightarrow> K \<inter> L = {} \<Longrightarrow> lists_keys S (xs @ ys) (K \<union> L)"
  by (auto simp: lists_keys_def)

lemma lists_keys_snoc:
  "lists_keys S xs K \<Longrightarrow> wire_of p \<in> known S \<Longrightarrow> key_of p \<notin> K \<Longrightarrow> lists_keys S (xs @ [wire_of p]) (insert (key_of p) K)"
  by (auto simp: lists_keys_def)

lemma lists_keys_remove:
  assumes "lists_keys S (map wire_of es) K" "e \<in> set es"
  shows "lists_keys S (map wire_of (remove1 e es)) (K - {key_of e})"
proof -
  have d: "distinct (map key_of es)" and K: "key_of ` set es = K" and k: "wire_of ` set es \<subseteq> known S"
    using assms(1) by (auto simp: lists_keys_def image_image comp_def)
  then have "distinct es" by (simp add: distinct_map)
  then have r: "set (remove1 e es) = set es - {e}" by simp
  have "key_of ` (set es - {e}) = K - {key_of e}"
    using d K assms(2) by (auto simp: distinct_map inj_on_def)
  moreover have "distinct (map key_of (remove1 e es))"
    using d r by (auto simp: distinct_map distinct_remove1 inj_on_def)
  ultimately show ?thesis
    using k r by (auto simp: lists_keys_def image_image comp_def)
qed

lemma lists_keys_member:
  assumes "lists_keys S (map wire_of es) K" "e \<in> set es"
  shows "wire_of e \<in> known S" "key_of e \<in> K"
  using assms by (auto simp: lists_keys_def image_image)

section \<open>A setting\<close>

lemma properD:
  assumes "proper S"
  shows "basket_laws (basket S)" "io_laws (io S)" "basket_laws (at_home S p)"
    "p \<in> set (parcels S) \<Longrightarrow> length (payload S p) = unat (data_size p)"
    "p \<in> set (parcels S) \<Longrightarrow> temp_file (basket S) (io S) p \<noteq> target_file (io S) p"
  using assms temps_apartD(1) [of "basket S" "io S" "parcels S" p p]
  by (auto simp: proper_def payload_def at_home_def basket_laws_def)

lemma proper_apart:
  assumes "proper S" "p \<in> set (parcels S)" "q \<in> set (parcels S)" "key_of p \<noteq> key_of q"
  shows "apart (io S) p q" "temp_file (basket S) (io S) p \<noteq> temp_file (basket S) (io S) q"
    "temp_file (basket S) (io S) p \<noteq> target_file (io S) q" "temp_file (basket S) (io S) q \<noteq> target_file (io S) p"
  using assms all_apartD [of "io S" "parcels S" p q] temps_apartD [of "basket S" "io S" "parcels S"]
  by (auto simp: proper_def)

lemma known_parcel:
  assumes "wire_of e \<in> known S"
  obtains p where "p \<in> set (parcels S)" "wire_of p = wire_of e"
  using assms by (auto simp: known_def)

text \<open>What came out of a queue is as good as the parcel that went in.\<close>

lemma payload_wire: "wire_of p = wire_of q \<Longrightarrow> payload S p = payload S q"
  by (simp add: payload_def wire_congs [of p q])

lemma held_wire: "wire_of p = wire_of q \<Longrightarrow> held S w pl p = held S w pl q"
  by (simp add: held_def payload_wire [of p q] wire_congs [of p q] cong: place.case_cong)

lemma at_home_views [simp]:
  "data_of (at_home S p) = data_of (basket S)" "state_of (at_home S p) = state_of (basket S)"
  "to_write (at_home S p) = to_write (basket S)" "to_read (at_home S p) = to_read (basket S)" "my_server (at_home S p) = home S (key_of p)"
  by (simp_all add: at_home_def view_defs fun_eq_iff)

text \<open>A step on one parcel leaves what is held of the others, if it keeps their data and files.\<close>

lemma held_frame:
  assumes "held S w pl p" "data_of (basket S) (fst w') (key_of p) = data_of (basket S) (fst w) (key_of p)"
    and "files (io S) (snd w') (temp_file (basket S) (io S) p) = files (io S) (snd w) (temp_file (basket S) (io S) p)"
    and "in_file (io S) (snd w) p (payload S p) \<Longrightarrow> in_file (io S) (snd w') p (payload S p)"
  shows "held S w' pl p"
  using assms by (cases pl) (auto simp: held_def in_temp_def)

section \<open>The tasks, one parcel at a time\<close>

lemma payload_fits:
  assumes "proper S" "wire_of e \<in> known S"
  shows "length (payload S e) = unat (data_size e)" "temp_file (basket S) (io S) e \<noteq> target_file (io S) e"
proof -
  obtain q where q: "q \<in> set (parcels S)" "wire_of q = wire_of e" using known_parcel [OF assms(2)] .
  show "length (payload S e) = unat (data_size e)"
    using properD(4) [OF assms(1) q(1)] by (simp add: payload_wire [OF q(2)] wire_congs [OF q(2)])
  show "temp_file (basket S) (io S) e \<noteq> target_file (io S) e"
    using properD(5) [OF assms(1) q(1)] by (simp add: wire_congs [OF q(2)])
qed

lemma save_effect:
  assumes "proper S" "wire_of e \<in> known S" "held S w Taken e"
  shows "data_of (basket S) (fst (write_source_parcel (basket S) (io S) now e w)) = (data_of (basket S) (fst w))(key_of e := None)"
    "\<exists>old. files (io S) (snd (write_source_parcel (basket S) (io S) now e w))
       = (files (io S) (snd w))(temp_file (basket S) (io S) e \<mapsto> splice old 0 (payload S e))"
  using write_source_effect(1,4) [OF properD(1,2) [OF assms(1)] _ payload_fits(1) [OF assms(1,2)] refl] assms(3)
  by (simp_all add: held_def)

lemma store_effect:
  assumes "proper S" "wire_of e \<in> known S" "held S w In_temp e"
  shows "data_of (basket S) (fst (write_sink_Run (basket S) (io S) now e w)) = data_of (basket S) (fst w)"
    "files (io S) (snd (write_sink_Run (basket S) (io S) now e w))
       = (files (io S) (snd w))(temp_file (basket S) (io S) e := None, target_file (io S) e \<mapsto>
           splice (old_content (files (io S) (snd w) (target_file (io S) e))) (unat (position e)) (payload S e))"
  using write_sink_effect(1,3) [OF properD(1,2) [OF assms(1)] _ payload_fits [OF assms(1,2)] refl] assms(3)
  by (simp_all add: held_def)

lemma direct_effect:
  assumes "proper S" "wire_of e \<in> known S" "held S w Taken e"
  shows "data_of (basket S) (fst (iof_source_parcel (basket S) (io S) now e w)) = (data_of (basket S) (fst w))(key_of e := None)"
    "files (io S) (snd (iof_source_parcel (basket S) (io S) now e w)) = (files (io S) (snd w))(target_file (io S) e \<mapsto>
           splice (old_content (files (io S) (snd w) (target_file (io S) e))) (unat (position e)) (payload S e))"
  using iof_source_effect(1,3) [OF properD(1,2) [OF assms(1)] _ payload_fits(1) [OF assms(1,2)] refl] assms(3)
  by (simp_all add: held_def)

lemma save_held:
  assumes "proper S" "wire_of e \<in> known S" "held S w Taken e" "w' = write_source_parcel (basket S) (io S) now e w"
  shows "held S w' In_temp e"
    "p \<in> set (parcels S) \<Longrightarrow> key_of p \<noteq> key_of e \<Longrightarrow> held S w pl p \<Longrightarrow> held S w' pl p"
    "state_of (basket S) (fst w') = (state_of (basket S) (fst w))(key_of e \<mapsto> ParcelState now IN_PROGRESS)"
    "to_write (basket S) (fst w') = to_write (basket S) (fst w)"
proof -
  obtain q where q: "q \<in> set (parcels S)" "wire_of q = wire_of e" using known_parcel [OF assms(2)] .
  have data: "data_of (basket S) (fst w) (key_of e) = Some (payload S e)" using assms(3) by (simp add: held_def)
  note eff = write_source_effect [OF properD(1,2) [OF assms(1)] data payload_fits(1) [OF assms(1,2)] assms(4)]
  show "state_of (basket S) (fst w') = (state_of (basket S) (fst w))(key_of e \<mapsto> ParcelState now IN_PROGRESS)"
    "to_write (basket S) (fst w') = to_write (basket S) (fst w)" by (fact eff)+
  show "held S w' In_temp e" using eff(1,5) by (simp add: held_def)
  obtain old where f: "files (io S) (snd w') = (files (io S) (snd w))(temp_file (basket S) (io S) e \<mapsto> splice old 0 (payload S e))"
    using eff(4) by blast
  show "held S w' pl p" if p: "p \<in> set (parcels S)" "key_of p \<noteq> key_of e" "held S w pl p"
  proof (rule held_frame [OF p(3)])
    have "key_of p \<noteq> key_of q" using p(2) by (simp add: wire_congs [OF q(2)])
    note ap = proper_apart [OF assms(1) p(1) q(1) this, unfolded wire_congs [OF q(2)]]
    show "data_of (basket S) (fst w') (key_of p) = data_of (basket S) (fst w) (key_of p)"
      using p(2) by (simp add: eff(1))
    show "files (io S) (snd w') (temp_file (basket S) (io S) p) = files (io S) (snd w) (temp_file (basket S) (io S) p)"
      using ap by (simp add: f)
    show "in_file (io S) (snd w) p (payload S p) \<Longrightarrow> in_file (io S) (snd w') p (payload S p)"
      using ap by (simp add: in_file_def f)
  qed
qed

lemma store_held:
  assumes "proper S" "wire_of e \<in> known S" "held S w In_temp e" "w' = write_sink_Run (basket S) (io S) now e w"
  shows "held S w' In_file e"
    "p \<in> set (parcels S) \<Longrightarrow> key_of p \<noteq> key_of e \<Longrightarrow> held S w pl p \<Longrightarrow> held S w' pl p"
    "state_of (basket S) (fst w') = (state_of (basket S) (fst w))(key_of e \<mapsto> ParcelState now DONE)"
    "to_write (basket S) (fst w') = to_write (basket S) (fst w)"
proof -
  obtain q where q: "q \<in> set (parcels S)" "wire_of q = wire_of e" using known_parcel [OF assms(2)] .
  let ?T = "temp_file (basket S) (io S)" and ?G = "target_file (io S)"
  have temp: "in_temp (basket S) (io S) (snd w) e (payload S e)" using assms(3) by (simp add: held_def)
  note len = payload_fits(1) [OF assms(1,2)] and ne = payload_fits(2) [OF assms(1,2)]
  note eff = write_sink_effect [OF properD(1,2) [OF assms(1)] temp len ne assms(4)]
  show "state_of (basket S) (fst w') = (state_of (basket S) (fst w))(key_of e \<mapsto> ParcelState now DONE)" by (fact eff)
  show "to_write (basket S) (fst w') = to_write (basket S) (fst w)"
    using properD(1) [OF assms(1)] by (simp add: assms(4) write_sink_Run_def Let_def case_prod_beta)
  show "held S w' In_file e" using eff(1,3,4) assms(3) ne by (simp add: held_def)
  show "held S w' pl p" if p: "p \<in> set (parcels S)" "key_of p \<noteq> key_of e" "held S w pl p"
  proof (rule held_frame [OF p(3)])
    have "key_of p \<noteq> key_of q" using p(2) by (simp add: wire_congs [OF q(2)])
    note ap = proper_apart [OF assms(1) p(1) q(1) this, unfolded wire_congs [OF q(2)]]
    let ?F = "(files (io S) (snd w))(?T e := None)"
    have f: "files (io S) (snd w') = ?F(?G e \<mapsto> splice (old_content (?F (?G e))) (unat (position e)) (payload S e))"
      using eff(3) ne by simp
    show "data_of (basket S) (fst w') (key_of p) = data_of (basket S) (fst w) (key_of p)" by (simp add: eff(1))
    show "files (io S) (snd w') (?T p) = files (io S) (snd w) (?T p)" using ap by (simp add: f)
    show "in_file (io S) (snd w') p (payload S p)" if "in_file (io S) (snd w) p (payload S p)"
      by (rule in_file_other [OF f _ len ap(1) that]) (use ap in simp)
  qed
qed

lemma direct_held:
  assumes "proper S" "wire_of e \<in> known S" "held S w Taken e" "w' = iof_source_parcel (basket S) (io S) now e w"
  shows "held S w' In_file e"
    "p \<in> set (parcels S) \<Longrightarrow> key_of p \<noteq> key_of e \<Longrightarrow> held S w pl p \<Longrightarrow> held S w' pl p"
    "state_of (basket S) (fst w') = (state_of (basket S) (fst w))(key_of e \<mapsto> ParcelState now DONE)"
    "to_write (basket S) (fst w') = to_write (basket S) (fst w)"
proof -
  obtain q where q: "q \<in> set (parcels S)" "wire_of q = wire_of e" using known_parcel [OF assms(2)] .
  let ?T = "temp_file (basket S) (io S)"
  have data: "data_of (basket S) (fst w) (key_of e) = Some (payload S e)" and free: "files (io S) (snd w) (?T e) = None"
    using assms(3) by (simp_all add: held_def)
  note len = payload_fits(1) [OF assms(1,2)] and ne = payload_fits(2) [OF assms(1,2)]
  note eff = iof_source_effect [OF properD(1,2) [OF assms(1)] data len assms(4)]
  show "state_of (basket S) (fst w') = (state_of (basket S) (fst w))(key_of e \<mapsto> ParcelState now DONE)" by (fact eff)
  show "to_write (basket S) (fst w') = to_write (basket S) (fst w)"
    using properD(1) [OF assms(1)] by (simp add: assms(4) iof_source_parcel_def Let_def case_prod_beta)
  show "held S w' In_file e" using eff(1,3,4) free ne by (simp add: held_def)
  show "held S w' pl p" if p: "p \<in> set (parcels S)" "key_of p \<noteq> key_of e" "held S w pl p"
  proof (rule held_frame [OF p(3)])
    have "key_of p \<noteq> key_of q" using p(2) by (simp add: wire_congs [OF q(2)])
    note ap = proper_apart [OF assms(1) p(1) q(1) this, unfolded wire_congs [OF q(2)]]
    show "data_of (basket S) (fst w') (key_of p) = data_of (basket S) (fst w) (key_of p)"
      using p(2) by (simp add: eff(1))
    show "files (io S) (snd w') (?T p) = files (io S) (snd w) (?T p)" using ap by (simp add: eff(3))
    show "in_file (io S) (snd w') p (payload S p)" if "in_file (io S) (snd w) p (payload S p)"
      by (rule in_file_other [OF eff(3) _ len ap(1) that]) simp
  qed
qed

section \<open>Every step of the system is a step in the lives of the parcels\<close>

lemma tracksD:
  assumes "tracks S sys a"
  shows "client sys = progress a" "life_inv a"
    "lists_keys S (to_write (basket S) (fst (shared sys)) srv) {k. place a k = In_queue \<and> home S k = srv}"
    "lists_keys S (map wire_of (popped sys)) {k. place a k = Taken}"
    "lists_keys S (map wire_of (in_flight sys)) {k. place a k = In_temp}"
    "p \<in> set (parcels S) \<Longrightarrow> held S (shared sys) (place a (key_of p)) p"
    "p \<in> set (parcels S) \<Longrightarrow>
       says (place a (key_of p)) (progress a (key_of p)) (key_of p \<in> late a) (told_status S sys (key_of p))"
  using assms by (auto simp: tracks_def)

text \<open>What the tasks have in their hands.\<close>

lemma popped_held:
  assumes "tracks S sys a" "e \<in> set (popped sys)"
  shows "wire_of e \<in> known S" "place a (key_of e) = Taken" "held S (shared sys) Taken e"
proof -
  note t = tracksD [OF assms(1)]
  show known: "wire_of e \<in> known S" and taken: "place a (key_of e) = Taken" using lists_keys_member [OF t(4) assms(2)] by simp_all
  obtain p where p: "p \<in> set (parcels S)" "wire_of p = wire_of e" using known_parcel [OF known] .
  show "held S (shared sys) Taken e" using t(6) [OF p(1)] taken by (simp add: held_wire [OF p(2)] wire_congs [OF p(2)])
qed

lemma flight_held:
  assumes "tracks S sys a" "e \<in> set (in_flight sys)"
  shows "wire_of e \<in> known S" "place a (key_of e) = In_temp" "held S (shared sys) In_temp e"
proof -
  note t = tracksD [OF assms(1)]
  show known: "wire_of e \<in> known S" and temp: "place a (key_of e) = In_temp" using lists_keys_member [OF t(5) assms(2)] by simp_all
  obtain p where p: "p \<in> set (parcels S)" "wire_of p = wire_of e" using known_parcel [OF known] .
  show "held S (shared sys) In_temp e" using t(6) [OF p(1)] temp by (simp add: held_wire [OF p(2)] wire_congs [OF p(2)])
qed

lemma life_invD:
  assumes "life_inv a"
  shows "place a k = Outside \<longleftrightarrow> progress a k \<in> {Before, Refused}"
    "progress a k = Waited \<Longrightarrow> place a k = In_file \<and> k \<notin> late a"
    "k \<in> late a \<Longrightarrow> place a k = In_file \<and> progress a k = Published"
  using assms unfolding life_inv_def by blast+

lemma held_data_frame:
  assumes "held S w pl p" "data_of (basket S) (fst w') (key_of p) = data_of (basket S) (fst w) (key_of p)" "snd w' = snd w"
  shows "held S w' pl p"
  using assms by (cases pl) (auto simp: held_def)

lemma publish_refused_effect:
  assumes "basket_laws B" "publish_store B p data s = Inr (False, s')"
  shows "data_of B s' = (data_of B s)(key_of p \<mapsto> take (unat (data_size p)) data)"
    "state_of B s' = state_of B s" "to_write B s' = to_write B s"
proof -
  from assms(2) have n: "unat (data_size p) \<le> length data"
    by (simp add: publish_store_def string_of_buffer_def split: if_splits)
  let ?d = "take (unat (data_size p)) data"
  obtain ok s1 where put: "PutData B p ?d s = (ok, s1)" by (cases "PutData B p ?d s")
  then have s1: "s1 = snd (PutData B p ?d s)" by simp
  have ok: "ok"
    using put map_total_put(1) [OF basket_lawsD(1) [OF assms(1)]] by (auto simp: PutData_def split: prod.splits) (metis fst_conv)
  obtain ok2 q where q: "q_push (qu B) p (my_server B) (write_queue s1) = (ok2, q)"
    by (cases "q_push (qu B) p (my_server B) (write_queue s1)")
  from assms(2) n ok have *: "\<not> ok2" "s' = s1\<lparr>write_queue := q\<rparr>"
    by (auto simp: publish_store_def string_of_buffer_def put q split: if_splits)
  have v: "data_of B s' = data_of B s1" "state_of B s' = state_of B s1"
    by (simp_all add: * view_defs)
  show "data_of B s' = (data_of B s)(key_of p \<mapsto> ?d)" "state_of B s' = state_of B s"
    using assms(1) by (simp_all add: v s1)
  have "to_write B s' = to_write B s1"
    using queue_push_waiting [OF basket_lawsD(5) [OF assms(1)], of p "my_server B" "write_queue s1"] q *
    by (simp add: view_defs)
  then show "to_write B s' = to_write B s" using assms(1) by (simp add: s1)
qed

lemma publish_mark_effect:
  assumes "basket_laws B" "publish_mark B now p s = (ok, s')"
  shows "ok" "data_of B s' = data_of B s" "to_write B s' = to_write B s"
    "state_of B s' = (state_of B s)(key_of p \<mapsto> ParcelState now QUEUED)"
  using assms(2) map_total_put [OF basket_lawsD(2) [OF assms(1)], of p "ParcelState now QUEUED" "parsel_state s"]
  by (auto simp: publish_mark_def view_defs split: prod.splits)

lemma track_push:
  assumes "proper S" "tracks S sys a" "p \<in> set (parcels S)" "client sys (key_of p) = Before"
    and "publish_store (at_home S p) p (bytes S (key_of p)) (fst (shared sys)) = Inr (True, s)"
  shows "tracks S (sys\<lparr>shared := (s, snd (shared sys)), client := (client sys)(key_of p := Pushed)\<rparr>)
    (a\<lparr>place := (place a)(key_of p := In_queue), progress := (progress a)(key_of p := Pushed)\<rparr>)"
    (is "tracks S ?sys ?a")
proof -
  note t = tracksD [OF assms(2)]
  let ?k = "key_of p"
  have before: "progress a ?k = Before" "place a ?k = Outside"
    using assms(4) life_invD(1) [OF t(2), of ?k] by (simp_all add: t(1))
  note eff = publish_store_effect [OF properD(3) [OF assms(1)] assms(5), unfolded at_home_views]
  have known: "wire_of p \<in> known S" using assms(3) by (simp add: known_def)
  have inv: "life_inv ?a" using life_inv_step [OF Accepted] before t(2) by blast
  have queue: "lists_keys S (to_write (basket S) s srv) {k. place ?a k = In_queue \<and> home S k = srv}" for srv
  proof (cases "srv = home S ?k")
    case True
    have "lists_keys S (to_write (basket S) (fst (shared sys)) srv @ [wire_of p])
        (insert ?k {k. place a k = In_queue \<and> home S k = srv})"
      by (rule lists_keys_snoc [OF t(3) known]) (simp add: before)
    then show ?thesis using True by (auto simp: eff(4) elim!: back_subst [where P = "lists_keys S xs" for xs])
  next
    case False
    then have "{k. place ?a k = In_queue \<and> home S k = srv} = {k. place a k = In_queue \<and> home S k = srv}" by auto
    with t(3) [of srv] False show ?thesis by (simp add: eff(4))
  qed
  have "{k. place ?a k = Taken} = {k. place a k = Taken}" "{k. place ?a k = In_temp} = {k. place a k = In_temp}"
    using before by auto
  moreover have "held S (shared ?sys) (place ?a (key_of q)) q" if "q \<in> set (parcels S)" for q
  proof (cases "key_of q = ?k")
    case True
    then have "q = p" using that assms(1,3) all_apartD(1) by (auto simp: proper_def)
    then show ?thesis using t(6) [OF that] before by (simp add: held_def eff(1) payload_def)
  next
    case False
    from held_data_frame [OF t(6) [OF that], of "shared ?sys"] False show ?thesis by (simp add: eff(1))
  qed
  moreover have "says (place ?a (key_of q)) (progress ?a (key_of q)) (key_of q \<in> late ?a) (told_status S ?sys (key_of q))"
    if "q \<in> set (parcels S)" for q
  proof -
    have "told_status S ?sys (key_of q) = told_status S sys (key_of q)" by (simp add: told_status_def eff(2))
    with t(7) [OF that] before show ?thesis by (cases "key_of q = ?k") (simp_all add: says_def)
  qed
  ultimately show ?thesis
    using t(1,4,5) inv queue by (simp add: tracks_def)
qed

lemma track_refuse:
  assumes "proper S" "tracks S sys a" "p \<in> set (parcels S)" "client sys (key_of p) = Before"
    and "publish_store (at_home S p) p (bytes S (key_of p)) (fst (shared sys)) = Inr (False, s)"
  shows "tracks S (sys\<lparr>shared := (s, snd (shared sys)), client := (client sys)(key_of p := Refused)\<rparr>)
    (a\<lparr>progress := (progress a)(key_of p := Refused)\<rparr>)" (is "tracks S ?sys ?a")
proof -
  note t = tracksD [OF assms(2)]
  let ?k = "key_of p"
  have before: "progress a ?k = Before" "place a ?k = Outside"
    using assms(4) life_invD(1) [OF t(2), of ?k] by (simp_all add: t(1))
  note eff = publish_refused_effect [OF properD(3) [OF assms(1)] assms(5), unfolded at_home_views]
  have inv: "life_inv ?a" using life_inv_step [OF Rejected] before t(2) by blast
  have "held S (shared ?sys) (place a (key_of q)) q" if "q \<in> set (parcels S)" for q
  proof (cases "key_of q = ?k")
    case True
    then show ?thesis using t(6) [OF that] before by (simp add: held_def)
  next
    case False
    from held_data_frame [OF t(6) [OF that], of "shared ?sys"] False show ?thesis by (simp add: eff(1))
  qed
  moreover have "says (place a (key_of q)) (progress ?a (key_of q)) (key_of q \<in> late a) (told_status S ?sys (key_of q))"
    if "q \<in> set (parcels S)" for q
  proof -
    have "told_status S ?sys (key_of q) = told_status S sys (key_of q)" by (simp add: told_status_def eff(2))
    with t(7) [OF that] before show ?thesis by (cases "key_of q = ?k") (simp_all add: says_def)
  qed
  ultimately show ?thesis
    using t(1,3,4,5) inv by (simp add: tracks_def eff(3))
qed

lemma track_mark:
  assumes "proper S" "tracks S sys a" "p \<in> set (parcels S)" "client sys (key_of p) = Pushed"
    and "publish_mark (at_home S p) now p (fst (shared sys)) = (ok, s)"
  shows "tracks S (sys\<lparr>shared := (s, snd (shared sys)), client := (client sys)(key_of p := Published)\<rparr>)
    (a\<lparr>progress := (progress a)(key_of p := Published), late := (if place a (key_of p) = In_file then insert (key_of p) (late a) else late a)\<rparr>)"
    (is "tracks S ?sys ?a")
proof -
  note t = tracksD [OF assms(2)]
  let ?k = "key_of p"
  have pushed: "progress a ?k = Pushed" using assms(4) by (simp add: t(1))
  then have "place a ?k \<noteq> Outside" using life_invD(1) [OF t(2), of ?k] by simp
  note eff = publish_mark_effect [OF properD(3) [OF assms(1)] assms(5), unfolded at_home_views]
  have inv: "life_inv ?a" using life_inv_step [OF Marked] pushed t(2) by blast
  have "held S (shared ?sys) (place a (key_of q)) q" if "q \<in> set (parcels S)" for q
    using held_data_frame [OF t(6) [OF that], of "shared ?sys"] by (simp add: eff(2))
  moreover have "says (place a (key_of q)) (progress ?a (key_of q)) (key_of q \<in> late ?a) (told_status S ?sys (key_of q))"
    if "q \<in> set (parcels S)" for q
  proof (cases "key_of q = ?k")
    case True
    have "told_status S ?sys ?k = Some QUEUED" by (simp add: told_status_def eff(4))
    with \<open>place a ?k \<noteq> Outside\<close> show ?thesis by (cases "place a ?k") (simp_all add: says_def True)
  next
    case False
    then have "told_status S ?sys (key_of q) = told_status S sys (key_of q)" by (simp add: told_status_def eff(4))
    with t(7) [OF that] False show ?thesis by simp
  qed
  ultimately show ?thesis
    using t(1,3,4,5) inv by (simp add: tracks_def eff(3))
qed

lemma track_take:
  assumes "proper S" "tracks S sys a" "GetWriteParsel (basket S) srv (fst (shared sys)) = Some (es, s)"
  shows "tracks S (sys\<lparr>shared := (s, snd (shared sys)), popped := popped sys @ es\<rparr>)
    (a\<lparr>place := (\<lambda>k. if k \<in> {k. place a k = In_queue \<and> home S k = srv} then Taken else place a k)\<rparr>)"
    (is "tracks S ?sys ?a")
proof -
  note t = tracksD [OF assms(2)]
  let ?K = "{k. place a k = In_queue \<and> home S k = srv}"
  have es: "map wire_of es = to_write (basket S) (fst (shared sys)) srv"
    and eff: "to_write (basket S) s = (to_write (basket S) (fst (shared sys)))(srv := [])"
      "data_of (basket S) s = data_of (basket S) (fst (shared sys))" "state_of (basket S) s = state_of (basket S) (fst (shared sys))"
    using write_parcels_taken [OF properD(1) [OF assms(1)], of srv "fst (shared sys)"] assms(3) by auto
  have inv: "life_inv ?a" using life_inv_step [OF Fetched [of ?K a]] t(2) by simp
  have queue: "lists_keys S (to_write (basket S) s srv') {k. place ?a k = In_queue \<and> home S k = srv'}" for srv'
  proof (cases "srv' = srv")
    case False
    then have "{k. place ?a k = In_queue \<and> home S k = srv'} = {k. place a k = In_queue \<and> home S k = srv'}" by auto
    with t(3) [of srv'] False show ?thesis by (simp add: eff)
  qed (simp add: eff)
  have "lists_keys S (map wire_of (popped sys) @ map wire_of es) ({k. place a k = Taken} \<union> ?K)"
    using t(3) [of srv] by (intro lists_keys_append [OF t(4)]) (auto simp: es)
  moreover have "{k. place a k = Taken} \<union> ?K = {k. place ?a k = Taken}" by auto
  moreover have "{k. place ?a k = In_temp} = {k. place a k = In_temp}" by auto
  moreover have "held S (shared ?sys) (place ?a (key_of q)) q" if "q \<in> set (parcels S)" for q
    using held_data_frame [OF t(6) [OF that], of "shared ?sys"] by (auto simp: eff held_def)
  moreover have "says (place ?a (key_of q)) (progress a (key_of q)) (key_of q \<in> late a) (told_status S ?sys (key_of q))"
    if "q \<in> set (parcels S)" for q
  proof -
    have "told_status S ?sys (key_of q) = told_status S sys (key_of q)" by (simp add: told_status_def eff)
    with t(7) [OF that] show ?thesis by (auto simp: says_def)
  qed
  ultimately show ?thesis
    using t(1,5) inv queue by (simp add: tracks_def)
qed

lemma same_parcel:
  assumes "distinct (map key_of (parcels S))" "p \<in> set (parcels S)" "wire_of e \<in> known S" "key_of p = key_of e"
  shows "wire_of p = wire_of e"
proof -
  obtain q where q: "q \<in> set (parcels S)" "wire_of q = wire_of e" using known_parcel [OF assms(3)] .
  from wire_congs(1) [OF q(2)] have "key_of p = key_of q" by (simp add: assms(4))
  then have "p = q" using assms(1,2) q(1) by (auto simp: distinct_map inj_on_def)
  with q(2) show ?thesis by simp
qed

lemma proper_distinct: "proper S \<Longrightarrow> distinct (map key_of (parcels S))"
  by (simp add: proper_def all_apart_def)

lemma track_save:
  assumes "proper S" "tracks S sys a" "e \<in> set (popped sys)"
  shows "place a (key_of e) = Taken" "tracks S (sys\<lparr>shared := write_source_parcel (basket S) (io S) now e (shared sys),
      popped := remove1 e (popped sys), in_flight := in_flight sys @ [e]\<rparr>) (a\<lparr>place := (place a)(key_of e := In_temp)\<rparr>)"
    (is "tracks S ?sys ?a")
proof -
  note t = tracksD [OF assms(2)]
  let ?k = "key_of e"
  note e = popped_held [OF assms(2,3)]
  show taken: "place a ?k = Taken" by (fact e)
  note eff = save_held [OF assms(1) e(1,3) refl, where now = now]
  have inv: "life_inv ?a" using life_inv_step [OF Saved] taken t(2) by blast
  have queue: "{k. place ?a k = In_queue \<and> home S k = srv} = {k. place a k = In_queue \<and> home S k = srv}" for srv
    using taken by auto
  have "{k. place a k = Taken} - {?k} = {k. place ?a k = Taken}" "insert ?k {k. place a k = In_temp} = {k. place ?a k = In_temp}"
    using taken by auto
  then have lists: "lists_keys S (map wire_of (remove1 e (popped sys))) {k. place ?a k = Taken}"
    "lists_keys S (map wire_of (in_flight sys @ [e])) {k. place ?a k = In_temp}"
    using lists_keys_remove [OF t(4) assms(3)] lists_keys_snoc [OF t(5) e(1)] taken by auto
  have "held S (shared ?sys) (place ?a (key_of q)) q" if q: "q \<in> set (parcels S)" for q
  proof (cases "key_of q = ?k")
    case True
    from eff(1) True show ?thesis by (simp add: held_wire [OF same_parcel [OF proper_distinct [OF assms(1)] q e(1) True]])
  next
    case False
    with eff(2) [OF q] t(6) [OF q] show ?thesis by simp
  qed
  moreover have "says (place ?a (key_of q)) (progress a (key_of q)) (key_of q \<in> late a) (told_status S ?sys (key_of q))"
    if "q \<in> set (parcels S)" for q
  proof (cases "key_of q = ?k")
    case True
    then show ?thesis by (simp add: told_status_def eff(3) says_def)
  next
    case False
    with t(7) [OF that] show ?thesis by (simp add: told_status_def eff(3))
  qed
  ultimately show "tracks S ?sys ?a"
    using t(1,3) inv lists queue by (simp add: tracks_def eff(4))
qed

lemma track_store:
  assumes "proper S" "tracks S sys a" "e \<in> set (in_flight sys)"
  shows "place a (key_of e) = In_temp" "tracks S (sys\<lparr>shared := write_sink_Run (basket S) (io S) now e (shared sys),
      in_flight := remove1 e (in_flight sys)\<rparr>) (a\<lparr>place := (place a)(key_of e := In_file)\<rparr>)"
    (is "tracks S ?sys ?a")
proof -
  note t = tracksD [OF assms(2)]
  let ?k = "key_of e"
  note e = flight_held [OF assms(2,3)]
  show temp: "place a ?k = In_temp" by (fact e)
  note eff = store_held [OF assms(1) e(1,3) refl, where now = now]
  have inv: "life_inv ?a" using life_inv_step [OF Stored] temp t(2) by blast
  have queue: "{k. place ?a k = In_queue \<and> home S k = srv} = {k. place a k = In_queue \<and> home S k = srv}" for srv
    using temp by auto
  have "{k. place a k = In_temp} - {?k} = {k. place ?a k = In_temp}" "{k. place ?a k = Taken} = {k. place a k = Taken}"
    using temp by auto
  then have lists: "lists_keys S (map wire_of (remove1 e (in_flight sys))) {k. place ?a k = In_temp}"
    "lists_keys S (map wire_of (popped sys)) {k. place ?a k = Taken}"
    using lists_keys_remove [OF t(5) assms(3)] t(4) by auto
  have "held S (shared ?sys) (place ?a (key_of q)) q" if q: "q \<in> set (parcels S)" for q
  proof (cases "key_of q = ?k")
    case True
    from eff(1) True show ?thesis by (simp add: held_wire [OF same_parcel [OF proper_distinct [OF assms(1)] q e(1) True]])
  next
    case False
    with eff(2) [OF q] t(6) [OF q] show ?thesis by simp
  qed
  moreover have "says (place ?a (key_of q)) (progress a (key_of q)) (key_of q \<in> late a) (told_status S ?sys (key_of q))"
    if "q \<in> set (parcels S)" for q
  proof (cases "key_of q = ?k")
    case True
    with life_invD(2,3) [OF t(2), of ?k] temp show ?thesis by (auto simp: told_status_def eff(3) says_def)
  next
    case False
    with t(7) [OF that] show ?thesis by (simp add: told_status_def eff(3))
  qed
  ultimately show "tracks S ?sys ?a"
    using t(1,3) inv lists queue by (simp add: tracks_def eff(4))
qed

lemma track_direct:
  assumes "proper S" "tracks S sys a" "e \<in> set (popped sys)"
  shows "place a (key_of e) = Taken" "tracks S (sys\<lparr>shared := iof_source_parcel (basket S) (io S) now e (shared sys),
      popped := remove1 e (popped sys)\<rparr>) (a\<lparr>place := (place a)(key_of e := In_file)\<rparr>)"
    (is "tracks S ?sys ?a")
proof -
  note t = tracksD [OF assms(2)]
  let ?k = "key_of e"
  note e = popped_held [OF assms(2,3)]
  show taken: "place a ?k = Taken" by (fact e)
  note eff = direct_held [OF assms(1) e(1,3) refl, where now = now]
  have inv: "life_inv ?a" using life_inv_step [OF Stored_at_once] taken t(2) by blast
  have queue: "{k. place ?a k = In_queue \<and> home S k = srv} = {k. place a k = In_queue \<and> home S k = srv}" for srv
    using taken by auto
  have "{k. place a k = Taken} - {?k} = {k. place ?a k = Taken}" "{k. place ?a k = In_temp} = {k. place a k = In_temp}"
    using taken by auto
  then have lists: "lists_keys S (map wire_of (remove1 e (popped sys))) {k. place ?a k = Taken}"
    "lists_keys S (map wire_of (in_flight sys)) {k. place ?a k = In_temp}"
    using lists_keys_remove [OF t(4) assms(3)] t(5) by auto
  have "held S (shared ?sys) (place ?a (key_of q)) q" if q: "q \<in> set (parcels S)" for q
  proof (cases "key_of q = ?k")
    case True
    from eff(1) True show ?thesis by (simp add: held_wire [OF same_parcel [OF proper_distinct [OF assms(1)] q e(1) True]])
  next
    case False
    with eff(2) [OF q] t(6) [OF q] show ?thesis by simp
  qed
  moreover have "says (place ?a (key_of q)) (progress a (key_of q)) (key_of q \<in> late a) (told_status S ?sys (key_of q))"
    if "q \<in> set (parcels S)" for q
  proof (cases "key_of q = ?k")
    case True
    with life_invD(2,3) [OF t(2), of ?k] taken show ?thesis by (auto simp: told_status_def eff(3) says_def)
  next
    case False
    with t(7) [OF that] show ?thesis by (simp add: told_status_def eff(3))
  qed
  ultimately show "tracks S ?sys ?a"
    using t(1,3) inv lists queue by (simp add: tracks_def eff(4))
qed

text \<open>A wait in a store that nobody changes: it returns at once or never.\<close>

lemma Wait_quiet:
  assumes "basket_laws B" "Wait B (\<lambda>n s. s) p s = Some (v, n, s')"
  shows "map_option status (state_of B s (key_of p)) = Some DONE" "s' = erased B p s"
proof -
  have "done_at B p s" using Wait_without_state [OF assms(1) quiet_leaves] assms(2) by fastforce
  then obtain u where u: "state_of B s (key_of p) = Some u" "status u = DONE" by (auto simp: done_at_def)
  then show "map_option status (state_of B s (key_of p)) = Some DONE" by simp
  from Wait_now [OF assms(1) u] assms(2) show "s' = erased B p s" by simp
qed

lemma track_collect:
  assumes "proper S" "tracks S sys a" "p \<in> set (parcels S)" "client sys (key_of p) = Published"
    and "Wait (basket S) (\<lambda>n s. s) p (fst (shared sys)) = Some (v, n, s)"
  shows "place a (key_of p) = In_file" "key_of p \<notin> late a"
    "tracks S (sys\<lparr>shared := (s, snd (shared sys)), client := (client sys)(key_of p := Waited)\<rparr>)
      (a\<lparr>progress := (progress a)(key_of p := Waited)\<rparr>)" (is "tracks S ?sys ?a")
proof -
  note t = tracksD [OF assms(2)]
  let ?k = "key_of p"
  have pub: "progress a ?k = Published" using assms(4) by (simp add: t(1))
  note w = Wait_quiet [OF properD(1) [OF assms(1)] assms(5)]
  note eff = erased_views [OF properD(1) [OF assms(1)], of p "fst (shared sys)", folded w(2)]
  have "told_status S sys ?k = Some DONE" using w(1) by (simp add: told_status_def)
  with t(7) [OF assms(3)] pub show there: "place a ?k = In_file" and nl: "?k \<notin> late a"
    by (auto simp: says_def split: place.splits if_splits)
  have inv: "life_inv ?a" using life_inv_step [OF Collected] there nl pub t(2) by blast
  have "held S (shared ?sys) (place a (key_of q)) q" if "q \<in> set (parcels S)" for q
    using held_data_frame [OF t(6) [OF that], of "shared ?sys"] by (simp add: eff)
  moreover have "says (place a (key_of q)) (progress ?a (key_of q)) (key_of q \<in> late a) (told_status S ?sys (key_of q))"
    if "q \<in> set (parcels S)" for q
    using t(7) [OF that] there by (cases "key_of q = ?k") (simp_all add: told_status_def eff says_def)
  ultimately show "tracks S ?sys ?a"
    using t(1,3,4,5) inv by (simp add: tracks_def eff)
qed

text \<open>The simulation.\<close>

lemma step_simulates:
  assumes "broker_step S sys sys'" "proper S" "tracks S sys a"
  shows "\<exists>b. life_step a b \<and> tracks S sys' b"
  using assms(1)
proof cases
  case (Push p s)
  then show ?thesis
    using track_push [OF assms(2,3)] tracksD(1,2) [OF assms(3)] life_invD(1) [of a "key_of p"]
    by (metis Accepted insert_iff)
next
  case (Refuse p s)
  then show ?thesis
    using track_refuse [OF assms(2,3)] tracksD(1,2) [OF assms(3)] life_invD(1) [of a "key_of p"]
    by (metis Rejected insert_iff)
next
  case (Mark p now ok s)
  then show ?thesis
    using track_mark [OF assms(2,3)] tracksD(1) [OF assms(3)] by (metis Marked)
next
  case (Take srv es s)
  then show ?thesis
    using track_take [OF assms(2,3)] Fetched [of "{k. place a k = In_queue \<and> home S k = srv}" a] by blast
next
  case (Save e now)
  then show ?thesis using track_save [OF assms(2,3)] life_step.Saved by blast
next
  case (Store e now)
  then show ?thesis using track_store [OF assms(2,3)] life_step.Stored by blast
next
  case (Direct e now)
  then show ?thesis using track_direct [OF assms(2,3)] life_step.Stored_at_once by blast
next
  case (Collect p v n s)
  then show ?thesis
    using track_collect [OF assms(2,3)] tracksD(1) [OF assms(3)] Collected by metis
qed

lemma start_tracks: "broker_start S sys \<Longrightarrow> tracks S sys unborn"
  by (auto simp: broker_start_def tracks_def unborn_def life_inv_def held_def says_def told_status_def)

interpretation write_path: simulation "broker_step S" life_step "\<lambda>sys a. proper S \<and> tracks S sys a" for S
  by unfold_locales (use step_simulates in blast)

section \<open>What a run cannot lose\<close>

lemma run_tracked:
  assumes "proper S" "broker_start S s0" "(broker_step S)\<^sup>*\<^sup>* s0 sys"
  obtains a where "life_step\<^sup>*\<^sup>* unborn a" "tracks S sys a"
  using write_path.run_simulated [OF assms(3), of unborn] start_tracks [OF assms(2)] assms(1) by blast

text \<open>For a parcel that was accepted, what is held tells whether it is in its file.\<close>

lemma held_file_iff:
  assumes "tracks S sys a" "p \<in> set (parcels S)" "client sys (key_of p) \<notin> {Before, Refused}"
  shows "held S (shared sys) In_file p \<longleftrightarrow> place a (key_of p) = In_file"
proof -
  note t = tracksD [OF assms(1)]
  have "place a (key_of p) \<noteq> Outside" using life_invD(1) [OF t(2)] assms(3) by (simp add: t(1))
  with t(6) [OF assms(2)] show ?thesis
    by (cases "place a (key_of p)") (auto simp: held_def in_temp_def split: option.splits)
qed

lemma done_place:
  assumes "tracks S sys a" "p \<in> set (parcels S)" "told_status S sys (key_of p) = Some DONE"
  shows "place a (key_of p) = In_file"
  using tracksD(7) [OF assms(1,2)] assms(3)
  by (cases "place a (key_of p)") (auto simp: says_def split: if_splits)

text \<open>Who could mention a parcel: the queue of its server, the source tasks and the way to the sink tasks.\<close>

definition mentions :: "('w, 't, 'q, 'f) setting \<Rightarrow> ('w, 't, 'q, 'f) system \<Rightarrow> parcel \<Rightarrow> nat" where
  "mentions S sys p = count_list (to_write (basket S) (fst (shared sys)) (home S (key_of p))) (wire_of p)
     + count_list (map wire_of (popped sys)) (wire_of p) + count_list (map wire_of (in_flight sys)) (wire_of p)"

lemma count_distinct: "distinct xs \<Longrightarrow> count_list xs x = (if x \<in> set xs then 1 else 0)"
  by (induction xs) auto

lemma lists_keys_count:
  assumes "proper S" "lists_keys S xs K" "p \<in> set (parcels S)"
  shows "count_list xs (wire_of p) = (if key_of p \<in> K then 1 else 0)"
proof (cases "key_of p \<in> K")
  case True
  with assms(2) obtain x where x: "x \<in> set xs" "key_of_wire x = key_of p" "x \<in> known S"
    by (auto simp: lists_keys_def)
  then obtain q where q: "q \<in> set (parcels S)" "x = wire_of q" by (auto simp: known_def)
  have "wire_of p = wire_of q"
    by (rule same_parcel [OF proper_distinct [OF assms(1)] assms(3)]) (use x q in simp_all)
  then have "wire_of p \<in> set xs" using x(1) q(2) by simp
  moreover have "distinct xs" using assms(2) by (auto simp: lists_keys_def distinct_map)
  ultimately show ?thesis using True by (simp add: count_distinct)
next
  case False
  have "wire_of p \<notin> set xs"
  proof
    assume "wire_of p \<in> set xs"
    then have "key_of_wire (wire_of p) \<in> K" using assms(2) unfolding lists_keys_def by blast
    with False show False by simp
  qed
  with False show ?thesis by (simp add: count_list_0_iff)
qed

lemma mentions_place:
  assumes "proper S" "tracks S sys a" "p \<in> set (parcels S)"
  shows "mentions S sys p = (if place a (key_of p) \<in> {In_queue, Taken, In_temp} then 1 else 0)"
proof -
  note t = tracksD [OF assms(2)]
  note c = lists_keys_count [OF assms(1) _ assms(3)]
  show ?thesis
    unfolding mentions_def c [OF t(3)] c [OF t(4)] c [OF t(5)] by (cases "place a (key_of p)") simp_all
qed

section \<open>The jobs alone\<close>

text \<open>A source task that finds something in its queue, a source task of either job that runs a parcel, or a sink task.\<close>

inductive job_step :: "('w, 't, 'q, 'f) setting \<Rightarrow> ('w, 't, 'q, 'f) system \<Rightarrow> ('w, 't, 'q, 'f) system \<Rightarrow> bool"
  for S where
  Take_some: "\<lbrakk>GetWriteParsel (basket S) srv (fst (shared sys)) = Some (es, s); es \<noteq> []\<rbrakk>
    \<Longrightarrow> job_step S sys (sys\<lparr>shared := (s, snd (shared sys)), popped := popped sys @ es\<rparr>)"
| Save_one: "\<lbrakk>e \<in> set (popped sys)\<rbrakk>
    \<Longrightarrow> job_step S sys (sys\<lparr>shared := write_source_parcel (basket S) (io S) now e (shared sys),
          popped := remove1 e (popped sys), in_flight := in_flight sys @ [e]\<rparr>)"
| Store_one: "\<lbrakk>e \<in> set (in_flight sys)\<rbrakk>
    \<Longrightarrow> job_step S sys (sys\<lparr>shared := write_sink_Run (basket S) (io S) now e (shared sys),
          in_flight := remove1 e (in_flight sys)\<rparr>)"
| Direct_one: "\<lbrakk>e \<in> set (popped sys)\<rbrakk>
    \<Longrightarrow> job_step S sys (sys\<lparr>shared := iof_source_parcel (basket S) (io S) now e (shared sys),
          popped := remove1 e (popped sys)\<rparr>)"

lemma job_step_is_step: "job_step S sys sys' \<Longrightarrow> broker_step S sys sys' \<and> client sys' = client sys"
  by (induction rule: job_step.induct) (auto intro: Take Save Store Direct)

text \<open>The stages a parcel has before it.\<close>

fun ahead :: "place \<Rightarrow> nat" where
  "ahead In_queue = 3"
| "ahead Taken = 2"
| "ahead In_temp = 1"
| "ahead pl = 0"

definition sum_over :: "('w, 't, 'q, 'f) setting \<Rightarrow> (parcel_key \<Rightarrow> nat) \<Rightarrow> nat" where
  "sum_over S h = (\<Sum>p \<leftarrow> parcels S. h (key_of p))"

lemma sum_over_bound:
  assumes "\<And>k. h k \<le> n"
  shows "sum_over S h \<le> n * length (parcels S)"
proof -
  have "(\<Sum>p \<leftarrow> ps. h (key_of p)) \<le> n * length ps" for ps :: "parcel list"
    using assms by (induction ps) (simp_all add: add_mono)
  then show ?thesis by (simp add: sum_over_def)
qed

lemma sum_over_less:
  assumes "\<And>k. h' k \<le> h k" "p \<in> set (parcels S)" "h' (key_of p) < h (key_of p)"
  shows "sum_over S h' < sum_over S h"
proof -
  have le: "(\<Sum>p \<leftarrow> ps. h' (key_of p)) \<le> (\<Sum>p \<leftarrow> ps. h (key_of p))" for ps :: "parcel list"
    by (rule sum_list_mono) (rule assms(1))
  obtain us vs where "parcels S = us @ p # vs" using split_list [OF assms(2)] by blast
  with le [of us] le [of vs] assms(3) show ?thesis by (simp add: sum_over_def)
qed

definition work :: "('w, 't, 'q, 'f) setting \<Rightarrow> life \<Rightarrow> nat" where
  "work S a = sum_over S (\<lambda>k. ahead (place a k))"

lemma work_bound: "work S a \<le> 3 * length (parcels S)"
proof -
  have "ahead pl \<le> 3" for pl by (cases pl) simp_all
  then show ?thesis unfolding work_def by (rule sum_over_bound)
qed

lemma work_less:
  assumes "\<And>k. ahead (place b k) \<le> ahead (place a k)" "p \<in> set (parcels S)"
    "ahead (place b (key_of p)) < ahead (place a (key_of p))"
  shows "work S b < work S a"
  unfolding work_def by (rule sum_over_less) (use assms in auto)

lemma known_key:
  assumes "lists_keys S (map wire_of es) K" "e \<in> set es"
  obtains p where "p \<in> set (parcels S)" "key_of p = key_of e"
  using known_parcel [OF lists_keys_member(1) [OF assms]] wire_congs(1) by metis

lemma job_step_works:
  assumes "job_step S sys sys'" "proper S" "tracks S sys a"
  shows "\<exists>b. tracks S sys' b \<and> work S b < work S a"
  using assms(1)
proof cases
  case (Take_some srv es s)
  note t = tracksD [OF assms(3)]
  let ?K = "{k. place a k = In_queue \<and> home S k = srv}"
  let ?b = "a\<lparr>place := (\<lambda>k. if k \<in> ?K then Taken else place a k)\<rparr>"
  have es: "map wire_of es = to_write (basket S) (fst (shared sys)) srv"
    using write_parcels_taken [OF properD(1) [OF assms(2)], of srv "fst (shared sys)"] Take_some by auto
  with t(3) [of srv] have K: "lists_keys S (map wire_of es) ?K" by simp
  from Take_some(3) obtain e where e: "e \<in> set es" by (cases es) auto
  obtain p where p: "p \<in> set (parcels S)" "key_of p = key_of e" using known_key [OF K e] .
  have "key_of e \<in> ?K" using lists_keys_member(2) [OF K e] .
  then have "work S ?b < work S a" by (intro work_less [OF _ p(1)]) (auto simp: p(2))
  with track_take [OF assms(2,3) Take_some(2)] Take_some(1) show ?thesis by blast
next
  case (Save_one e now)
  note t = tracksD [OF assms(3)]
  obtain p where p: "p \<in> set (parcels S)" "key_of p = key_of e" using known_key [OF t(4) Save_one(2)] .
  have "work S (a\<lparr>place := (place a)(key_of e := In_temp)\<rparr>) < work S a"
    by (rule work_less [OF _ p(1)]) (simp_all add: p(2) track_save(1) [OF assms(2,3) Save_one(2)])
  with track_save(2) [OF assms(2,3) Save_one(2), where now = now] Save_one(1) show ?thesis by blast
next
  case (Store_one e now)
  note t = tracksD [OF assms(3)]
  obtain p where p: "p \<in> set (parcels S)" "key_of p = key_of e" using known_key [OF t(5) Store_one(2)] .
  have "work S (a\<lparr>place := (place a)(key_of e := In_file)\<rparr>) < work S a"
    by (rule work_less [OF _ p(1)]) (simp_all add: p(2) track_store(1) [OF assms(2,3) Store_one(2)])
  with track_store(2) [OF assms(2,3) Store_one(2), where now = now] Store_one(1) show ?thesis by blast
next
  case (Direct_one e now)
  note t = tracksD [OF assms(3)]
  obtain p where p: "p \<in> set (parcels S)" "key_of p = key_of e" using known_key [OF t(4) Direct_one(2)] .
  have "work S (a\<lparr>place := (place a)(key_of e := In_file)\<rparr>) < work S a"
    by (rule work_less [OF _ p(1)]) (simp_all add: p(2) track_direct(1) [OF assms(2,3) Direct_one(2)])
  with track_direct(2) [OF assms(2,3) Direct_one(2), where now = now] Direct_one(1) show ?thesis by blast
qed

interpretation write_jobs: working "job_step S" "\<lambda>sys a. proper S \<and> tracks S sys a" "work S" client for S
  by unfold_locales (use job_step_works job_step_is_step in blast)+

text \<open>When the jobs have nothing to do, the accepted parcels are in their files.\<close>

lemma jobs_idle:
  assumes "\<nexists>sys'. job_step S sys sys'" "proper S" "tracks S sys a"
  shows "place a k \<in> {Outside, In_file}"
proof -
  note t = tracksD [OF assms(3)]
  have "popped sys = []" "in_flight sys = []"
    using assms(1) Save_one [of _ sys S] Store_one [of _ sys S] by (metis list.set_intros(1) neq_Nil_conv)+
  then have "{k. place a k = Taken} = {}" "{k. place a k = In_temp} = {}"
    using t(4,5) by simp_all
  then have "place a k \<noteq> Taken" "place a k \<noteq> In_temp" by blast+
  moreover have "place a k \<noteq> In_queue"
  proof -
    obtain es s where g: "GetWriteParsel (basket S) (home S k) (fst (shared sys)) = Some (es, s)"
      "map wire_of es = to_write (basket S) (fst (shared sys)) (home S k)"
      using write_parcels_taken [OF properD(1) [OF assms(2)], of "home S k" "fst (shared sys)"] by blast
    with assms(1) Take_some [OF g(1)] have "es = []" by blast
    then have "{j. place a j = In_queue \<and> home S j = home S k} = {}" using t(3) [of "home S k"] g(2) by simp
    then show ?thesis by blast
  qed
  ultimately show ?thesis by (cases "place a k") simp_all
qed

section \<open>A run\<close>

text \<open>
  Two clients on server 0. The first parcel is pushed, taken, saved and stored before its client marks it.
\<close>

definition two_clients where
  "two_clients = \<lparr>basket = local_basket, io = memory_io, parcels = two_parcels, bytes = two_data, home = (\<lambda>_. 0)\<rparr>"

definition first_parcel :: parcel where
  "first_parcel = sample_parcel\<lparr>position := 0\<rparr>"

definition run_start where
  "run_start = \<lparr>shared = (local_store, (\<lambda>_. None) :: file_name \<Rightarrow> string option), popped = [], in_flight = [], client = (\<lambda>_. Before)\<rparr>"

definition run_pushed where
  "run_pushed = run_start\<lparr>shared := (local_store\<lparr>warehouse := [key_of first_parcel \<mapsto> ''abcd''],
       write_queue := (\<lambda>_. [])(0 := [first_parcel])\<rparr>, \<lambda>_. None),
     client := (\<lambda>_. Before)(key_of first_parcel := Pushed)\<rparr>"

definition run_taken where
  "run_taken = run_pushed\<lparr>shared := (local_store\<lparr>warehouse := [key_of first_parcel \<mapsto> ''abcd'']\<rparr>, \<lambda>_. None),
     popped := [first_parcel]\<rparr>"

definition run_saved where
  "run_saved = run_taken\<lparr>shared := write_source_parcel local_basket memory_io 5 first_parcel (shared run_taken),
     popped := [], in_flight := [first_parcel]\<rparr>"

definition run_stored where
  "run_stored = run_saved\<lparr>shared := write_sink_Run local_basket memory_io 6 first_parcel (shared run_saved), in_flight := []\<rparr>"

definition run_marked where
  "run_marked = run_stored\<lparr>shared := (snd (publish_mark local_basket 7 first_parcel (fst (shared run_stored))), snd (shared run_stored)),
     client := (client run_stored)(key_of first_parcel := Published)\<rparr>"

lemmas run_defs = run_marked_def run_stored_def run_saved_def run_taken_def run_pushed_def run_start_def

lemma two_clients_simps [simp]:
  "basket two_clients = local_basket" "io two_clients = memory_io" "parcels two_clients = two_parcels"
  "home two_clients k = 0" "bytes two_clients = two_data"
  by (simp_all add: two_clients_def)

lemma first_parcel_in [simp]: "first_parcel \<in> set two_parcels"
  by (simp add: first_parcel_def two_parcels_def)

lemma two_clients_proper: "proper two_clients"
  using local_basket_laws memory_io_laws two_parcels_fit
  by (auto simp: proper_def two_parcels_def two_data_def sample_parcel_def)

lemma run_starts: "broker_start two_clients run_start"
  by (simp add: broker_start_def run_start_def local_store_def memory_io_def fun_eq_iff)

lemma at_home_local [simp]: "at_home two_clients p = local_basket"
  by (simp add: at_home_def local_basket_def)

lemma run_push: "broker_step two_clients run_start run_pushed"
proof -
  let ?s = "local_store\<lparr>warehouse := [key_of first_parcel \<mapsto> ''abcd''], write_queue := (\<lambda>_. [])(0 := [first_parcel])\<rparr>"
  have "publish_store local_basket first_parcel (two_data (key_of first_parcel)) (fst (shared run_start)) = Inr (True, ?s)"
    by (simp add: publish_store_def string_of_buffer_def PutData_def local_basket_def fun_map_def list_queue_def
        run_start_def local_store_def first_parcel_def two_data_def sample_parcel_def key_of_def strip_parcel_def)
  moreover have "client run_start (key_of first_parcel) = Before" by (simp add: run_start_def)
  ultimately show ?thesis
    using Push [of first_parcel two_clients run_start ?s] by (simp add: run_defs)
qed

lemma run_take: "job_step two_clients run_pushed run_taken"
proof -
  let ?s = "local_store\<lparr>warehouse := [key_of first_parcel \<mapsto> ''abcd'']\<rparr>"
  have "GetWriteParsel local_basket 0 (fst (shared run_pushed)) = Some ([first_parcel], ?s)"
    by (simp add: GetWriteParsel_def amount_of_def local_basket_def list_queue_def run_defs local_store_def
        pop_loop.simps fun_upd_idem)
  then show ?thesis
    using Take_some [of two_clients 0 run_pushed "[first_parcel]" ?s] by (simp add: run_defs)
qed

lemma run_save: "job_step two_clients run_taken run_saved"
  using Save_one [of first_parcel run_taken two_clients 5] by (simp add: run_saved_def run_taken_def run_pushed_def run_start_def)

lemma run_store: "job_step two_clients run_saved run_stored"
  using Store_one [of first_parcel run_saved two_clients 6] by (simp add: run_stored_def run_saved_def)

lemma run_stored_done: "told_status two_clients run_stored (key_of first_parcel) = Some DONE"
  by (simp add: told_status_def run_stored_def write_sink_Run_def Let_def case_prod_beta
      UpdateParcelStatus_def local_basket_def fun_map_def view_defs)

lemma run_mark: "broker_step two_clients run_stored run_marked"
proof -
  obtain ok s where m: "publish_mark local_basket 7 first_parcel (fst (shared run_stored)) = (ok, s)" by fastforce
  have "client run_stored (key_of first_parcel) = Pushed" by (simp add: run_defs)
  with m show ?thesis
    using Mark [of first_parcel two_clients run_stored 7 ok s] by (simp add: run_marked_def)
qed

lemma run_reaches:
  "(broker_step two_clients)\<^sup>*\<^sup>* run_start run_pushed" "(broker_step two_clients)\<^sup>*\<^sup>* run_start run_taken"
  "(broker_step two_clients)\<^sup>*\<^sup>* run_start run_stored" "(broker_step two_clients)\<^sup>*\<^sup>* run_start run_marked"
proof -
  note step = rtranclp.rtrancl_into_rtrancl [where r = "broker_step two_clients"]
  show a: "(broker_step two_clients)\<^sup>*\<^sup>* run_start run_pushed" using run_push by blast
  show b: "(broker_step two_clients)\<^sup>*\<^sup>* run_start run_taken" using step [OF a] job_step_is_step [OF run_take] by blast
  then have "(broker_step two_clients)\<^sup>*\<^sup>* run_start run_saved" using step job_step_is_step [OF run_save] by blast
  then show c: "(broker_step two_clients)\<^sup>*\<^sup>* run_start run_stored" using step job_step_is_step [OF run_store] by blast
  show "(broker_step two_clients)\<^sup>*\<^sup>* run_start run_marked" using step [OF c run_mark] .
qed

section \<open>Properties\<close>

text \<open>
  C3. Any interleaving of clients, source tasks of both write jobs and sink tasks refines the life of the parcels: a reachable state
  of the system is tracked by a reachable state of the specification, and each further step of a client or a task
  is one step in the life of a parcel (of all parcels of a queue for a source task that fetches them).
\<close>

theorem broker_refines:
  assumes "proper S" "broker_start S s0" "(broker_step S)\<^sup>*\<^sup>* s0 sys"
  shows "\<exists>a. life_step\<^sup>*\<^sup>* unborn a \<and> tracks S sys a
    \<and> (\<forall>sys'. broker_step S sys sys' \<longrightarrow> (\<exists>b. life_step a b \<and> tracks S sys' b))"
proof -
  obtain a where a: "life_step\<^sup>*\<^sup>* unborn a" "tracks S sys a" using run_tracked [OF assms] .
  moreover have "\<exists>b. life_step a b \<and> tracks S sys' b" if "broker_step S sys sys'" for sys'
    using step_simulates [OF that assms(1) a(2)] .
  ultimately show ?thesis by blast
qed

theorem broker_refines_witness: "\<exists>a. life_step\<^sup>*\<^sup>* unborn a \<and> tracks two_clients run_marked a"
  using broker_refines [OF two_clients_proper run_starts run_reaches(4)] by blast

text \<open>
  Between whole tasks no parcel is doubled, and none is lost: in every state that these steps reach, a parcel whose
  push was accepted is exactly once in the queue of its server, with a source task or on the way to a sink task, until its bytes are in its file, when it
  is nowhere else; a parcel that was not accepted is nowhere. Until then its bytes are in the warehouse or in its
  temporary file.
\<close>

theorem no_parcel_lost:
  assumes "proper S" "broker_start S s0" "(broker_step S)\<^sup>*\<^sup>* s0 sys" "p \<in> set (parcels S)"
  shows "mentions S sys p = (if client sys (key_of p) \<in> {Before, Refused} \<or> held S (shared sys) In_file p then 0 else 1)
    \<and> (client sys (key_of p) \<notin> {Before, Refused} \<longrightarrow>
         held S (shared sys) Taken p \<or> held S (shared sys) In_temp p \<or> held S (shared sys) In_file p)"
proof -
  obtain a where a: "tracks S sys a" using run_tracked [OF assms(1-3)] by blast
  note t = tracksD [OF a]
  let ?accepted = "client sys (key_of p) \<notin> {Before, Refused}"
  have out: "place a (key_of p) = Outside \<longleftrightarrow> \<not> ?accepted" using life_invD(1) [OF t(2)] by (simp add: t(1))
  note file_iff = held_file_iff [OF a assms(4)]
  have "mentions S sys p = (if \<not> ?accepted \<or> held S (shared sys) In_file p then 0 else 1)"
    unfolding mentions_place [OF assms(1) a assms(4)] using out file_iff
    by (cases "place a (key_of p)") auto
  moreover have "held S (shared sys) Taken p \<or> held S (shared sys) In_temp p \<or> held S (shared sys) In_file p" if ?accepted
    using t(6) [OF assms(4)] out that by (cases "place a (key_of p)") (simp_all add: held_def)
  ultimately show ?thesis by simp
qed

theorem no_parcel_lost_witness:
  "mentions two_clients run_taken first_parcel = 1"
proof -
  have "client run_taken (key_of first_parcel) = Pushed" "\<not> held two_clients (shared run_taken) In_file first_parcel"
    by (simp_all add: run_defs held_def)
  with no_parcel_lost [OF two_clients_proper run_starts run_reaches(2), of first_parcel] show ?thesis by simp
qed

text \<open>
  What \<open>DONE\<close> and a finished \<open>Wait\<close> promise: whenever the state of a parcel says DONE, a \<open>Wait\<close> for it would
  return, or its client's \<open>Wait\<close> has returned, the bytes the client published are in the file of the parcel at
  its position, the warehouse holds them no longer and the temporary file is gone.
\<close>

theorem done_means_stored:
  assumes "proper S" "broker_start S s0" "(broker_step S)\<^sup>*\<^sup>* s0 sys" "p \<in> set (parcels S)"
    and "told_status S sys (key_of p) = Some DONE \<or> client sys (key_of p) = Waited
      \<or> Wait (basket S) (\<lambda>n s. s) p (fst (shared sys)) \<noteq> None"
  shows "in_file (io S) (snd (shared sys)) p (take (unat (data_size p)) (bytes S (key_of p)))
    \<and> data_of (basket S) (fst (shared sys)) (key_of p) = None
    \<and> files (io S) (snd (shared sys)) (temp_file (basket S) (io S) p) = None"
proof -
  obtain a where a: "tracks S sys a" using run_tracked [OF assms(1-3)] by blast
  note t = tracksD [OF a]
  have "told_status S sys (key_of p) = Some DONE" if "Wait (basket S) (\<lambda>n s. s) p (fst (shared sys)) \<noteq> None"
    using that Wait_quiet(1) [OF properD(1) [OF assms(1)]] by (auto simp: told_status_def)
  then have "told_status S sys (key_of p) = Some DONE \<or> progress a (key_of p) = Waited"
    using assms(5) by (auto simp: t(1))
  then have "place a (key_of p) = In_file"
    using done_place [OF a assms(4)] life_invD(2) [OF t(2), of "key_of p"] by blast
  with t(6) [OF assms(4)] show ?thesis by (simp add: held_def payload_def)
qed

theorem done_means_stored_witness:
  "in_file memory_io (snd (shared run_stored)) first_parcel ''abcd''"
proof -
  have "unat (data_size first_parcel) = 4" "two_data (key_of first_parcel) = ''abcd''"
    by (simp_all add: first_parcel_def sample_parcel_def two_data_def key_of_def)
  then show ?thesis
    using done_means_stored [OF two_clients_proper run_starts run_reaches(3), of first_parcel] run_stored_done by simp
qed

text \<open>
  The jobs finish what was accepted: whatever the clients did before, the source and sink tasks of both write jobs make at most
  three steps for each parcel (a fetch that finds something, the source's and the sink's run, or the direct job's run); when no such step is left, every parcel
  whose push was accepted is in its file.
\<close>

theorem jobs_drain:
  assumes "proper S" "broker_start S s0" "(broker_step S)\<^sup>*\<^sup>* s0 sys" "(job_step S ^^ n) sys sys'"
  shows "n \<le> 3 * length (parcels S)
    \<and> ((\<nexists>nxt. job_step S sys' nxt) \<longrightarrow>
         (\<forall>p \<in> set (parcels S). client sys (key_of p) \<notin> {Before, Refused} \<longrightarrow> held S (shared sys') In_file p))"
proof -
  obtain a where a: "tracks S sys a" using run_tracked [OF assms(1-3)] by blast
  obtain b where b: "tracks S sys' b" "work S b + n \<le> work S a" "client sys' = client sys"
    using write_jobs.jobs_work [OF assms(4)] assms(1) a by blast
  have "n \<le> 3 * length (parcels S)" using b(2) work_bound [of S a] by simp
  moreover have "held S (shared sys') In_file p"
    if "\<nexists>nxt. job_step S sys' nxt" "p \<in> set (parcels S)" "client sys (key_of p) \<notin> {Before, Refused}" for p
  proof -
    note t = tracksD [OF b(1)]
    have "place b (key_of p) \<noteq> Outside" using life_invD(1) [OF t(2)] that(3) b(3) by (simp add: t(1))
    then have "place b (key_of p) = In_file" using jobs_idle [OF that(1) assms(1) b(1), of "key_of p"] by simp
    then show ?thesis using held_file_iff [OF b(1) that(2)] that(3) by (simp add: b(3))
  qed
  ultimately show ?thesis by blast
qed

theorem jobs_drain_witness:
  "(\<nexists>nxt. job_step two_clients run_stored nxt) \<and> held two_clients (shared run_stored) In_file first_parcel"
proof -
  have "(job_step two_clients ^^ 3) run_pushed run_stored"
    using run_take run_save run_store by (auto simp: numeral_3_eq_3)
  note drain = jobs_drain [OF two_clients_proper run_starts run_reaches(1) this]
  have "write_queue (fst (shared run_stored)) = (\<lambda>_. [])"
    by (simp add: run_defs write_sink_Run_def write_source_parcel_def Let_def case_prod_beta UpdateParcelStatus_def
        DeleteData_def local_store_def)
  then have none: "to_write local_basket (fst (shared run_stored)) srv = []" for srv by simp
  have "\<not> job_step two_clients run_stored nxt" for nxt
  proof
    assume "job_step two_clients run_stored nxt"
    then show False
    proof cases
      case (Take_some srv es s)
      with write_parcels_taken [OF local_basket_laws, of srv "fst (shared run_stored)"] none [of srv] show False by auto
    qed (simp_all add: run_stored_def run_saved_def)
  qed
  moreover have "client run_pushed (key_of first_parcel) = Pushed" by (simp add: run_defs)
  ultimately show ?thesis using drain by auto
qed

section \<open>Marks and waits\<close>

text \<open>Once a parcel is marked, nothing makes it late or takes it off that list.\<close>

lemma late_kept:
  assumes "life_step\<^sup>*\<^sup>* a b" "progress a k \<in> {Published, Waited}"
  shows "progress b k \<in> {Published, Waited} \<and> (k \<in> late b \<longleftrightarrow> k \<in> late a)"
  using assms(1)
proof (induction rule: rtranclp_induct)
  case base
  then show ?case using assms(2) by simp
next
  case (step b c)
  have "progress c k \<in> {Published, Waited} \<and> (k \<in> late c \<longleftrightarrow> k \<in> late b)"
    using step(2) step.IH by (induction rule: life_step.induct) auto
  with step.IH show ?case by simp
qed

lemma mark_decides:
  assumes "life_step a b" "life_inv a" "progress a k = Pushed" "progress b k = Published"
  shows "k \<in> late b \<longleftrightarrow> place a k = In_file"
proof -
  have "k \<notin> late a" using life_invD(3) [OF assms(2), of k] assms(3) by auto
  with assms(1,3,4) show ?thesis by (induction rule: life_step.induct) (auto split: if_splits)
qed

lemma wait_decides:
  assumes "proper S" "tracks S sys a" "p \<in> set (parcels S)" "client sys (key_of p) = Published" "place a (key_of p) = In_file"
  shows "done_at (basket S) p (fst (shared sys)) \<longleftrightarrow> key_of p \<notin> late a"
proof -
  note t = tracksD [OF assms(2)]
  have "told_status S sys (key_of p) = (if key_of p \<in> late a then Some QUEUED else Some DONE)"
    using t(7) [OF assms(3)] assms(4,5) by (simp add: says_def t(1))
  then show ?thesis by (auto simp: told_status_def done_at_def split: if_splits)
qed

text \<open>
  C14. When a wake-up is lost: a parcel that is in its file and that \<open>Publish\<close> has marked keeps its \<open>Wait\<close> for ever,
  in a store that nobody changes, exactly if it was in its file already when it was marked. Then the mark QUEUED,
  which \<open>Publish\<close> makes after the push, has replaced DONE.
\<close>

theorem wake_up_lost_iff:
  assumes "proper S" "broker_start S s0" "(broker_step S)\<^sup>*\<^sup>* s0 s1" "p \<in> set (parcels S)"
    and "client s1 (key_of p) = Pushed" "broker_step S s1 s2" "client s2 (key_of p) = Published"
    and "(broker_step S)\<^sup>*\<^sup>* s2 sys" "client sys (key_of p) = Published" "held S (shared sys) In_file p"
  shows "Wait (basket S) (\<lambda>n s. s) p (fst (shared sys)) = None \<longleftrightarrow> held S (shared s1) In_file p"
proof -
  let ?k = "key_of p" and ?B = "basket S"
  obtain a1 where a1: "tracks S s1 a1" using run_tracked [OF assms(1-3)] by blast
  obtain a2 where a2: "life_step a1 a2" "tracks S s2 a2" using step_simulates [OF assms(6,1) a1] by blast
  obtain a where a: "life_step\<^sup>*\<^sup>* a2 a" "tracks S sys a" using write_path.run_simulated [OF assms(8)] assms(1) a2(2) by blast
  note t1 = tracksD(1,2) [OF a1] and t2 = tracksD(1) [OF a2(2)]
  have "?k \<in> late a \<longleftrightarrow> ?k \<in> late a2" using late_kept [OF a(1), of ?k] assms(7) by (simp add: t2)
  also have "\<dots> \<longleftrightarrow> place a1 ?k = In_file"
    using mark_decides [OF a2(1) t1(2)] assms(5,7) by (simp add: t1(1) t2)
  also have "\<dots> \<longleftrightarrow> held S (shared s1) In_file p" using held_file_iff [OF a1 assms(4)] assms(5) by simp
  finally have late: "?k \<in> late a \<longleftrightarrow> held S (shared s1) In_file p" .
  have "place a ?k = In_file" using held_file_iff [OF a(2) assms(4)] assms(9,10) by simp
  note now = wait_decides [OF assms(1) a(2) assms(4,9) this]
  have "Wait ?B (\<lambda>n s. s) p (fst (shared sys)) = None \<longleftrightarrow> \<not> done_at ?B p (fst (shared sys))"
    using Wait_without_state [OF properD(1) [OF assms(1)] quiet_leaves]
      Wait_now [OF properD(1) [OF assms(1)]] by (force simp: done_at_def)
  with now late show ?thesis by simp
qed

theorem wake_up_lost_iff_witness:
  "Wait local_basket (\<lambda>n s. s) first_parcel (fst (shared run_marked)) = None"
proof -
  have c: "client run_pushed (key_of first_parcel) = Pushed" "client run_stored (key_of first_parcel) = Pushed"
    "client run_marked (key_of first_parcel) = Published"
    by (simp_all add: run_defs)
  obtain a where a: "tracks two_clients run_stored a" using run_tracked [OF two_clients_proper run_starts run_reaches(3)] .
  have "place a (key_of first_parcel) = In_file" using done_place [OF a _ run_stored_done] by simp
  with held_file_iff [OF a, of first_parcel] c(2) have h: "held two_clients (shared run_stored) In_file first_parcel" by simp
  moreover have "shared run_marked = (snd (publish_mark local_basket 7 first_parcel (fst (shared run_stored))), snd (shared run_stored))"
    by (simp add: run_marked_def)
  ultimately have "held two_clients (shared run_marked) In_file first_parcel"
    using publish_mark_effect(2) [OF local_basket_laws]
    by (auto simp: held_def) (metis prod.collapse)
  with wake_up_lost_iff [OF two_clients_proper run_starts run_reaches(3) _ c(2) run_mark c(3) rtranclp.rtrancl_refl c(3)] h
  show ?thesis by simp
qed

end
