(* ===== verification/Calls.thy ===== *)
theory Calls
  imports Broker
begin

text \<open>
  The write path call by call: every access of a client or a task to a container or a storage client is a step of its
  own, so that the steps of all processes interleave between them. A task is a script of calls (\<open>rhea_job.h\<close>), a client
  goes through the calls of \<open>Publish\<close> and the last poll and the erase of \<open>Wait\<close> (\<open>rhea.cpp\<close>). What is proved in theory
  \<open>Broker\<close> of whole tasks depends here on the order of their calls.
\<close>

section \<open>Scripts\<close>

datatype call = Get_data | Write_temp | Delete_data | Set_status task_status | Read_temp | Remove_temp | Write_target | Emit

definition source_calls :: "call list" where
  "source_calls = [Get_data, Write_temp, Delete_data, Set_status IN_PROGRESS, Emit]"

definition direct_calls :: "call list" where
  "direct_calls = [Get_data, Write_target, Delete_data, Set_status DONE]"

definition sink_calls :: "call list" where
  "sink_calls = [Read_temp, Remove_temp, Write_target, Set_status DONE]"

text \<open>
  One call on behalf of a parcel: \<open>data\<close> is the task's variable of that name. Emitting is the runtime's. The
  direct job emits along no links, so its script has no such call.
\<close>

fun run_call ::
  "('w, 't, 'q) basket \<Rightarrow> 'f io_ops \<Rightarrow> int \<Rightarrow> parcel \<Rightarrow> call \<Rightarrow> string \<times> ('w, 't, 'q, 'f) world \<Rightarrow> string \<times> ('w, 't, 'q, 'f) world" where
  "run_call B IO now p Get_data (data, s, f) = (GetData B p s, s, f)"
| "run_call B IO now p Write_temp (data, s, f) = (data, s,
     io_write IO (file_client IO) (p\<lparr>position := 0, buffer := data\<rparr>)
       (p\<lparr>pid := cs_of B (pid p @ temp_suffix p), position := 0\<rparr>) f)"
| "run_call B IO now p Delete_data (data, s, f) = (data, snd (DeleteData B p s), f)"
| "run_call B IO now p (Set_status v) (data, s, f) = (data, snd (UpdateParcelStatus B now p v s), f)"
| "run_call B IO now p Read_temp (data, s, f) =
     (io_read IO (file_client IO) (p\<lparr>pid := cs_of B (pid p @ temp_suffix p), position := 0\<rparr>)
        (p\<lparr>position := 0, buffer := replicate (unat (data_size p)) (CHR 0x00)\<rparr>) f, s, f)"
| "run_call B IO now p Remove_temp (data, s, f) = (data, s,
     io_remove IO (file_client IO) (p\<lparr>pid := cs_of B (pid p @ temp_suffix p), position := 0\<rparr>) f)"
| "run_call B IO now p Write_target (data, s, f) = (data, s,
     io_write IO (io_client IO (storage_index p)) (p\<lparr>position := 0, buffer := data\<rparr>) p f)"
| "run_call B IO now p Emit (data, s, f) = (data, s, f)"

definition run_calls ::
  "('w, 't, 'q) basket \<Rightarrow> 'f io_ops \<Rightarrow> int \<Rightarrow> parcel \<Rightarrow> call list \<Rightarrow> ('w, 't, 'q, 'f) world \<Rightarrow> ('w, 't, 'q, 'f) world" where
  "run_calls B IO now p calls w = snd (fold (run_call B IO now p) calls ('''', w))"

section \<open>The system\<close>

datatype caller = Idle_caller | Put_made | Push_made | Marked | Seen_done | Finished | Gave_up

record ('w, 't, 'q, 'f) calling =
  at_world :: "('w, 't, 'q, 'f) world"
  at_source :: "parcel list"                        \<comment> \<open>popped, its script not begun\<close>
  running :: "(parcel \<times> string \<times> call list) list"  \<comment> \<open>the parcel, the task's data, the calls that are left\<close>
  at_sink :: "parcel list"                          \<comment> \<open>emitted, not yet with a sink task\<close>
  caller_of :: "parcel_key \<Rightarrow> caller"

inductive call_step :: "('w, 't, 'q, 'f) setting \<Rightarrow> ('w, 't, 'q, 'f) calling \<Rightarrow> ('w, 't, 'q, 'f) calling \<Rightarrow> bool"
  for S where
  Put_data: "\<lbrakk>p \<in> set (parcels S); caller_of c (key_of p) = Idle_caller;
      string_of_buffer (bytes S (key_of p)) (unat (data_size p)) = Inr d;
      PutData (at_home S p) p d (fst (at_world c)) = (ok, s)\<rbrakk>
    \<Longrightarrow> call_step S c (c\<lparr>at_world := (s, snd (at_world c)),
          caller_of := (caller_of c)(key_of p := (if ok then Put_made else Gave_up))\<rparr>)"
| Push_parcel: "\<lbrakk>p \<in> set (parcels S); caller_of c (key_of p) = Put_made;
      q_push (qu (at_home S p)) p (my_server (at_home S p)) (write_queue (fst (at_world c))) = (ok, q)\<rbrakk>
    \<Longrightarrow> call_step S c (c\<lparr>at_world := ((fst (at_world c))\<lparr>write_queue := q\<rparr>, snd (at_world c)),
          caller_of := (caller_of c)(key_of p := (if ok then Push_made else Gave_up))\<rparr>)"
| Mark_parcel: "\<lbrakk>p \<in> set (parcels S); caller_of c (key_of p) = Push_made;
      publish_mark (at_home S p) now p (fst (at_world c)) = (ok, s)\<rbrakk>
    \<Longrightarrow> call_step S c (c\<lparr>at_world := (s, snd (at_world c)), caller_of := (caller_of c)(key_of p := Marked)\<rparr>)"
| Pop_parcel: "\<lbrakk>q_pop (qu (basket S)) srv (write_queue (fst (at_world c))) = ((True, e), q)\<rbrakk>
    \<Longrightarrow> call_step S c (c\<lparr>at_world := ((fst (at_world c))\<lparr>write_queue := q\<rparr>, snd (at_world c)), at_source := at_source c @ [e]\<rparr>)"
| Pop_nothing: "\<lbrakk>q_pop (qu (basket S)) srv (write_queue (fst (at_world c))) = ((False, e), q)\<rbrakk>
    \<Longrightarrow> call_step S c (c\<lparr>at_world := ((fst (at_world c))\<lparr>write_queue := q\<rparr>, snd (at_world c))\<rparr>)"
| Begin_source: "\<lbrakk>e \<in> set (at_source c); calls \<in> {source_calls, direct_calls}\<rbrakk>
    \<Longrightarrow> call_step S c (c\<lparr>at_source := remove1 e (at_source c), running := running c @ [(e, '''', calls)]\<rparr>)"
| Begin_sink: "\<lbrakk>e \<in> set (at_sink c)\<rbrakk>
    \<Longrightarrow> call_step S c (c\<lparr>at_sink := remove1 e (at_sink c), running := running c @ [(e, '''', sink_calls)]\<rparr>)"
| Call: "\<lbrakk>running c = xs @ (e, d, x # calls) # ys; run_call (basket S) (io S) now e x (d, at_world c) = (d', w)\<rbrakk>
    \<Longrightarrow> call_step S c (c\<lparr>at_world := w, running := xs @ (if calls = [] then [] else [(e, d', calls)]) @ ys,
          at_sink := at_sink c @ (if x = Emit then [e] else [])\<rparr>)"
| Poll_done: "\<lbrakk>p \<in> set (parcels S); caller_of c (key_of p) = Marked;
      m_get (st (basket S)) p (parsel_state (fst (at_world c))) = (True, v); status v = DONE\<rbrakk>
    \<Longrightarrow> call_step S c (c\<lparr>caller_of := (caller_of c)(key_of p := Seen_done)\<rparr>)"
| Erase_state: "\<lbrakk>p \<in> set (parcels S); caller_of c (key_of p) = Seen_done;
      m_erase (st (basket S)) p (parsel_state (fst (at_world c))) = (r, t)\<rbrakk>
    \<Longrightarrow> call_step S c (c\<lparr>at_world := ((fst (at_world c))\<lparr>parsel_state := t\<rparr>, snd (at_world c)),
          caller_of := (caller_of c)(key_of p := Finished)\<rparr>)"

definition call_start :: "('w, 't, 'q, 'f) setting \<Rightarrow> ('w, 't, 'q, 'f) calling \<Rightarrow> bool" where
  "call_start S c =
     (at_source c = [] \<and> running c = [] \<and> at_sink c = [] \<and> caller_of c = (\<lambda>_. Idle_caller)
      \<and> to_write (basket S) (fst (at_world c)) = (\<lambda>_. [])
      \<and> (\<forall>p \<in> set (parcels S). state_of (basket S) (fst (at_world c)) (key_of p) = None
           \<and> files (io S) (snd (at_world c)) (temp_file (basket S) (io S) p) = None))"

section \<open>Where the bytes are\<close>

record copies =
  in_store :: bool
  in_tmp :: bool
  in_target :: bool
  in_memory :: bool

definition only_store :: copies where "only_store = \<lparr>in_store = True, in_tmp = False, in_target = False, in_memory = False\<rparr>"
definition only_tmp :: copies where "only_tmp = \<lparr>in_store = False, in_tmp = True, in_target = False, in_memory = False\<rparr>"
definition only_target :: copies where "only_target = \<lparr>in_store = False, in_tmp = False, in_target = True, in_memory = False\<rparr>"

text \<open>What a call needs and does to the copies; \<open>None\<close> if it must not be made.\<close>

fun after_call :: "call \<Rightarrow> copies \<Rightarrow> copies option" where
  "after_call Get_data k = (if in_store k then Some (k\<lparr>in_memory := True\<rparr>) else None)"
| "after_call Write_temp k = (if in_memory k then Some (k\<lparr>in_tmp := True\<rparr>) else None)"
| "after_call Delete_data k = Some (k\<lparr>in_store := False\<rparr>)"
| "after_call (Set_status v) k =
     (if v \<noteq> DONE \<or> in_target k \<and> \<not> in_store k \<and> \<not> in_tmp k then Some k else None)"
| "after_call Read_temp k = (if in_tmp k then Some (k\<lparr>in_memory := True\<rparr>) else None)"
| "after_call Remove_temp k = Some (k\<lparr>in_tmp := False\<rparr>)"
| "after_call Write_target k = (if in_memory k then Some (k\<lparr>in_target := True\<rparr>) else None)"
| "after_call Emit k = (if \<not> in_store k \<and> in_tmp k \<and> \<not> in_target k then Some k else None)"

text \<open>The points of a script that starts with the copies \<open>k\<close>: what is where, and the calls that are left.\<close>

fun points :: "copies \<Rightarrow> call list \<Rightarrow> (copies \<times> call list) list" where
  "points k [] = []"
| "points k (x # calls) = (k, x # calls) # (case after_call x k of None \<Rightarrow> [] | Some k' \<Rightarrow> points k' calls)"

definition all_points :: "(copies \<times> call list) list" where
  "all_points = points only_store source_calls @ points only_store direct_calls @ points only_tmp sink_calls"


lemma points_start:
  "(only_store, source_calls) \<in> set all_points" "(only_store, direct_calls) \<in> set all_points" "(only_tmp, sink_calls) \<in> set all_points"
  by (simp_all add: all_points_def source_calls_def direct_calls_def sink_calls_def)

lemmas points_defs = all_points_def source_calls_def direct_calls_def sink_calls_def only_store_def only_tmp_def only_target_def

text \<open>From each point the next call can be made, and leads to the next point or leaves the copies the next task starts from.\<close>

lemma points_next:
  assumes "(k, x # calls) \<in> set all_points"
  shows "\<exists>k'. after_call x k = Some k' \<and> (calls \<noteq> [] \<longrightarrow> (k', calls) \<in> set all_points)
    \<and> (calls = [] \<longrightarrow> k'\<lparr>in_memory := False\<rparr> = (if x = Emit then only_tmp else only_target))"
    "x = Emit \<Longrightarrow> calls = []" "x = Set_status DONE \<Longrightarrow> calls = []"
  using assms by (auto simp: points_defs)

lemma points_calls: "(k, calls) \<in> set all_points \<Longrightarrow> calls \<noteq> []"
  by (auto simp: points_defs)

text \<open>Only the sink task, after it has removed the temporary file and before it writes the target, holds the only copy.\<close>

lemma points_window:
  assumes "(k, calls) \<in> set all_points"
  shows "calls = [Write_target, Set_status DONE] \<longleftrightarrow> \<not> in_store k \<and> \<not> in_tmp k \<and> \<not> in_target k"
    "calls = [Write_target, Set_status DONE] \<Longrightarrow> in_memory k"
  using assms by (auto simp: points_defs)

definition has :: "('w, 't, 'q, 'f) setting \<Rightarrow> ('w, 't, 'q, 'f) world \<Rightarrow> copies \<Rightarrow> parcel \<Rightarrow> bool" where
  "has S w k p =
     (data_of (basket S) (fst w) (key_of p) = (if in_store k then Some (payload S p) else None)
      \<and> (if in_tmp k then in_temp (basket S) (io S) (snd w) p (payload S p)
          else files (io S) (snd w) (temp_file (basket S) (io S) p) = None)
      \<and> (in_target k \<longrightarrow> in_file (io S) (snd w) p (payload S p)))"

lemma has_memory [simp]: "has S w (k\<lparr>in_memory := b\<rparr>) p = has S w k p"
  by (simp add: has_def)

lemma has_wire: "wire_of p = wire_of q \<Longrightarrow> has S w k p = has S w k q"
  by (simp add: has_def payload_wire [of p q] wire_congs [of p q])

text \<open>What a call on one parcel leaves of another.\<close>

definition spares :: "('w, 't, 'q, 'f) setting \<Rightarrow> ('w, 't, 'q, 'f) world \<Rightarrow> ('w, 't, 'q, 'f) world \<Rightarrow> parcel \<Rightarrow> bool" where
  "spares S w w' p =
     (data_of (basket S) (fst w') (key_of p) = data_of (basket S) (fst w) (key_of p)
      \<and> files (io S) (snd w') (temp_file (basket S) (io S) p) = files (io S) (snd w) (temp_file (basket S) (io S) p)
      \<and> (in_file (io S) (snd w) p (payload S p) \<longrightarrow> in_file (io S) (snd w') p (payload S p)))"

lemma spares_has: "spares S w w' p \<Longrightarrow> has S w k p \<Longrightarrow> has S w' k p"
  by (auto simp: spares_def has_def in_temp_def)

lemma spares_files:
  assumes "data_of (basket S) (fst w') (key_of p) = data_of (basket S) (fst w) (key_of p)" "snd w' = snd w"
  shows "spares S w w' p"
  using assms by (simp add: spares_def)

section \<open>One call\<close>

lemma run_call_views:
  assumes "basket_laws B"
  shows "to_write B (fst (snd (run_call B IO now p x (d, w)))) = to_write B (fst w)"
    "data_of B (fst (snd (run_call B IO now p x (d, w)))) = (if x = Delete_data then (data_of B (fst w))(key_of p := None) else data_of B (fst w))"
    "state_of B (fst (snd (run_call B IO now p x (d, w)))) =
       (case x of Set_status v \<Rightarrow> (state_of B (fst w))(key_of p \<mapsto> ParcelState now v) | _ \<Rightarrow> state_of B (fst w))"
  using assms by (cases w; cases x; simp)+

lemma write_temp_files:
  assumes "io_laws (io S)" "length d = unat (data_size e)"
  shows "files (io S) (snd (snd (run_call (basket S) (io S) now e Write_temp (d, w)))) = (files (io S) (snd w))(temp_file (basket S) (io S) e \<mapsto>
     splice (old_content (files (io S) (snd w) (temp_file (basket S) (io S) e))) 0 d)"
  using assms by (cases w) (simp add: temp_file_def io_write_files)

lemma write_target_files:
  assumes "io_laws (io S)" "length d = unat (data_size e)"
  shows "files (io S) (snd (snd (run_call (basket S) (io S) now e Write_target (d, w)))) = (files (io S) (snd w))(target_file (io S) e \<mapsto>
     splice (old_content (files (io S) (snd w) (target_file (io S) e))) (unat (position e)) d)"
  using assms by (cases w) (simp add: target_file_def io_write_files)

lemma remove_temp_files:
  assumes "io_laws (io S)"
  shows "files (io S) (snd (snd (run_call (basket S) (io S) now e Remove_temp (d, w)))) = (files (io S) (snd w))(temp_file (basket S) (io S) e := None)"
  using assms by (cases w) (simp add: temp_file_def io_remove_files)

lemma quiet_calls:
  assumes "x \<notin> {Write_temp, Write_target, Remove_temp}"
  shows "snd (snd (run_call B IO now e x (d, w))) = snd w"
  using assms by (cases w; cases x) auto

lemma read_temp_data:
  assumes "io_laws (io S)" "in_temp (basket S) (io S) (snd w) e b"
  shows "fst (run_call (basket S) (io S) now e Read_temp (d, w)) = b"
proof -
  let ?temp = "e\<lparr>pid := cs_of (basket S) (pid e @ temp_suffix e), position := 0\<rparr>"
  let ?buf = "e\<lparr>position := 0, buffer := replicate (unat (data_size e)) (CHR 0x00)\<rparr>"
  obtain s f where w: "w = (s, f)" by (cases w)
  obtain c where c: "files (io S) f (temp_file (basket S) (io S) e) = Some c" "unat (data_size e) \<le> length c" "slice c 0 (unat (data_size e)) = b"
    using assms(2) by (auto simp: in_temp_def w split: option.splits)
  have "io_read (io S) (file_client (io S)) ?temp ?buf f = b"
    using io_read_buffer [OF assms(1), of f "file_client (io S)" ?temp c ?buf] c by (simp add: temp_file_def)
  then show ?thesis by (simp add: w)
qed

lemma call_spares:
  assumes "proper S" "wire_of e \<in> known S" "p \<in> set (parcels S)" "key_of p \<noteq> key_of e"
    and "x \<in> {Write_temp, Write_target} \<Longrightarrow> d = payload S e"
  shows "spares S w (snd (run_call (basket S) (io S) now e x (d, w))) p" (is "spares S w ?w' p")
proof -
  obtain q where q: "q \<in> set (parcels S)" "wire_of q = wire_of e" using known_parcel [OF assms(2)] .
  have "key_of p \<noteq> key_of q" using assms(4) by (simp add: wire_congs [OF q(2)])
  note ap = proper_apart [OF assms(1,3) q(1) this, unfolded wire_congs [OF q(2)]] and IO = properD(2) [OF assms(1)]
  have data: "data_of (basket S) (fst ?w') (key_of p) = data_of (basket S) (fst w) (key_of p)"
    using assms(4) by (simp add: run_call_views(2) [OF properD(1) [OF assms(1)]])
  consider "x \<notin> {Write_temp, Write_target, Remove_temp}" | "x = Write_temp" | "x = Write_target" | "x = Remove_temp" by blast
  then show ?thesis
  proof cases
    case 1
    then show ?thesis by (intro spares_files data quiet_calls)
  next
    case 2
    then have "length d = unat (data_size e)" using assms(5) payload_fits(1) [OF assms(1,2)] by simp
    from write_temp_files [OF IO this] data ap show ?thesis unfolding 2 by (simp add: spares_def in_file_def)
  next
    case 3
    then have len: "length d = unat (data_size e)" using assms(5) payload_fits(1) [OF assms(1,2)] by simp
    note f = write_target_files [OF IO len, of now w]
    have "in_file (io S) (snd ?w') p (payload S p)" if "in_file (io S) (snd w) p (payload S p)"
      unfolding 3 by (rule in_file_other [OF f _ len ap(1) that]) simp
    with data f ap show ?thesis unfolding 3 by (simp add: spares_def)
  next
    case 4
    from remove_temp_files [OF IO] data ap show ?thesis unfolding 4 by (simp add: spares_def in_file_def)
  qed
qed

lemma in_temp_own:
  assumes "files IO f' = F(temp_file B IO p \<mapsto> splice old 0 d)" "length d = unat (data_size p)"
  shows "in_temp B IO f' p d"
  using assms slice_splice_same [of old 0 d] by (simp add: in_temp_def splice_length)

lemma call_has:
  assumes "proper S" "wire_of e \<in> known S" "has S w k e" "in_memory k \<Longrightarrow> d = payload S e" "after_call x k = Some k'"
  shows "has S (snd (run_call (basket S) (io S) now e x (d, w))) k' e" (is "has S ?w' k' e")
    "in_memory k' \<Longrightarrow> fst (run_call (basket S) (io S) now e x (d, w)) = payload S e"
proof -
  note IO = properD(2) [OF assms(1)] and B = properD(1) [OF assms(1)] and fits = payload_fits [OF assms(1,2)]
  obtain s f where w: "w = (s, f)" by (cases w)
  note data = run_call_views(2) [OF B, of "io S" now e x d w]
  show "has S ?w' k' e"
  proof (cases x)
    case Write_temp
    with assms(5) have k: "in_memory k" "k' = k\<lparr>in_tmp := True\<rparr>" by (simp_all split: if_splits)
    then have len: "length d = unat (data_size e)" and d: "d = payload S e" using assms(4) fits(1) by simp_all
    note f' = write_temp_files [OF IO len, of now w]
    from in_temp_own [OF f' len] f' fits(2) assms(3) data show ?thesis
      unfolding Write_temp k d by (simp add: has_def in_file_def)
  next
    case Write_target
    with assms(5) have k: "in_memory k" "k' = k\<lparr>in_target := True\<rparr>" by (simp_all split: if_splits)
    then have len: "length d = unat (data_size e)" and d: "d = payload S e" using assms(4) fits(1) by simp_all
    note f' = write_target_files [OF IO len, of now w]
    from in_file_own [OF f' len] f' fits(2) assms(3) data show ?thesis
      unfolding Write_target k d by (cases "in_tmp k") (simp_all add: has_def in_temp_def)
  next
    case Remove_temp
    with assms(5) have k: "k' = k\<lparr>in_tmp := False\<rparr>" by simp
    from remove_temp_files [OF IO, of now e d w] fits(2) assms(3) data show ?thesis
      unfolding Remove_temp k by (simp add: has_def in_file_def)
  next
    case Delete_data
    with assms(3,5) data quiet_calls [of x "basket S" "io S" now e d w] show ?thesis by (auto simp: has_def)
  qed (use assms(3,5) data quiet_calls [of x "basket S" "io S" now e d w] in \<open>auto simp: has_def split: if_splits\<close>)
  show "fst (run_call (basket S) (io S) now e x (d, w)) = payload S e" if "in_memory k'"
  proof (cases x)
    case Get_data
    with assms(3,5) have "data_of (basket S) s (key_of e) = Some (payload S e)" by (simp add: has_def w split: if_splits)
    from get_data_stored [OF B this] show ?thesis by (simp add: Get_data w)
  next
    case Read_temp
    with assms(3,5) have "in_temp (basket S) (io S) (snd w) e (payload S e)" by (simp add: has_def split: if_splits)
    from read_temp_data [OF IO this] show ?thesis unfolding Read_temp .
  qed (use that assms(4,5) w in \<open>auto split: if_splits\<close>)
qed


section \<open>The stages of a parcel\<close>

datatype stage = Nowhere | Put_in | In_line | Popped | Busy copies "call list" | On_way | Arrived

text \<open>The copies at a stage; before \<open>Publish\<close> and after a refusal nothing is known but that the temporary name is free.\<close>

fun copies_at :: "stage \<Rightarrow> copies option" where
  "copies_at Nowhere = None"
| "copies_at (Busy k calls) = Some k"
| "copies_at On_way = Some only_tmp"
| "copies_at Arrived = Some only_target"
| "copies_at v = Some only_store"

definition stands :: "('w, 't, 'q, 'f) setting \<Rightarrow> ('w, 't, 'q, 'f) world \<Rightarrow> stage \<Rightarrow> parcel \<Rightarrow> bool" where
  "stands S w v p = (case copies_at v of None \<Rightarrow> files (io S) (snd w) (temp_file (basket S) (io S) p) = None | Some k \<Rightarrow> has S w k p)"

fun caller_fits :: "caller \<Rightarrow> stage \<Rightarrow> bool" where
  "caller_fits Idle_caller v = (v = Nowhere)"
| "caller_fits Gave_up v = (v = Nowhere)"
| "caller_fits Put_made v = (v = Put_in)"
| "caller_fits Seen_done v = (v = Arrived)"
| "caller_fits Finished v = (v = Arrived)"
| "caller_fits c v = (v \<noteq> Nowhere \<and> v \<noteq> Put_in)"

definition told_by :: "('w, 't, 'q, 'f) setting \<Rightarrow> ('w, 't, 'q, 'f) world \<Rightarrow> parcel_key \<Rightarrow> task_status option" where
  "told_by S w k = map_option status (state_of (basket S) (fst w) k)"

text \<open>The keys at a stage, those in the queue of a server, and those with a running task.\<close>

definition keys_at :: "(parcel_key \<Rightarrow> stage) \<Rightarrow> stage \<Rightarrow> parcel_key set" where
  "keys_at a v = {k. a k = v}"

definition queue_keys :: "('w, 't, 'q, 'f) setting \<Rightarrow> (parcel_key \<Rightarrow> stage) \<Rightarrow> u16 \<Rightarrow> parcel_key set" where
  "queue_keys S a srv = {k. a k = In_line \<and> home S k = srv}"

definition busy_keys :: "(parcel_key \<Rightarrow> stage) \<Rightarrow> parcel_key set" where
  "busy_keys a = {k. \<exists>u calls. a k = Busy u calls}"

definition knows :: "('w, 't, 'q, 'f) setting \<Rightarrow> (parcel_key \<Rightarrow> stage) \<Rightarrow> parcel \<times> string \<times> call list \<Rightarrow> bool" where
  "knows S a r = (case r of (e, d, calls) \<Rightarrow>
     \<exists>k. a (key_of e) = Busy k calls \<and> (k, calls) \<in> set all_points \<and> (in_memory k \<longrightarrow> d = payload S e))"

definition staged :: "('w, 't, 'q, 'f) setting \<Rightarrow> ('w, 't, 'q, 'f) calling \<Rightarrow> (parcel_key \<Rightarrow> stage) \<Rightarrow> bool" where
  "staged S c a =
     ((\<forall>srv. lists_keys S (to_write (basket S) (fst (at_world c)) srv) (queue_keys S a srv))
      \<and> lists_keys S (map wire_of (at_source c)) (keys_at a Popped)
      \<and> lists_keys S (map wire_of (at_sink c)) (keys_at a On_way)
      \<and> lists_keys S (map (wire_of \<circ> fst) (running c)) (busy_keys a)
      \<and> (\<forall>r \<in> set (running c). knows S a r)
      \<and> (\<forall>k. caller_fits (caller_of c k) (a k))
      \<and> (\<forall>p \<in> set (parcels S). stands S (at_world c) (a (key_of p)) p
           \<and> (told_by S (at_world c) (key_of p) = Some DONE \<longrightarrow> a (key_of p) = Arrived)))"

lemma stagedD:
  assumes "staged S c a"
  shows "lists_keys S (to_write (basket S) (fst (at_world c)) srv) (queue_keys S a srv)"
    "lists_keys S (map wire_of (at_source c)) (keys_at a Popped)"
    "lists_keys S (map wire_of (at_sink c)) (keys_at a On_way)"
    "lists_keys S (map (wire_of \<circ> fst) (running c)) (busy_keys a)"
    "r \<in> set (running c) \<Longrightarrow> knows S a r"
    "caller_fits (caller_of c k) (a k)"
    "p \<in> set (parcels S) \<Longrightarrow> stands S (at_world c) (a (key_of p)) p"
    "p \<in> set (parcels S) \<Longrightarrow> told_by S (at_world c) (key_of p) = Some DONE \<Longrightarrow> a (key_of p) = Arrived"
  using assms unfolding staged_def by blast+

lemma stands_wire: "wire_of p = wire_of q \<Longrightarrow> stands S w v p = stands S w v q"
  by (simp add: stands_def has_wire [of p q] wire_congs [of p q] cong: option.case_cong)

lemma spares_stands: "spares S w w' p \<Longrightarrow> stands S w v p \<Longrightarrow> stands S w' v p"
  by (cases "copies_at v") (simp_all add: stands_def spares_has, simp add: spares_def)

lemma call_starts: "call_start S c \<Longrightarrow> staged S c (\<lambda>_. Nowhere)"
  by (auto simp: call_start_def staged_def stands_def told_by_def busy_keys_def keys_at_def queue_keys_def)

text \<open>A step that moves the parcel of one key from its stage to \<open>v\<close>.\<close>

lemma stands_after:
  assumes "proper S" "wire_of e \<in> known S" "\<And>p. p \<in> set (parcels S) \<Longrightarrow> stands S w (a (key_of p)) p"
    and "\<And>p. p \<in> set (parcels S) \<Longrightarrow> key_of p \<noteq> key_of e \<Longrightarrow> spares S w w' p" "stands S w' v e" "p \<in> set (parcels S)"
  shows "stands S w' ((a(key_of e := v)) (key_of p)) p"
proof (cases "key_of p = key_of e")
  case True
  have "wire_of p = wire_of e" by (rule same_parcel [OF proper_distinct [OF assms(1)] assms(6,2) True])
  from assms(5) True show ?thesis by (simp add: stands_wire [OF \<open>wire_of p = wire_of e\<close>])
next
  case False
  with spares_stands [OF assms(4) [OF assms(6) False] assms(3) [OF assms(6)]] show ?thesis by simp
qed

lemma known_stands:
  assumes "wire_of e \<in> known S" "\<And>p. p \<in> set (parcels S) \<Longrightarrow> stands S w (a (key_of p)) p"
  shows "stands S w (a (key_of e)) e"
proof -
  obtain p where p: "p \<in> set (parcels S)" "wire_of p = wire_of e" using known_parcel [OF assms(1)] .
  from assms(2) [OF p(1)] show ?thesis by (simp add: stands_wire [OF p(2)] wire_congs [OF p(2)])
qed


lemma image_split:
  assumes "distinct (map h (xs @ y # ys))"
  shows "h ` set (xs @ ys) = h ` set (xs @ y # ys) - {h y}"
  using assms by (auto; metis imageI)

lemma lists_keys_split:
  assumes "lists_keys S (xs @ y # ys) K"
  shows "y \<in> known S" "key_of_wire y \<in> K" "lists_keys S (xs @ ys) (K - {key_of_wire y})"
proof -
  note l = assms [unfolded lists_keys_def]
  from l show "y \<in> known S" "key_of_wire y \<in> K" by auto
  from image_split [of key_of_wire xs y ys] l show "lists_keys S (xs @ ys) (K - {key_of_wire y})" by (auto simp: lists_keys_def)
qed

lemma lists_keys_same: "lists_keys S xs K \<Longrightarrow> L = K \<Longrightarrow> lists_keys S xs L"
  by simp

section \<open>Every call keeps the stages\<close>

text \<open>A step on one parcel that takes it to the stage \<open>v\<close>.\<close>

lemma staged_move:
  assumes "proper S" "staged S c a" "wire_of e \<in> known S"
    and lists: "\<And>srv. lists_keys S (to_write (basket S) (fst (at_world c')) srv) (queue_keys S (a(key_of e := v)) srv)"
      "lists_keys S (map wire_of (at_source c')) (keys_at (a(key_of e := v)) Popped)"
      "lists_keys S (map wire_of (at_sink c')) (keys_at (a(key_of e := v)) On_way)"
      "lists_keys S (map (wire_of \<circ> fst) (running c')) (busy_keys (a(key_of e := v)))"
    and knows: "\<And>r. r \<in> set (running c') \<Longrightarrow> knows S (a(key_of e := v)) r"
    and caller: "caller_fits (caller_of c' (key_of e)) v" "\<And>k. k \<noteq> key_of e \<Longrightarrow> caller_of c' k = caller_of c k"
    and world: "\<And>p. p \<in> set (parcels S) \<Longrightarrow> key_of p \<noteq> key_of e \<Longrightarrow> spares S (at_world c) (at_world c') p" "stands S (at_world c') v e"
    and state: "\<And>k. k \<noteq> key_of e \<Longrightarrow> state_of (basket S) (fst (at_world c')) k = state_of (basket S) (fst (at_world c)) k"
      "told_by S (at_world c') (key_of e) = Some DONE \<Longrightarrow> v = Arrived"
  shows "staged S c' (a(key_of e := v))" (is "staged S c' ?a")
proof -
  note g = stagedD [OF assms(2)]
  have "stands S (at_world c') (?a (key_of p)) p \<and> (told_by S (at_world c') (key_of p) = Some DONE \<longrightarrow> ?a (key_of p) = Arrived)"
    if p: "p \<in> set (parcels S)" for p
  proof
    show "stands S (at_world c') (?a (key_of p)) p"
      by (rule stands_after [where w = "at_world c", OF assms(1,3) g(7) world p])
    show "told_by S (at_world c') (key_of p) = Some DONE \<longrightarrow> ?a (key_of p) = Arrived"
      using g(8) [OF p] state by (cases "key_of p = key_of e") (simp_all add: told_by_def)
  qed
  moreover have "caller_fits (caller_of c' k) (?a k)" for k
    using caller g(6) [of k] by (cases "k = key_of e") simp_all
  ultimately show ?thesis using lists knows unfolding staged_def by blast
qed

lemma knows_keeps:
  assumes "knows S a r" "\<And>k calls. a j \<noteq> Busy k calls"
  shows "knows S (a(j := v)) r"
  using assms by (cases r) (auto simp: knows_def)

text \<open>The keys of the lists when one parcel moves on.\<close>

lemma move_keys:
  "queue_keys S (a(j := v)) srv = (if v = In_line \<and> home S j = srv then insert j (queue_keys S a srv) else queue_keys S a srv - {j})"
  "keys_at (a(j := v)) u = (if v = u then insert j (keys_at a u) else keys_at a u - {j})"
  "busy_keys (a(j := v)) = (if (\<exists>k calls. v = Busy k calls) then insert j (busy_keys a) else busy_keys a - {j})"
  by (auto simp: busy_keys_def keys_at_def queue_keys_def)

text \<open>A key that is not in a list, and its removal.\<close>

lemma not_in_keys:
  "a j \<noteq> In_line \<Longrightarrow> queue_keys S a srv - {j} = queue_keys S a srv"
  "a j \<noteq> u \<Longrightarrow> keys_at a u - {j} = keys_at a u"
  "(\<And>k calls. a j \<noteq> Busy k calls) \<Longrightarrow> busy_keys a - {j} = busy_keys a"
  by (auto simp: busy_keys_def keys_at_def queue_keys_def)

lemma staged_put:
  assumes "proper S" "staged S c a" "p \<in> set (parcels S)" "caller_of c (key_of p) = Idle_caller"
    and "string_of_buffer (bytes S (key_of p)) (unat (data_size p)) = Inr d" "PutData (at_home S p) p d (fst (at_world c)) = (ok, s)"
  shows "ok" "staged S (c\<lparr>at_world := (s, snd (at_world c)), caller_of := (caller_of c)(key_of p := Put_made)\<rparr>) (a(key_of p := Put_in))"
    (is "staged S ?c ?a")
proof -
  note g = stagedD [OF assms(2)] and B = properD(3) [OF assms(1), of p]
  let ?k = "key_of p" and ?w = "(s, snd (at_world c))"
  have a: "a ?k = Nowhere" using g(6) [of ?k] assms(4) by simp
  show "ok" using assms(6) map_total_put(1) [OF basket_lawsD(1) [OF B]] by (auto simp: PutData_def split: prod.splits) (metis fst_conv)
  have s: "s = snd (PutData (at_home S p) p d (fst (at_world c)))" using assms(6) by simp
  note v = views_put [OF B, of p d "fst (at_world c)", folded s, unfolded at_home_views]
  have d: "d = payload S p" using assms(5) by (simp add: string_of_buffer_def payload_def split: if_splits)
  have known: "wire_of p \<in> known S" using assms(3) by (simp add: known_def)
  have "stands S ?w Put_in p" using g(7) [OF assms(3)] a by (simp add: stands_def has_def only_store_def v d)
  moreover have "told_by S ?w ?k \<noteq> Some DONE" using g(8) [OF assms(3)] a by (auto simp: told_by_def v)
  ultimately show "staged S ?c ?a"
    using g(1-4) a
    by (intro staged_move [OF assms(1,2) known]) (auto simp: move_keys not_in_keys v spares_def intro: knows_keeps [OF g(5)])
qed


lemma at_home_ops [simp]: "qu (at_home S p) = qu (basket S)" "wh (at_home S p) = wh (basket S)" "st (at_home S p) = st (basket S)"
  by (simp_all add: at_home_def)

lemma queue_views:
  "to_write B (s\<lparr>write_queue := q\<rparr>) = waiting (qu B) q" "data_of B (s\<lparr>write_queue := q\<rparr>) = data_of B s"
  "state_of B (s\<lparr>write_queue := q\<rparr>) = state_of B s"
  by (simp_all add: view_defs)

lemma staged_push:
  assumes "proper S" "staged S c a" "p \<in> set (parcels S)" "caller_of c (key_of p) = Put_made"
    and "q_push (qu (at_home S p)) p (my_server (at_home S p)) (write_queue (fst (at_world c))) = (ok, q)"
  shows "staged S (c\<lparr>at_world := ((fst (at_world c))\<lparr>write_queue := q\<rparr>, snd (at_world c)),
      caller_of := (caller_of c)(key_of p := (if ok then Push_made else Gave_up))\<rparr>) (a(key_of p := (if ok then In_line else Nowhere)))"
    (is "staged S ?c ?a")
proof -
  note g = stagedD [OF assms(2)] and B = properD(1) [OF assms(1)]
  let ?k = "key_of p" and ?s = "fst (at_world c)"
  have a: "a ?k = Put_in" using g(6) [of ?k] assms(4) by simp
  have known: "wire_of p \<in> known S" using assms(3) by (simp add: known_def)
  have q: "waiting (qu (basket S)) q = (if ok then (to_write (basket S) ?s)(home S ?k := to_write (basket S) ?s (home S ?k) @ [wire_of p]) else to_write (basket S) ?s)"
    using queue_push_waiting [OF basket_lawsD(5) [OF B], of p "home S ?k" "write_queue ?s"] assms(5) by (simp add: to_write_def)
  have line: "lists_keys S (waiting (qu (basket S)) q srv) (queue_keys S ?a srv)" for srv
  proof (cases "ok \<and> srv = home S ?k")
    case True
    have "?k \<notin> queue_keys S a srv" using a by (simp add: queue_keys_def)
    from lists_keys_snoc [OF g(1) known this] True show ?thesis by (simp add: q move_keys)
  next
    case False
    with g(1) [of srv] show ?thesis by (auto simp: q move_keys not_in_keys a)
  qed
  have has: "has S (at_world c) only_store p" using g(7) [OF assms(3)] a by (simp add: stands_def)
  have "told_by S (at_world c) ?k \<noteq> Some DONE" using g(8) [OF assms(3)] a by auto
  then show ?thesis
    using g(2-4) a line has
    by (intro staged_move [OF assms(1,2) known])
      (auto simp: move_keys not_in_keys queue_views spares_def stands_def has_def only_store_def told_by_def intro: knows_keeps [OF g(5)])
qed

lemma staged_mark:
  assumes "proper S" "staged S c a" "p \<in> set (parcels S)" "caller_of c (key_of p) = Push_made"
    and "publish_mark (at_home S p) now p (fst (at_world c)) = (ok, s)"
  shows "staged S (c\<lparr>at_world := (s, snd (at_world c)), caller_of := (caller_of c)(key_of p := Marked)\<rparr>) a" (is "staged S ?c a")
proof -
  note g = stagedD [OF assms(2)]
  let ?k = "key_of p"
  note eff = publish_mark_effect(2-4) [OF properD(3) [OF assms(1)] assms(5), unfolded at_home_views]
  have known: "wire_of p \<in> known S" using assms(3) by (simp add: known_def)
  have "stands S (s, snd (at_world c)) (a ?k) p"
    by (rule spares_stands [OF spares_files g(7) [OF assms(3)]]) (simp_all add: eff)
  then have "staged S ?c (a(?k := a ?k))"
    using g(1-5) g(6) [of ?k] assms(4)
    by (intro staged_move [OF assms(1,2) known]) (auto simp: eff spares_def told_by_def)
  then show ?thesis by simp
qed

lemma caller_moves: "caller_fits pc v \<Longrightarrow> v \<notin> {Nowhere, Put_in, Arrived} \<Longrightarrow> u \<notin> {Nowhere, Put_in} \<Longrightarrow> caller_fits pc u"
  by (cases pc) auto

lemma told_arrived:
  assumes "staged S c a" "wire_of e \<in> known S" "told_by S (at_world c) (key_of e) = Some DONE"
  shows "a (key_of e) = Arrived"
proof -
  obtain p where p: "p \<in> set (parcels S)" "wire_of p = wire_of e" using known_parcel [OF assms(2)] .
  from stagedD(8) [OF assms(1) p(1)] assms(3) show ?thesis by (simp add: wire_congs [OF p(2)])
qed

lemma popped_first:
  assumes "queue_laws Q" "q_pop Q srv q = ((True, e), q')"
  obtains ws where "waiting Q q srv = wire_of e # ws" "waiting Q q' = (waiting Q q)(srv := ws)"
proof (cases "waiting Q q srv")
  case Nil
  from queue_pop_empty [OF assms(1) Nil] assms(2) show ?thesis by auto
next
  case (Cons w ws)
  from queue_pop_first [OF assms(1) Cons] assms(2) that Cons show ?thesis by auto
qed

lemma popped_nothing:
  assumes "queue_laws Q" "q_pop Q srv q = ((False, e), q')"
  shows "waiting Q q' = waiting Q q"
proof (cases "waiting Q q srv")
  case Nil
  from queue_pop_empty [OF assms(1) Nil] assms(2) show ?thesis by auto
next
  case (Cons w ws)
  from queue_pop_first [OF assms(1) Cons] assms(2) show ?thesis by auto
qed

lemma staged_pop_nothing:
  assumes "proper S" "staged S c a" "q_pop (qu (basket S)) srv (write_queue (fst (at_world c))) = ((False, e), q)"
  shows "staged S (c\<lparr>at_world := ((fst (at_world c))\<lparr>write_queue := q\<rparr>, snd (at_world c))\<rparr>) a"
proof -
  note g = stagedD [OF assms(2)]
  have q: "waiting (qu (basket S)) q = to_write (basket S) (fst (at_world c))"
    using popped_nothing [OF basket_lawsD(5) [OF properD(1) [OF assms(1)]] assms(3)] by (simp add: to_write_def)
  have "stands S ((fst (at_world c))\<lparr>write_queue := q\<rparr>, snd (at_world c)) (a (key_of p)) p" if "p \<in> set (parcels S)" for p
    by (rule spares_stands [OF spares_files g(7) [OF that]]) (simp_all add: queue_views)
  with g show ?thesis by (simp add: staged_def queue_views q told_by_def)
qed

lemma staged_pop:
  assumes "proper S" "staged S c a" "q_pop (qu (basket S)) srv (write_queue (fst (at_world c))) = ((True, e), q)"
  shows "a (key_of e) = In_line" "wire_of e \<in> known S"
    "staged S (c\<lparr>at_world := ((fst (at_world c))\<lparr>write_queue := q\<rparr>, snd (at_world c)), at_source := at_source c @ [e]\<rparr>) (a(key_of e := Popped))"
    (is "staged S ?c ?a")
proof -
  note g = stagedD [OF assms(2)]
  let ?k = "key_of e"
  obtain ws where w: "to_write (basket S) (fst (at_world c)) srv = wire_of e # ws"
    "waiting (qu (basket S)) q = (to_write (basket S) (fst (at_world c)))(srv := ws)"
    using popped_first [OF basket_lawsD(5) [OF properD(1) [OF assms(1)]] assms(3)] by (auto simp: to_write_def)
  note l = lists_keys_split [of S "[]" "wire_of e" ws "queue_keys S a srv", simplified, OF g(1) [of srv, unfolded w(1)]]
  from l(1) show known: "wire_of e \<in> known S" .
  from l(2) have k: "a ?k = In_line" "home S ?k = srv" by (simp_all add: queue_keys_def)
  then show "a ?k = In_line" by simp
  have other: "?k \<notin> queue_keys S a srv'" if "srv' \<noteq> srv" for srv' using k(2) that by (simp add: queue_keys_def)
  have line: "lists_keys S (waiting (qu (basket S)) q srv') (queue_keys S ?a srv')" for srv'
    using l(3) g(1) [of srv'] other [of srv'] by (cases "srv' = srv") (simp_all add: w move_keys)
  have "?k \<notin> keys_at a Popped" using k by (simp add: keys_at_def)
  then have src: "lists_keys S (map wire_of (at_source c @ [e])) (insert ?k (keys_at a Popped))"
    using lists_keys_snoc [OF g(2) known] by simp
  have "stands S (at_world c) In_line e" using known_stands [OF known g(7)] k by simp
  moreover have "told_by S (at_world c) ?k \<noteq> Some DONE" using told_arrived [OF assms(2) known] k(1) by auto
  moreover have "caller_fits (caller_of c ?k) Popped" using caller_moves [OF g(6) [of ?k]] k by simp
  ultimately show "staged S ?c ?a"
    using g(3,4) k src line
    by (intro staged_move [OF assms(1,2) known])
      (auto simp: move_keys not_in_keys queue_views spares_def stands_def has_def told_by_def intro: knows_keeps [OF g(5)])
qed

text \<open>A task begins: the copies are those its script starts from.\<close>

lemma begun_knows:
  assumes "\<And>r. r \<in> set rs \<Longrightarrow> knows S a r" "\<And>k calls. a (key_of e) \<noteq> Busy k calls"
    and "(k, calls) \<in> set all_points" "\<not> in_memory k" "r \<in> set (rs @ [(e, '''', calls)])"
  shows "knows S (a(key_of e := Busy k calls)) r"
proof (cases "r \<in> set rs")
  case True
  from knows_keeps [OF assms(1) [OF True] assms(2)] show ?thesis .
next
  case False
  with assms(3-5) show ?thesis by (simp add: knows_def)
qed

lemma begun_keys:
  assumes "lists_keys S (map (wire_of \<circ> fst) rs) (busy_keys a)" "wire_of e \<in> known S" "\<And>k calls. a (key_of e) \<noteq> Busy k calls"
  shows "lists_keys S (map (wire_of \<circ> fst) (rs @ [(e, d, calls)])) (busy_keys (a(key_of e := Busy k calls)))"
proof -
  have "key_of e \<notin> busy_keys a" using assms(3) by (simp add: busy_keys_def)
  from lists_keys_snoc [OF assms(1,2) this] show ?thesis by (simp add: move_keys)
qed

lemma staged_begin_source:
  assumes "proper S" "staged S c a" "e \<in> set (at_source c)" "calls \<in> {source_calls, direct_calls}"
  shows "a (key_of e) = Popped" "wire_of e \<in> known S"
    "staged S (c\<lparr>at_source := remove1 e (at_source c), running := running c @ [(e, '''', calls)]\<rparr>) (a(key_of e := Busy only_store calls))"
    (is "staged S ?c ?a")
proof -
  note g = stagedD [OF assms(2)]
  note l = lists_keys_member [OF g(2) assms(3)]
  from l(1) show known: "wire_of e \<in> known S" .
  from l(2) show a: "a (key_of e) = Popped" by (simp add: keys_at_def)
  have "stands S (at_world c) (Busy only_store calls) e" using known_stands [OF known g(7)] a by (simp add: stands_def)
  moreover have "told_by S (at_world c) (key_of e) \<noteq> Some DONE" using told_arrived [OF assms(2) known] a by auto
  moreover have "caller_fits (caller_of c (key_of e)) (Busy only_store calls)" using caller_moves [OF g(6) [of "key_of e"]] a by simp
  moreover have "knows S ?a r" if "r \<in> set (running ?c)" for r
    using begun_knows [OF g(5), where r = r and e = e and calls = calls and k = only_store] points_start(1,2) assms(4) that a by (auto simp: only_store_def)
  moreover have "lists_keys S (map (wire_of \<circ> fst) (running ?c)) (busy_keys ?a)"
    using begun_keys [OF g(4) known] a by simp
  ultimately show "staged S ?c ?a"
    using g(1,3) a lists_keys_remove [OF g(2) assms(3)]
    by (intro staged_move [OF assms(1,2) known]) (auto simp: move_keys(1,2) not_in_keys spares_def)
qed

lemma staged_begin_sink:
  assumes "proper S" "staged S c a" "e \<in> set (at_sink c)"
  shows "a (key_of e) = On_way" "wire_of e \<in> known S"
    "staged S (c\<lparr>at_sink := remove1 e (at_sink c), running := running c @ [(e, '''', sink_calls)]\<rparr>) (a(key_of e := Busy only_tmp sink_calls))"
    (is "staged S ?c ?a")
proof -
  note g = stagedD [OF assms(2)]
  note l = lists_keys_member [OF g(3) assms(3)]
  from l(1) show known: "wire_of e \<in> known S" .
  from l(2) show a: "a (key_of e) = On_way" by (simp add: keys_at_def)
  have "stands S (at_world c) (Busy only_tmp sink_calls) e" using known_stands [OF known g(7)] a by (simp add: stands_def)
  moreover have "told_by S (at_world c) (key_of e) \<noteq> Some DONE" using told_arrived [OF assms(2) known] a by auto
  moreover have "caller_fits (caller_of c (key_of e)) (Busy only_tmp sink_calls)" using caller_moves [OF g(6) [of "key_of e"]] a by simp
  moreover have "knows S ?a r" if "r \<in> set (running ?c)" for r
    using begun_knows [OF g(5), where r = r and e = e and calls = sink_calls and k = only_tmp] points_start(3) that a by (auto simp: only_tmp_def)
  moreover have "lists_keys S (map (wire_of \<circ> fst) (running ?c)) (busy_keys ?a)"
    using begun_keys [OF g(4) known] a by simp
  ultimately show "staged S ?c ?a"
    using g(1,2) a lists_keys_remove [OF g(3) assms(3)]
    by (intro staged_move [OF assms(1,2) known]) (auto simp: move_keys(1,2) not_in_keys spares_def)
qed

text \<open>Where a parcel is after a call of its task.\<close>

definition next_stage :: "call \<Rightarrow> copies \<Rightarrow> call list \<Rightarrow> stage" where
  "next_stage x k calls = (if calls \<noteq> [] then Busy k calls else if x = Emit then On_way else Arrived)"

lemma running_apart:
  assumes "lists_keys S (map (wire_of \<circ> fst) (xs @ (e, d, calls) # ys)) K" "r \<in> set (xs @ ys)"
  shows "key_of (fst r) \<noteq> key_of e"
proof -
  have "lists_keys S (map (wire_of \<circ> fst) xs @ map (wire_of \<circ> fst) ys) (K - {key_of e})"
    using lists_keys_split(3) [of S "map (wire_of \<circ> fst) xs" "wire_of e" "map (wire_of \<circ> fst) ys" K] assms(1) by simp
  then have "lists_keys S (map wire_of (map fst (xs @ ys))) (K - {key_of e})" by simp
  moreover have "fst r \<in> set (map fst (xs @ ys))" using assms(2) by auto
  ultimately have "key_of (fst r) \<in> K - {key_of e}" by (rule lists_keys_member(2))
  then show ?thesis by simp
qed

lemma called_keys:
  assumes "lists_keys S (map (wire_of \<circ> fst) (xs @ (e, d, x # calls) # ys)) (busy_keys a)"
  shows "wire_of e \<in> known S" "lists_keys S (map (wire_of \<circ> fst) (xs @ (if calls = [] then [] else [(e, d', calls)]) @ ys))
      (busy_keys (a(key_of e := next_stage x k calls)))"
proof -
  have run: "lists_keys S (map (wire_of \<circ> fst) xs @ wire_of e # map (wire_of \<circ> fst) ys) (busy_keys a)" using assms by simp
  note sp = lists_keys_split [OF run]
  from sp(1) show "wire_of e \<in> known S" .
  have "insert (key_of e) (busy_keys a) = busy_keys a" using sp(2) by auto
  with run sp(3) show "lists_keys S (map (wire_of \<circ> fst) (xs @ (if calls = [] then [] else [(e, d', calls)]) @ ys))
      (busy_keys (a(key_of e := next_stage x k calls)))"
    by (cases "calls = []") (simp_all add: move_keys next_stage_def)
qed

lemma called_knows:
  assumes "staged S c a" "running c = xs @ (e, d, x # calls) # ys" "calls \<noteq> [] \<Longrightarrow> (k, calls) \<in> set all_points"
    and "in_memory k \<Longrightarrow> d' = payload S e" "r \<in> set (xs @ (if calls = [] then [] else [(e, d', calls)]) @ ys)"
  shows "knows S (a(key_of e := next_stage x k calls)) r"
proof (cases "r \<in> set (xs @ ys)")
  case True
  note g = stagedD [OF assms(1)]
  from running_apart [OF g(4) [unfolded assms(2)] True] g(5) [of r] True assms(2) show ?thesis by (cases r) (auto simp: knows_def)
next
  case False
  with assms(5) have "calls \<noteq> []" "r = (e, d', calls)" by (auto split: if_splits)
  with assms(3,4) show ?thesis by (simp add: knows_def next_stage_def)
qed

lemma called_sink:
  assumes "lists_keys S (map wire_of es) (keys_at a On_way)" "wire_of e \<in> known S" "a (key_of e) \<noteq> On_way" "x = Emit \<Longrightarrow> calls = []"
  shows "lists_keys S (map wire_of (es @ (if x = Emit then [e] else []))) (keys_at (a(key_of e := next_stage x k calls)) On_way)"
proof (cases "x = Emit")
  case True
  then have v: "next_stage Emit k calls = On_way" using assms(4) by (simp add: next_stage_def)
  have "key_of e \<notin> keys_at a On_way" using assms(3) by (simp add: keys_at_def)
  with lists_keys_snoc [OF assms(1,2) this] True show ?thesis by (simp add: move_keys v)
next
  case False
  then show ?thesis using assms(1,3) by (simp add: move_keys not_in_keys next_stage_def)
qed

lemma busy_point:
  assumes "staged S c a" "(e, d, x # calls) \<in> set (running c)"
  obtains k where "a (key_of e) = Busy k (x # calls)" "(k, x # calls) \<in> set all_points" "in_memory k \<Longrightarrow> d = payload S e"
  using stagedD(5) [OF assms] by (auto simp: knows_def)

lemma staged_call:
  assumes "proper S" "staged S c a" "running c = xs @ (e, d, x # calls) # ys"
    and "run_call (basket S) (io S) now e x (d, at_world c) = (d', w)"
  obtains k k' where "a (key_of e) = Busy k (x # calls)" "wire_of e \<in> known S"
    "staged S (c\<lparr>at_world := w, running := xs @ (if calls = [] then [] else [(e, d', calls)]) @ ys,
          at_sink := at_sink c @ (if x = Emit then [e] else [])\<rparr>) (a(key_of e := next_stage x k' calls))"
proof -
  note g = stagedD [OF assms(2)] and B = properD(1) [OF assms(1)]
  let ?j = "key_of e"
  obtain k where k: "a ?j = Busy k (x # calls)" "(k, x # calls) \<in> set all_points" "in_memory k \<Longrightarrow> d = payload S e"
    using busy_point [OF assms(2), of e d x calls] assms(3) by auto
  obtain k' where k': "after_call x k = Some k'" "calls \<noteq> [] \<Longrightarrow> (k', calls) \<in> set all_points"
    "calls = [] \<Longrightarrow> k'\<lparr>in_memory := False\<rparr> = (if x = Emit then only_tmp else only_target)"
    using points_next(1) [OF k(2)] by blast
  note last = points_next(2,3) [OF k(2)]
  let ?v = "next_stage x k' calls" and ?run = "xs @ (if calls = [] then [] else [(e, d', calls)]) @ ys"
  let ?c = "c\<lparr>at_world := w, running := ?run, at_sink := at_sink c @ (if x = Emit then [e] else [])\<rparr>"
  note keys = called_keys [OF g(4) [unfolded assms(3)]]
  have w: "w = snd (run_call (basket S) (io S) now e x (d, at_world c))" "d' = fst (run_call (basket S) (io S) now e x (d, at_world c))"
    using assms(4) by simp_all
  note v = run_call_views [OF B, of "io S" now e x d "at_world c", folded w]
  have has: "has S (at_world c) k e" using known_stands [OF keys(1) g(7)] k(1) by (simp add: stands_def)
  note after = call_has [OF assms(1) keys(1) has k(3) k'(1), of now, folded w]
  have "has S w (if x = Emit then only_tmp else only_target) e" if "calls = []"
    using after(1) has_memory [of S w False k' e] unfolding k'(3) [OF that] by simp
  then have stands: "stands S w ?v e" using after(1)
    by (cases "calls = []"; cases "x = Emit") (simp_all add: stands_def next_stage_def)
  have "x \<in> {Write_temp, Write_target} \<Longrightarrow> d = payload S e" using k'(1) k(3) by (auto split: if_splits)
  then have spares: "spares S (at_world c) w p" if "p \<in> set (parcels S)" "key_of p \<noteq> ?j" for p
    unfolding w by (rule call_spares [OF assms(1) keys(1) that])
  have "told_by S (at_world c) ?j \<noteq> Some DONE" using told_arrived [OF assms(2) keys(1)] k(1) by auto
  then have "told_by S w ?j = Some DONE \<Longrightarrow> x = Set_status DONE" by (cases x) (auto simp: told_by_def v)
  then have told: "told_by S w ?j = Some DONE \<Longrightarrow> ?v = Arrived" using last(2) by (auto simp: next_stage_def)
  have knows: "knows S (a(?j := ?v)) r" if "r \<in> set ?run" for r by (rule called_knows [OF assms(2,3) k'(2) after(2) that])
  have sink: "lists_keys S (map wire_of (at_sink ?c)) (keys_at (a(?j := ?v)) On_way)"
    using called_sink [OF g(3) keys(1) _ last(1)] k(1) by simp
  have "caller_fits (caller_of c ?j) ?v" using caller_moves [OF g(6) [of ?j]] k(1) by (simp add: next_stage_def)
  then have "staged S ?c (a(?j := ?v))"
    using g(1,2) k(1) keys(2) [of d' k'] knows sink told stands spares
    by (intro staged_move [OF assms(1,2) keys(1)]) (auto simp: move_keys(1,2) not_in_keys v next_stage_def split: call.splits)
  with k(1) keys(1) that show thesis by blast
qed

lemma staged_poll:
  assumes "proper S" "staged S c a" "p \<in> set (parcels S)" "caller_of c (key_of p) = Marked"
    and "m_get (st (basket S)) p (parsel_state (fst (at_world c))) = (True, v)" "status v = DONE"
  shows "staged S (c\<lparr>caller_of := (caller_of c)(key_of p := Seen_done)\<rparr>) a" (is "staged S ?c a")
proof -
  note g = stagedD [OF assms(2)] and M = basket_lawsD(4) [OF properD(1) [OF assms(1)]]
  let ?k = "key_of p"
  obtain u where "state_of (basket S) (fst (at_world c)) ?k = Some u"
    using map_get_found_iff [OF M, of p "parsel_state (fst (at_world c))"] assms(5) by (auto simp: state_of_def)
  moreover from this have "u = v" using map_get_found [OF M, of "parsel_state (fst (at_world c))" p u] assms(5) by (simp add: state_of_def)
  ultimately have "told_by S (at_world c) ?k = Some DONE" using assms(6) by (simp add: told_by_def)
  then have a: "a ?k = Arrived" by (rule g(8) [OF assms(3)])
  have known: "wire_of p \<in> known S" using assms(3) by (simp add: known_def)
  have "caller_fits Seen_done (a ?k)" using a by simp
  then have "staged S ?c (a(?k := a ?k))"
    using g(1-5) g(7) [OF assms(3)] g(8) [OF assms(3)]
    by (intro staged_move [OF assms(1,2) known]) (simp_all add: spares_def del: caller_fits.simps)
  then show ?thesis by simp
qed

lemma staged_erase:
  assumes "proper S" "staged S c a" "p \<in> set (parcels S)" "caller_of c (key_of p) = Seen_done"
    and "m_erase (st (basket S)) p (parsel_state (fst (at_world c))) = (r, t)"
  shows "staged S (c\<lparr>at_world := ((fst (at_world c))\<lparr>parsel_state := t\<rparr>, snd (at_world c)),
      caller_of := (caller_of c)(key_of p := Finished)\<rparr>) a" (is "staged S ?c a")
proof -
  note g = stagedD [OF assms(2)]
  let ?k = "key_of p" and ?s = "(fst (at_world c))\<lparr>parsel_state := t\<rparr>"
  have s: "?s = erased (basket S) p (fst (at_world c))" using assms(5) by (simp add: erased_def)
  note v = erased_views [OF properD(1) [OF assms(1)], of p "fst (at_world c)", folded s]
  have known: "wire_of p \<in> known S" using assms(3) by (simp add: known_def)
  have "stands S (?s, snd (at_world c)) (a ?k) p"
    by (rule spares_stands [OF spares_files g(7) [OF assms(3)]]) (simp_all add: v)
  moreover have "caller_fits Finished (a ?k)" using g(6) [of ?k] assms(4) by simp
  ultimately have "staged S ?c (a(?k := a ?k))"
    using g(1-5)
    by (intro staged_move [OF assms(1,2) known]) (simp_all add: v spares_def told_by_def del: caller_fits.simps)
  then show ?thesis by simp
qed


lemma step_staged:
  assumes "call_step S c c'" "proper S" "staged S c a"
  shows "\<exists>b. staged S c' b"
  using assms(1)
proof cases
  case (Put_data p d ok s)
  with staged_put [OF assms(2,3) Put_data(2-5)] show ?thesis by auto
next
  case (Push_parcel p ok q)
  with staged_push [OF assms(2,3) Push_parcel(2-4)] show ?thesis by blast
next
  case (Mark_parcel p now ok s)
  with staged_mark [OF assms(2,3) Mark_parcel(2-4)] show ?thesis by blast
next
  case (Pop_parcel srv e q)
  with staged_pop(3) [OF assms(2,3) Pop_parcel(2)] show ?thesis by blast
next
  case (Pop_nothing srv e q)
  with staged_pop_nothing [OF assms(2,3) Pop_nothing(2)] show ?thesis by blast
next
  case (Begin_source e calls)
  with staged_begin_source(3) [OF assms(2,3) Begin_source(2,3)] show ?thesis by blast
next
  case (Begin_sink e)
  with staged_begin_sink(3) [OF assms(2,3) Begin_sink(2)] show ?thesis by blast
next
  case (Call xs e d x calls ys now d' w)
  from staged_call [OF assms(2,3) Call(2,3)] Call(1) show ?thesis by blast
next
  case (Poll_done p v)
  with staged_poll [OF assms(2,3) Poll_done(2-5)] show ?thesis by blast
next
  case (Erase_state p r t)
  with staged_erase [OF assms(2,3) Erase_state(2-4)] show ?thesis by blast
qed

lemma run_staged:
  assumes "proper S" "call_start S c0" "(call_step S)\<^sup>*\<^sup>* c0 c"
  obtains a where "staged S c a"
proof -
  from assms(3) have "\<exists>a. staged S c a"
    by (induction rule: rtranclp_induct) (use call_starts [OF assms(2)] step_staged assms(1) in blast)+
  with that show thesis by blast
qed

section \<open>A call more or less\<close>

text \<open>The scripts are the tasks of theory \<open>Jobs\<close>, call by call.\<close>

lemma run_calls_source: "run_calls B IO now p source_calls w = write_source_parcel B IO now p w"
  by (cases w) (simp add: run_calls_def source_calls_def write_source_parcel_def Let_def)

lemma run_calls_direct: "run_calls B IO now p direct_calls w = iof_source_parcel B IO now p w"
  by (cases w) (simp add: run_calls_def direct_calls_def iof_source_parcel_def Let_def)

lemma run_calls_sink: "run_calls B IO now p sink_calls w = write_sink_Run B IO now p w"
proof -
  obtain s f where w: "w = (s, f)" by (cases w)
  show ?thesis unfolding w by (simp add: run_calls_def sink_calls_def write_sink_Run_def Let_def)
qed

text \<open>A task that nobody interrupts.\<close>

definition emitted :: "parcel \<Rightarrow> call list \<Rightarrow> parcel list" where
  "emitted e calls = concat (map (\<lambda>x. if x = Emit then [e] else []) calls)"

lemma uninterrupted:
  assumes "running c = xs @ (e, d, calls) # ys" "calls \<noteq> []"
  shows "(call_step S)\<^sup>*\<^sup>* c (c\<lparr>at_world := snd (fold (run_call (basket S) (io S) now e) calls (d, at_world c)),
    running := xs @ ys, at_sink := at_sink c @ emitted e calls\<rparr>)"
  using assms
proof (induction calls arbitrary: c d)
  case (Cons x calls)
  obtain d' w where r: "run_call (basket S) (io S) now e x (d, at_world c) = (d', w)"
    by (cases "run_call (basket S) (io S) now e x (d, at_world c)")
  let ?c = "c\<lparr>at_world := w, running := xs @ (if calls = [] then [] else [(e, d', calls)]) @ ys, at_sink := at_sink c @ (if x = Emit then [e] else [])\<rparr>"
  have step: "call_step S c ?c" using Call [of c xs e d x calls ys S now d' w] Cons.prems r by simp
  show ?case
  proof (cases "calls = []")
    case True
    then show ?thesis using step r by (simp add: emitted_def r_into_rtranclp)
  next
    case False
    with Cons.IH [of ?c d'] have
      "(call_step S)\<^sup>*\<^sup>* ?c (?c\<lparr>at_world := snd (fold (run_call (basket S) (io S) now e) calls (d', w)),
          running := xs @ ys, at_sink := at_sink ?c @ emitted e calls\<rparr>)"
      by simp
    with step r show ?thesis by (simp add: converse_rtranclp_into_rtranclp emitted_def)
  qed
qed simp

lemma source_run:
  assumes "e \<in> set (at_source c)" "calls \<in> {source_calls, direct_calls}"
  shows "(call_step S)\<^sup>*\<^sup>* c (c\<lparr>at_source := remove1 e (at_source c),
    at_world := run_calls (basket S) (io S) now e calls (at_world c), at_sink := at_sink c @ emitted e calls\<rparr>)"
proof -
  let ?b = "c\<lparr>at_source := remove1 e (at_source c), running := running c @ [(e, '''', calls)]\<rparr>"
  have "call_step S c ?b" by (rule Begin_source [OF assms])
  moreover have "calls \<noteq> []" using assms(2) by (auto simp: source_calls_def direct_calls_def)
  then have "(call_step S)\<^sup>*\<^sup>* ?b (?b\<lparr>at_world := snd (fold (run_call (basket S) (io S) now e) calls ('''', at_world ?b)),
      running := running c @ [], at_sink := at_sink ?b @ emitted e calls\<rparr>)"
    by (intro uninterrupted) simp
  ultimately show ?thesis by (simp add: run_calls_def converse_rtranclp_into_rtranclp)
qed

lemma sink_run:
  assumes "e \<in> set (at_sink c)"
  shows "(call_step S)\<^sup>*\<^sup>* c (c\<lparr>at_world := run_calls (basket S) (io S) now e sink_calls (at_world c), at_sink := remove1 e (at_sink c)\<rparr>)"
proof -
  let ?b = "c\<lparr>at_sink := remove1 e (at_sink c), running := running c @ [(e, '''', sink_calls)]\<rparr>"
  have "call_step S c ?b" by (rule Begin_sink [OF assms])
  moreover have "(call_step S)\<^sup>*\<^sup>* ?b (?b\<lparr>at_world := snd (fold (run_call (basket S) (io S) now e) sink_calls ('''', at_world ?b)),
      running := running c @ [], at_sink := at_sink ?b @ emitted e sink_calls\<rparr>)"
    by (rule uninterrupted) (simp_all add: sink_calls_def)
  moreover have "emitted e sink_calls = []" by (simp add: emitted_def sink_calls_def)
  ultimately show ?thesis by (simp add: run_calls_def converse_rtranclp_into_rtranclp)
qed

text \<open>The pop loop of a source task, pop by pop.\<close>

lemma pop_run:
  assumes "queue_laws (qu (basket S))" "amount > 0" "pop_loop (qu (basket S)) srv amount (write_queue (fst (at_world c))) ps = Some (es, q)"
  shows "\<exists>new. es = ps @ new \<and> (call_step S)\<^sup>*\<^sup>* c (c\<lparr>at_world := ((fst (at_world c))\<lparr>write_queue := q\<rparr>, snd (at_world c)), at_source := at_source c @ new\<rparr>)"
  using assms(3)
proof (induction "length (waiting (qu (basket S)) (write_queue (fst (at_world c))) srv)" arbitrary: c ps rule: less_induct)
  case less
  let ?wq = "write_queue (fst (at_world c))"
  obtain b e q' where pop: "q_pop (qu (basket S)) srv ?wq = ((b, e), q')" by (metis prod.exhaust)
  let ?c = "c\<lparr>at_world := ((fst (at_world c))\<lparr>write_queue := q'\<rparr>, snd (at_world c))\<rparr>"
  show ?case
  proof (cases b)
    case True
    let ?d = "?c\<lparr>at_source := at_source c @ [e]\<rparr>"
    obtain ws where w: "waiting (qu (basket S)) ?wq srv = wire_of e # ws" "waiting (qu (basket S)) q' = (waiting (qu (basket S)) ?wq)(srv := ws)"
      using popped_first [OF assms(1), of srv ?wq e q'] pop True by auto
    have "pop_loop (qu (basket S)) srv amount (write_queue (fst (at_world ?d))) (ps @ [e]) = Some (es, q)"
      using less.prems assms(2) pop True by (simp add: pop_loop.simps [of _ _ _ ?wq])
    with less.hyps [of ?d "ps @ [e]"] w obtain new where n: "es = (ps @ [e]) @ new"
      "(call_step S)\<^sup>*\<^sup>* ?d (?d\<lparr>at_world := ((fst (at_world ?d))\<lparr>write_queue := q\<rparr>, snd (at_world ?d)), at_source := at_source ?d @ new\<rparr>)"
      by auto
    have "call_step S c ?d" using Pop_parcel [of S srv c e q'] pop True by simp
    with n show ?thesis by (intro exI [of _ "e # new"]) (simp add: converse_rtranclp_into_rtranclp)
  next
    case False
    then have "es = ps" "q' = q" using less.prems assms(2) pop by (simp_all add: pop_loop.simps [of _ _ _ ?wq])
    moreover have "call_step S c ?c" using Pop_nothing [of S srv c e q'] pop False by simp
    ultimately show ?thesis by (intro exI [of _ "[]"]) (auto simp: r_into_rtranclp)
  qed
qed

section \<open>The steps of theory \<open>Broker\<close> are runs of calls\<close>

fun as_caller :: "client_pc \<Rightarrow> caller" where
  "as_caller Before = Idle_caller"
| "as_caller client_pc.Pushed = Push_made"
| "as_caller Refused = Gave_up"
| "as_caller Published = Marked"
| "as_caller Waited = Finished"

definition call_view :: "('w, 't, 'q, 'f) system \<Rightarrow> ('w, 't, 'q, 'f) calling" where
  "call_view sys = \<lparr>at_world = shared sys, at_source = popped sys, running = [], at_sink = in_flight sys,
     caller_of = as_caller \<circ> client sys\<rparr>"

lemma call_view_simps [simp]:
  "at_world (call_view sys) = shared sys" "at_source (call_view sys) = popped sys" "running (call_view sys) = []"
  "at_sink (call_view sys) = in_flight sys" "caller_of (call_view sys) k = as_caller (client sys k)"
  by (simp_all add: call_view_def)

lemma as_caller_upd: "(as_caller \<circ> client sys)(k := as_caller pc) = as_caller \<circ> (client sys)(k := pc)"
  by (simp add: fun_eq_iff)

lemma two_steps: "call_step S c c' \<Longrightarrow> call_step S c' c'' \<Longrightarrow> (call_step S)\<^sup>*\<^sup>* c c''"
  by (meson rtranclp.rtrancl_into_rtrancl r_into_rtranclp)

lemma publish_store_run:
  assumes "p \<in> set (parcels S)" "client sys (key_of p) = Before"
    and "publish_store (at_home S p) p (bytes S (key_of p)) (fst (shared sys)) = Inr (ok, s)"
  shows "(call_step S)\<^sup>*\<^sup>* (call_view sys) (call_view (sys\<lparr>shared := (s, snd (shared sys)),
    client := (client sys)(key_of p := (if ok then client_pc.Pushed else Refused))\<rparr>))"
proof -
  let ?k = "key_of p" and ?c = "call_view sys" and ?w = "snd (shared sys)"
  obtain d where d: "string_of_buffer (bytes S ?k) (unat (data_size p)) = Inr d"
    using assms(3) by (cases "string_of_buffer (bytes S ?k) (unat (data_size p))") (auto simp: publish_store_def)
  obtain put s1 where put: "PutData (at_home S p) p d (fst (shared sys)) = (put, s1)" by (cases "PutData (at_home S p) p d (fst (shared sys))")
  let ?b = "?c\<lparr>at_world := (s1, ?w), caller_of := (caller_of ?c)(?k := (if put then Put_made else Gave_up))\<rparr>"
  have first: "call_step S ?c ?b"
    using Put_data [of p S ?c d put s1] assms(1,2) d put by simp
  show ?thesis
  proof (cases put)
    case False
    with assms(3) d put have "\<not> ok" "s = s1" by (simp_all add: publish_store_def)
    with False first show ?thesis by (simp add: call_view_def fun_eq_iff r_into_rtranclp flip: as_caller_upd)
  next
    case True
    obtain q where q: "q_push (qu (at_home S p)) p (my_server (at_home S p)) (write_queue s1) = (ok, q)" "s = s1\<lparr>write_queue := q\<rparr>"
      using assms(3) d put True by (auto simp: publish_store_def split: prod.splits)
    have "call_step S ?b (?b\<lparr>at_world := (s, ?w), caller_of := (caller_of ?b)(?k := (if ok then Push_made else Gave_up))\<rparr>)"
      using Push_parcel [of p S ?b ok q] assms(1) True q by simp
    from two_steps [OF first this] True show ?thesis by (cases ok) (simp_all add: call_view_def flip: as_caller_upd)
  qed
qed

lemma taken_run:
  assumes "basket_laws (basket S)" "GetWriteParsel (basket S) srv (fst (shared sys)) = Some (es, s)"
  shows "(call_step S)\<^sup>*\<^sup>* (call_view sys) (call_view (sys\<lparr>shared := (s, snd (shared sys)), popped := popped sys @ es\<rparr>))"
proof -
  let ?Q = "qu (basket S)" and ?wq = "write_queue (fst (shared sys))"
  let ?n = "amount_of (q_size ?Q srv ?wq)"
  obtain q where q: "pop_loop ?Q srv ?n ?wq [] = Some (es, q)" "s = (fst (shared sys))\<lparr>write_queue := q\<rparr>"
    using assms(2) by (auto simp: GetWriteParsel_def)
  show ?thesis
  proof (cases "?n > 0")
    case True
    from pop_run [OF basket_lawsD(5) [OF assms(1)] True, of srv "call_view sys" "[]" es q] q show ?thesis
      by (simp add: call_view_def)
  next
    case False
    with q have "es = []" "q = ?wq" by (simp_all add: pop_loop.simps)
    with q(2) show ?thesis by (simp add: call_view_def)
  qed
qed

lemma collected_run:
  assumes "proper S" "p \<in> set (parcels S)" "client sys (key_of p) = Published" "Wait (basket S) (\<lambda>n s. s) p (fst (shared sys)) = Some (v, n, s)"
  shows "(call_step S)\<^sup>*\<^sup>* (call_view sys) (call_view (sys\<lparr>shared := (s, snd (shared sys)), client := (client sys)(key_of p := Waited)\<rparr>))"
proof -
  note B = properD(1) [OF assms(1)] and w = Wait_quiet [OF properD(1) [OF assms(1)] assms(4)]
  let ?k = "key_of p" and ?t = "parsel_state (fst (shared sys))"
  obtain u where u: "state_of (basket S) (fst (shared sys)) ?k = Some u" "status u = DONE" using w(1) by auto
  then have get: "m_get (st (basket S)) p ?t = (True, u)" using map_get_found [OF basket_lawsD(4) [OF B]] by (simp add: state_of_def)
  obtain r t where er: "m_erase (st (basket S)) p ?t = (r, t)" by (cases "m_erase (st (basket S)) p ?t")
  let ?b = "(call_view sys)\<lparr>caller_of := (caller_of (call_view sys))(?k := Seen_done)\<rparr>"
  have poll: "call_step S (call_view sys) ?b" using Poll_done [of p S "call_view sys" u] assms(2,3) get u(2) by simp
  have "call_step S ?b (?b\<lparr>at_world := ((fst (shared sys))\<lparr>parsel_state := t\<rparr>, snd (shared sys)), caller_of := (caller_of ?b)(?k := Finished)\<rparr>)"
    using Erase_state [of p S ?b r t] assms(2) er by simp
  from two_steps [OF poll this] have "(call_step S)\<^sup>*\<^sup>* (call_view sys)
      (?b\<lparr>at_world := ((fst (shared sys))\<lparr>parsel_state := t\<rparr>, snd (shared sys)), caller_of := (caller_of ?b)(?k := Finished)\<rparr>)" .
  moreover have "s = (fst (shared sys))\<lparr>parsel_state := t\<rparr>" using w(2) er by (simp add: erased_def)
  ultimately show ?thesis by (simp add: call_view_def flip: as_caller_upd)
qed

lemma broker_step_run:
  assumes "broker_step S sys sys'" "proper S"
  shows "(call_step S)\<^sup>*\<^sup>* (call_view sys) (call_view sys')"
  using assms(1)
proof cases
  case (Push p s)
  with publish_store_run [OF Push(2-4)] show ?thesis by simp
next
  case (Refuse p s)
  with publish_store_run [OF Refuse(2-4)] show ?thesis by simp
next
  case (Mark p now ok s)
  have "call_step S (call_view sys) ((call_view sys)\<lparr>at_world := (s, snd (shared sys)), caller_of := (caller_of (call_view sys))(key_of p := Marked)\<rparr>)"
    using Mark_parcel [of p S "call_view sys" now ok s] Mark by simp
  with Mark(1) show ?thesis by (simp add: call_view_def r_into_rtranclp flip: as_caller_upd)
next
  case (Take srv es s)
  with taken_run [OF properD(1) [OF assms(2)] Take(2)] show ?thesis by simp
next
  case (Save e now)
  have "emitted e source_calls = [e]" by (simp add: emitted_def source_calls_def)
  with source_run [of e "call_view sys" source_calls S now] Save show ?thesis
    by (simp add: run_calls_source) (simp add: call_view_def)
next
  case (Store e now)
  with sink_run [of e "call_view sys" S now] show ?thesis by (simp add: run_calls_sink) (simp add: call_view_def)
next
  case (Direct e now)
  have "emitted e direct_calls = []" by (simp add: emitted_def direct_calls_def)
  with source_run [of e "call_view sys" direct_calls S now] Direct show ?thesis
    by (simp add: run_calls_direct) (simp add: call_view_def)
next
  case (Collect p v n s)
  with collected_run [OF assms(2) Collect(2-4)] show ?thesis by simp
qed

section \<open>The tasks alone\<close>

text \<open>A step of a task that does something; a pop that finds nothing does not count.\<close>

definition call_job :: "('w, 't, 'q, 'f) setting \<Rightarrow> ('w, 't, 'q, 'f) calling \<Rightarrow> ('w, 't, 'q, 'f) calling \<Rightarrow> bool" where
  "call_job S c c' = (call_step S c c' \<and> caller_of c' = caller_of c
     \<and> (at_source c', running c', at_sink c') \<noteq> (at_source c, running c, at_sink c))"

text \<open>The steps a parcel has before it.\<close>

fun to_go :: "stage \<Rightarrow> nat" where
  "to_go In_line = 12"
| "to_go Popped = 11"
| "to_go (Busy k calls) = length calls + (if Emit \<in> set calls then 5 else 0)"
| "to_go On_way = 5"
| "to_go v = 0"

lemma to_go_less:
  assumes "wire_of e \<in> known S" "to_go v < to_go (a (key_of e))"
  shows "sum_over S (to_go \<circ> a(key_of e := v)) < sum_over S (to_go \<circ> a)"
proof -
  obtain p where p: "p \<in> set (parcels S)" "wire_of p = wire_of e" using known_parcel [OF assms(1)] .
  show ?thesis
    by (rule sum_over_less [OF _ p(1)]) (use assms(2) in \<open>auto simp: wire_congs [OF p(2)]\<close>)
qed

lemma caller_changes: "(f(k := x)) = f \<Longrightarrow> f k = x"
  by (metis fun_upd_same)

lemma job_staged:
  assumes "call_job S c c'" "proper S" "staged S c a"
  shows "\<exists>b. staged S c' b \<and> sum_over S (to_go \<circ> b) < sum_over S (to_go \<circ> a)"
proof -
  have same: "caller_of c' = caller_of c" and moved: "(at_source c', running c', at_sink c') \<noteq> (at_source c, running c, at_sink c)"
    and step: "call_step S c c'" using assms(1) by (simp_all add: call_job_def)
  from step show ?thesis
  proof cases
    case (Pop_parcel srv e q)
    note s = staged_pop [OF assms(2,3) Pop_parcel(2)]
    from to_go_less [OF s(2), of Popped a] s(1,3) Pop_parcel(1) show ?thesis by auto
  next
    case (Begin_source e calls)
    note s = staged_begin_source [OF assms(2,3) Begin_source(2,3)]
    have "to_go (Busy only_store calls) < 11" using Begin_source(3) by (auto simp: source_calls_def direct_calls_def)
    with to_go_less [OF s(2), of "Busy only_store calls" a] s(1,3) Begin_source(1) show ?thesis by auto
  next
    case (Begin_sink e)
    note s = staged_begin_sink [OF assms(2,3) Begin_sink(2)]
    from to_go_less [OF s(2), of "Busy only_tmp sink_calls" a] s(1,3) Begin_sink(1) show ?thesis by (auto simp: sink_calls_def)
  next
    case (Call xs e d x calls ys now d' w)
    obtain k k' where s: "a (key_of e) = Busy k (x # calls)" "wire_of e \<in> known S"
      "staged S c' (a(key_of e := next_stage x k' calls))"
      using staged_call [OF assms(2,3) Call(2,3)] Call(1) by metis
    have "to_go (next_stage x k' calls) < to_go (Busy k (x # calls))" by (auto simp: next_stage_def)
    with to_go_less [OF s(2), of "next_stage x k' calls" a] s(1,3) show ?thesis by auto
  qed (use same moved in \<open>auto dest!: caller_changes split: if_splits\<close>)
qed

interpretation call_jobs: working "call_job S" "\<lambda>c a. proper S \<and> staged S c a" "\<lambda>a. sum_over S (to_go \<circ> a)" caller_of for S
  by unfold_locales (use job_staged in blast, simp add: call_job_def)

lemma source_calls_most: "calls \<noteq> [] \<Longrightarrow> (k, calls) \<in> set all_points \<Longrightarrow> to_go (Busy k calls) \<le> 12"
  by (auto simp: points_defs)

lemma staged_bound:
  assumes "staged S c a"
  shows "sum_over S (to_go \<circ> a) \<le> 12 * length (parcels S)"
proof (intro sum_over_bound)
  fix k
  show "(to_go \<circ> a) k \<le> 12"
  proof (cases "a k")
    case (Busy u calls)
    then have "k \<in> busy_keys a" by (auto simp: busy_keys_def)
    then have "k \<in> key_of_wire ` set (map (wire_of \<circ> fst) (running c))" using stagedD(4) [OF assms] by (auto simp: lists_keys_def)
    then obtain e d cs where r: "(e, d, cs) \<in> set (running c)" "key_of e = k" by auto
    from stagedD(5) [OF assms r(1)] r(2) Busy have "(u, calls) \<in> set all_points" by (auto simp: knows_def)
    with source_calls_most points_calls Busy show ?thesis by simp
  qed simp_all
qed

lemma call_jobI:
  assumes "call_step S c c'" "caller_of c' = caller_of c" "running c' \<noteq> running c \<or> at_source c' \<noteq> at_source c"
  shows "call_job S c c'"
  using assms by (auto simp: call_job_def)

lemma tasks_idle:
  assumes "\<nexists>c'. call_job S c c'" "proper S" "staged S c a"
  shows "a k \<in> {Nowhere, Put_in, Arrived}"
proof -
  note g = stagedD [OF assms(3)]
  have "at_source c = []"
  proof (rule ccontr)
    assume "at_source c \<noteq> []"
    then obtain e where "e \<in> set (at_source c)" by (cases "at_source c") auto
    from call_jobI [OF Begin_source [OF this, of source_calls S]] assms(1) show False by simp
  qed
  moreover have "at_sink c = []"
  proof (rule ccontr)
    assume "at_sink c \<noteq> []"
    then obtain e where "e \<in> set (at_sink c)" by (cases "at_sink c") auto
    from call_jobI [OF Begin_sink [OF this, of S]] assms(1) show False by simp
  qed
  moreover have "running c = []"
  proof (rule ccontr)
    assume "running c \<noteq> []"
    then obtain e d cs ys where r: "running c = (e, d, cs) # ys" by (metis list.exhaust prod.exhaust)
    from g(5) [of "(e, d, cs)"] r have "cs \<noteq> []" using points_calls by (auto simp: knows_def)
    then obtain x calls where cs: "cs = x # calls" by (cases cs) auto
    obtain d' w where "run_call (basket S) (io S) undefined e x (d, at_world c) = (d', w)"
      by (cases "run_call (basket S) (io S) undefined e x (d, at_world c)")
    from call_jobI [OF Call [of c "[]" e d x calls ys S undefined d' w]] this r cs assms(1) show False by (cases "calls = []") simp_all
  qed
  moreover have "a k \<noteq> In_line"
  proof
    assume "a k = In_line"
    then have "k \<in> queue_keys S a (home S k)" by (simp add: queue_keys_def)
    then have "queue_keys S a (home S k) \<noteq> {}" by blast
    with g(1) [of "home S k"] obtain w ws where "to_write (basket S) (fst (at_world c)) (home S k) = w # ws"
      by (cases "to_write (basket S) (fst (at_world c)) (home S k)") auto
    then obtain e q where "q_pop (qu (basket S)) (home S k) (write_queue (fst (at_world c))) = ((True, e), q)"
      using queue_pop_first [OF basket_lawsD(5) [OF properD(1) [OF assms(2)]]] by (metis to_write_def)
    from call_jobI [OF Pop_parcel [OF this]] assms(1) show False by simp
  qed
  ultimately have "k \<notin> keys_at a Popped" "k \<notin> keys_at a On_way" "k \<notin> busy_keys a" "a k \<noteq> In_line"
    using g(2-4) by simp_all
  then show ?thesis by (cases "a k") (auto simp: keys_at_def busy_keys_def)
qed

section \<open>A run to the point where only a task has the bytes\<close>

definition first_calling where "first_calling = call_view run_start"

definition with_sink where "with_sink = call_view run_saved"

definition sink_at where
  "sink_at w d calls = \<lparr>at_world = w, at_source = [], running = [(first_parcel, d, calls)], at_sink = [],
     caller_of = as_caller \<circ> client run_saved\<rparr>"

definition "sink_begun = sink_at (shared run_saved) '''' sink_calls"
definition "sink_read = sink_at (shared run_saved) ''abcd'' [Remove_temp, Write_target, Set_status DONE]"

definition sink_removed where
  "sink_removed = sink_at (snd (run_call local_basket memory_io 9 first_parcel Remove_temp (''abcd'', shared run_saved)))
     ''abcd'' [Write_target, Set_status DONE]"

lemmas sink_defs = sink_removed_def sink_read_def sink_begun_def with_sink_def sink_at_def

lemma calling_starts: "call_start two_clients first_calling"
  using run_starts by (simp add: call_start_def broker_start_def first_calling_def fun_eq_iff)

lemma broker_run_calls:
  assumes "(broker_step S)\<^sup>*\<^sup>* sys sys'" "proper S"
  shows "(call_step S)\<^sup>*\<^sup>* (call_view sys) (call_view sys')"
  using assms(1) by (induction rule: rtranclp_induct) (use broker_step_run assms(2) rtranclp_trans in fast)+

lemma with_sink_reached: "(call_step two_clients)\<^sup>*\<^sup>* first_calling with_sink"
proof -
  have "(broker_step two_clients)\<^sup>*\<^sup>* run_start run_saved"
    using rtranclp.rtrancl_into_rtrancl [OF run_reaches(2)] job_step_is_step [OF run_save] by blast
  from broker_run_calls [OF this two_clients_proper] show ?thesis by (simp add: first_calling_def with_sink_def)
qed

lemma stored_reached: "(call_step two_clients)\<^sup>*\<^sup>* first_calling (call_view run_stored)"
  using broker_run_calls [OF run_reaches(3) two_clients_proper] by (simp add: first_calling_def)

lemma sink_begins: "call_step two_clients with_sink sink_begun"
  using Begin_sink [of first_parcel with_sink two_clients]
  by (simp add: sink_defs run_saved_def run_taken_def run_pushed_def run_start_def call_view_def)

lemma sink_reads: "call_step two_clients sink_begun sink_read"
proof -
  have "in_temp local_basket memory_io (snd (shared run_saved)) first_parcel ''abcd''"
    by (simp add: run_defs write_source_parcel_def GetData_def Let_def in_temp_def memory_io_def temp_file_def local_basket_def
        fun_map_def splice_def slice_def old_content_def first_parcel_def sample_parcel_def temp_suffix_def)
  then have "fst (run_call local_basket memory_io 8 first_parcel Read_temp ('''', shared run_saved)) = ''abcd''"
    using read_temp_data [of two_clients "shared run_saved" first_parcel "''abcd''" 8 "''''"] memory_io_laws by simp
  moreover have "snd (run_call local_basket memory_io 8 first_parcel Read_temp ('''', shared run_saved)) = shared run_saved"
    by (cases "shared run_saved") simp
  ultimately have r: "run_call local_basket memory_io 8 first_parcel Read_temp ('''', shared run_saved) = (''abcd'', shared run_saved)"
    by (metis prod.collapse)
  show ?thesis
    using Call [of sink_begun "[]" first_parcel "''''" Read_temp "[Remove_temp, Write_target, Set_status DONE]" "[]" two_clients 8 "''abcd''" "shared run_saved"] r
    by (simp add: sink_defs sink_calls_def)
qed

lemma sink_removes: "call_step two_clients sink_read sink_removed"
proof -
  have "fst (run_call local_basket memory_io 9 first_parcel Remove_temp (''abcd'', shared run_saved)) = ''abcd''"
    by (cases "shared run_saved") simp
  then have r: "run_call local_basket memory_io 9 first_parcel Remove_temp (''abcd'', shared run_saved)
      = (''abcd'', snd (run_call local_basket memory_io 9 first_parcel Remove_temp (''abcd'', shared run_saved)))"
    by (metis prod.collapse)
  show ?thesis
    using Call [of sink_read "[]" first_parcel "''abcd''" Remove_temp "[Write_target, Set_status DONE]" "[]" two_clients 9 "''abcd''"
        "snd (run_call local_basket memory_io 9 first_parcel Remove_temp (''abcd'', shared run_saved))"] r
    by (simp add: sink_defs sink_calls_def)
qed

lemma removed_reached: "(call_step two_clients)\<^sup>*\<^sup>* first_calling sink_removed"
  by (rule rtranclp.rtrancl_into_rtrancl [OF rtranclp.rtrancl_into_rtrancl
      [OF rtranclp.rtrancl_into_rtrancl [OF with_sink_reached sink_begins] sink_reads] sink_removes])


text \<open>The data of a running task, and the stage of a busy parcel.\<close>

lemma running_data:
  assumes "proper S" "staged S c a" "p \<in> set (parcels S)" "(e, d, calls) \<in> set (running c)" "key_of e = key_of p"
    and "a (key_of p) = Busy k cs" "in_memory k"
  shows "d = payload S p"
proof -
  have "e \<in> set (map fst (running c))" using assms(4) by force
  then have "wire_of e \<in> known S"
    using lists_keys_member(1) [of S "map fst (running c)"] stagedD(4) [OF assms(2)] by (simp add: comp_def)
  then have "wire_of p = wire_of e" by (rule same_parcel [OF proper_distinct [OF assms(1)] assms(3)]) (simp add: assms(5))
  from payload_wire [OF this, of S] stagedD(5) [OF assms(2,4)] assms(5-7) show ?thesis by (auto simp: knows_def)
qed

lemma busy_window:
  assumes "staged S c a" "a j = Busy k calls"
  shows "in_store k \<or> in_tmp k \<or> in_target k \<or> (\<exists>e d. (e, d, [Write_target, Set_status DONE]) \<in> set (running c) \<and> key_of e = j)"
proof -
  have "j \<in> busy_keys a" using assms(2) unfolding busy_keys_def by blast
  then have "j \<in> key_of_wire ` set (map (wire_of \<circ> fst) (running c))" using stagedD(4) [OF assms(1)] unfolding lists_keys_def by blast
  then obtain e d cs where r: "(e, d, cs) \<in> set (running c)" "key_of e = j" by auto
  from stagedD(5) [OF assms(1) r(1)] r(2) assms(2) have "cs = calls" "(k, calls) \<in> set all_points" by (auto simp: knows_def)
  with points_window(1) r show ?thesis by blast
qed



text \<open>The scripts are the tasks of theory \<open>Jobs\<close>, run without interruption.\<close>

lemmas scripts_are_tasks = run_calls_source run_calls_direct run_calls_sink

section \<open>Properties\<close>



text \<open>
  C4. The order of the calls keeps the promise of \<open>DONE\<close>: however the calls of all clients and tasks interleave, when
  the state of a parcel says DONE, or its client has seen that in \<open>Wait\<close>, its bytes are in its file, no longer in the
  warehouse, and the temporary file is gone.
\<close>

theorem done_after_all_calls:
  assumes "proper S" "call_start S c0" "(call_step S)\<^sup>*\<^sup>* c0 c" "p \<in> set (parcels S)"
    and "told_by S (at_world c) (key_of p) = Some DONE \<or> caller_of c (key_of p) \<in> {Seen_done, Finished}"
  shows "in_file (io S) (snd (at_world c)) p (take (unat (data_size p)) (bytes S (key_of p)))
    \<and> data_of (basket S) (fst (at_world c)) (key_of p) = None
    \<and> files (io S) (snd (at_world c)) (temp_file (basket S) (io S) p) = None"
proof -
  obtain a where a: "staged S c a" using run_staged [OF assms(1-3)] .
  note g = stagedD [OF a]
  have "a (key_of p) = Arrived" using g(8) [OF assms(4)] g(6) [of "key_of p"] assms(5) by auto
  with g(7) [OF assms(4)] show ?thesis by (simp add: stands_def has_def only_target_def payload_def)
qed

theorem done_after_all_calls_witness:
  "in_file memory_io (snd (at_world (call_view run_stored))) first_parcel ''abcd''"
proof -
  have "told_by two_clients (at_world (call_view run_stored)) (key_of first_parcel) = Some DONE"
    using run_stored_done by (simp add: told_by_def told_status_def)
  moreover have "unat (data_size first_parcel) = 4" "two_data (key_of first_parcel) = ''abcd''"
    by (simp_all add: first_parcel_def sample_parcel_def two_data_def key_of_def)
  ultimately show ?thesis
    using done_after_all_calls [OF two_clients_proper calling_starts stored_reached, of first_parcel] by simp
qed

text \<open>
  C5. Where the bytes of an accepted parcel are between any two calls: in the warehouse, in its temporary file or in its file,
  except while a sink task has removed the temporary file and not yet written the target. Then no container and no
  storage client holds them, only the task's memory: a task that dies there loses the parcel.
\<close>

theorem only_copy_in_memory:
  assumes "proper S" "call_start S c0" "(call_step S)\<^sup>*\<^sup>* c0 c" "p \<in> set (parcels S)"
    and "caller_of c (key_of p) \<notin> {Idle_caller, Gave_up}"
  shows "if \<exists>e d. (e, d, [Write_target, Set_status DONE]) \<in> set (running c) \<and> key_of e = key_of p
    then data_of (basket S) (fst (at_world c)) (key_of p) = None
      \<and> files (io S) (snd (at_world c)) (temp_file (basket S) (io S) p) = None
      \<and> (\<forall>e d calls. (e, d, calls) \<in> set (running c) \<and> key_of e = key_of p \<longrightarrow> d = payload S p)
    else data_of (basket S) (fst (at_world c)) (key_of p) = Some (payload S p)
      \<or> in_temp (basket S) (io S) (snd (at_world c)) p (payload S p)
      \<or> in_file (io S) (snd (at_world c)) p (payload S p)"
proof -
  obtain a where a: "staged S c a" using run_staged [OF assms(1-3)] .
  note g = stagedD [OF a]
  let ?j = "key_of p"
  let ?window = "\<exists>e d. (e, d, [Write_target, Set_status DONE]) \<in> set (running c) \<and> key_of e = ?j"
  have there: "a ?j \<noteq> Nowhere" using g(6) [of ?j] assms(5) by (cases "caller_of c ?j") auto
  note stands = g(7) [OF assms(4)]
  show ?thesis
  proof (cases ?window)
    case True
    then obtain e d where r: "(e, d, [Write_target, Set_status DONE]) \<in> set (running c)" "key_of e = ?j" by blast
    obtain k where k: "a ?j = Busy k [Write_target, Set_status DONE]" "(k, [Write_target, Set_status DONE]) \<in> set all_points"
      using busy_point [OF a r(1)] r(2) by metis
    have "d' = payload S p" if "(e', d', calls) \<in> set (running c)" "key_of e' = ?j" for e' d' calls
      using running_data [OF assms(1) a assms(4) that] k points_window(2) [OF k(2)] by simp
    with True k stands points_window(1) [OF k(2)] show ?thesis by (auto simp: stands_def has_def)
  next
    case False
    have "in_store k \<or> in_tmp k \<or> in_target k" if "a ?j = Busy k calls" for k calls
      using busy_window [OF a that] False by metis
    with False there stands show ?thesis
      by (cases "a ?j") (auto simp: stands_def has_def only_store_def only_tmp_def only_target_def)
  qed
qed

theorem only_copy_in_memory_witness:
  "data_of local_basket (fst (at_world sink_removed)) (key_of first_parcel) = None
    \<and> files memory_io (snd (at_world sink_removed)) (temp_file local_basket memory_io first_parcel) = None"
proof -
  have r: "running sink_removed = [(first_parcel, ''abcd'', [Write_target, Set_status DONE])]" by (simp add: sink_defs)
  have "caller_of sink_removed (key_of first_parcel) = Push_made" by (simp add: sink_defs run_defs)
  with only_copy_in_memory [OF two_clients_proper calling_starts removed_reached, of first_parcel] r show ?thesis by simp
qed

text \<open>
  C10. The calls come to an end: whatever the clients did before, the tasks make at most twelve steps for each parcel (its
  pop, the begins of its tasks and their calls), in any interleaving; when no such step is left, every parcel that was
  pushed is in its file, and nowhere else.
\<close>

theorem calls_run_dry:
  assumes "proper S" "call_start S c0" "(call_step S)\<^sup>*\<^sup>* c0 c" "(call_job S ^^ n) c c'"
  shows "n \<le> 12 * length (parcels S)
    \<and> ((\<nexists>c''. call_job S c' c'') \<longrightarrow>
         (\<forall>p \<in> set (parcels S). caller_of c (key_of p) \<notin> {Idle_caller, Put_made, Gave_up} \<longrightarrow> has S (at_world c') only_target p))"
proof -
  obtain a where a: "staged S c a" using run_staged [OF assms(1-3)] .
  obtain b where b: "staged S c' b" "sum_over S (to_go \<circ> b) + n \<le> sum_over S (to_go \<circ> a)" "caller_of c' = caller_of c"
    using call_jobs.jobs_work [OF assms(4)] assms(1) a by blast
  have "n \<le> 12 * length (parcels S)" using b(2) staged_bound [OF a] by simp
  moreover have "has S (at_world c') only_target p"
    if "\<nexists>c''. call_job S c' c''" "p \<in> set (parcels S)" "caller_of c (key_of p) \<notin> {Idle_caller, Put_made, Gave_up}" for p
  proof -
    note g = stagedD [OF b(1)]
    have "b (key_of p) \<notin> {Nowhere, Put_in}" using g(6) [of "key_of p"] that(3) by (cases "caller_of c (key_of p)") (auto simp: b(3))
    then have "b (key_of p) = Arrived" using tasks_idle [OF that(1) assms(1) b(1), of "key_of p"] by simp
    with g(7) [OF that(2)] show ?thesis by (simp add: stands_def)
  qed
  ultimately show ?thesis by blast
qed

theorem calls_run_dry_witness:
  "(\<nexists>c. call_job two_clients (call_view run_stored) c) \<and> has two_clients (at_world (call_view run_stored)) only_target first_parcel"
proof -
  have empty: "write_queue (fst (shared run_stored)) = (\<lambda>_. [])"
    by (simp add: run_defs write_sink_Run_def write_source_parcel_def Let_def case_prod_beta UpdateParcelStatus_def
        DeleteData_def local_store_def)
  have "\<not> call_job two_clients (call_view run_stored) c" for c
  proof
    assume j: "call_job two_clients (call_view run_stored) c"
    then have "call_step two_clients (call_view run_stored) c" by (simp add: call_job_def)
    then show False
    proof cases
      case (Pop_parcel srv e q)
      then show False by (simp add: empty local_basket_def list_queue_def)
    qed (use j in \<open>auto simp: call_job_def run_stored_def run_saved_def dest!: caller_changes split: if_splits\<close>)
  qed
  moreover have "caller_of (call_view run_stored) (key_of first_parcel) = Push_made" by (simp add: run_defs)
  moreover have "(call_job two_clients ^^ 0) (call_view run_stored) (call_view run_stored)" by simp
  note calls_run_dry [OF two_clients_proper calling_starts stored_reached this]
  ultimately show ?thesis by auto
qed

end
