(* ===== verification/Reader.thy ===== *)
theory Reader
  imports Broker
begin

text \<open>
  The read path with all of its processes at once: subscribers that ask for parcels and fetch them by polling or
  after \<open>Wait\<close>, and the source and sink tasks of the read job, in any order. The steps are the operations of
  \<open>rhea.cpp\<close> and \<open>rhea_job.h\<close>. The files do not change meanwhile, and each parcel is asked for once. The
  specification is the life of a request.
\<close>

section \<open>The system\<close>

datatype ask_pc = Not_asked | Turned_away | Asked | Served string | Failed

record ('w, 't, 'q, 'f) reading =
  r_world :: "('w, 't, 'q, 'f) world"
  r_popped :: "parcel list"
  r_flight :: "parcel list"
  asked :: "parcel_key \<Rightarrow> ask_pc"

inductive reader_step :: "('w, 't, 'q, 'f) setting \<Rightarrow> ('w, 't, 'q, 'f) reading \<Rightarrow> ('w, 't, 'q, 'f) reading \<Rightarrow> bool"
  for S where
  Ask: "\<lbrakk>p \<in> set (parcels S); asked r (key_of p) = Not_asked;
      AsyncSubscribe (at_home S p) p (fst (r_world r)) = (True, s)\<rbrakk>
    \<Longrightarrow> reader_step S r (r\<lparr>r_world := (s, snd (r_world r)), asked := (asked r)(key_of p := Asked)\<rparr>)"
| Deny: "\<lbrakk>p \<in> set (parcels S); asked r (key_of p) = Not_asked;
      AsyncSubscribe (at_home S p) p (fst (r_world r)) = (False, s)\<rbrakk>
    \<Longrightarrow> reader_step S r (r\<lparr>r_world := (s, snd (r_world r)), asked := (asked r)(key_of p := Turned_away)\<rparr>)"
| Pick: "\<lbrakk>GetReadParsel (basket S) srv (fst (r_world r)) = Some (es, s)\<rbrakk>
    \<Longrightarrow> reader_step S r (r\<lparr>r_world := (s, snd (r_world r)), r_popped := r_popped r @ es\<rparr>)"
| Announce: "\<lbrakk>e \<in> set (r_popped r)\<rbrakk>
    \<Longrightarrow> reader_step S r (r\<lparr>r_world := read_source_parcel (basket S) now e (r_world r),
          r_popped := remove1 e (r_popped r), r_flight := r_flight r @ [e]\<rparr>)"
| Answer: "\<lbrakk>e \<in> set (r_flight r)\<rbrakk>
    \<Longrightarrow> reader_step S r (r\<lparr>r_world := read_sink_Run (basket S) (io S) now e (r_world r), r_flight := remove1 e (r_flight r)\<rparr>)"
| Poll: "\<lbrakk>p \<in> set (parcels S); asked r (key_of p) = Asked;
      GetSubscribedData (basket S) p buf (fst (r_world r)) = Inr (True, buf', s)\<rbrakk>
    \<Longrightarrow> reader_step S r (r\<lparr>r_world := (s, snd (r_world r)), asked := (asked r)(key_of p := Served buf')\<rparr>)"
| Await: "\<lbrakk>p \<in> set (parcels S); asked r (key_of p) = Asked;
      Wait (basket S) (\<lambda>n s. s) p (fst (r_world r)) = Some (v, n, s1);
      GetSubscribedData (basket S) p buf s1 = Inr (ok, buf', s)\<rbrakk>
    \<Longrightarrow> reader_step S r (r\<lparr>r_world := (s, snd (r_world r)),
          asked := (asked r)(key_of p := (if ok then Served buf' else Failed))\<rparr>)"

text \<open>The files hold the bytes of the parcels; nothing is asked for, and nothing is left over from before.\<close>

definition reader_start :: "('w, 't, 'q, 'f) setting \<Rightarrow> ('w, 't, 'q, 'f) reading \<Rightarrow> bool" where
  "reader_start S r =
     (r_popped r = [] \<and> r_flight r = [] \<and> asked r = (\<lambda>_. Not_asked)
      \<and> to_read (basket S) (fst (r_world r)) = (\<lambda>_. [])
      \<and> (\<forall>p \<in> set (parcels S). in_file (io S) (snd (r_world r)) p (payload S p)
           \<and> data_of (basket S) (fst (r_world r)) (key_of p) = None
           \<and> state_of (basket S) (fst (r_world r)) (key_of p) = None))"

definition readable :: "('w, 't, 'q, 'f) setting \<Rightarrow> bool" where
  "readable S = (basket_laws (basket S) \<and> io_laws (io S) \<and> distinct (map key_of (parcels S)))"

section \<open>The specification: the life of a request\<close>

datatype request = Idle | Denied | Waiting | Picked | Moving | Ready | Got string

fun asks :: "request \<Rightarrow> ask_pc" where
  "asks Idle = Not_asked"
| "asks Denied = Turned_away"
| "asks (Got b) = Served b"
| "asks _ = Asked"

inductive request_step :: "(parcel_key \<Rightarrow> request) \<Rightarrow> (parcel_key \<Rightarrow> request) \<Rightarrow> bool" where
  Asking: "a k = Idle \<Longrightarrow> request_step a (a(k := Waiting))"
| Denying: "a k = Idle \<Longrightarrow> request_step a (a(k := Denied))"
| Picking: "(\<forall>k \<in> K. a k = Waiting) \<Longrightarrow> request_step a (\<lambda>k. if k \<in> K then Picked else a k)"
| Announcing: "a k = Picked \<Longrightarrow> request_step a (a(k := Moving))"
| Answering: "a k = Moving \<Longrightarrow> request_step a (a(k := Ready))"
| Getting: "a k = Ready \<Longrightarrow> request_step a (a(k := Got b))"

text \<open>What the state of the parcel can say, and what the caller's buffer holds.\<close>

fun told :: "request \<Rightarrow> task_status option \<Rightarrow> bool" where
  "told Moving t = (t = Some IN_PROGRESS)"
| "told Ready t = (t = Some DONE)"
| "told (Got b) t = True"
| "told _ t = (t = None)"

definition delivered :: "('w, 't, 'q, 'f) setting \<Rightarrow> parcel \<Rightarrow> string \<Rightarrow> bool" where
  "delivered S p b = (let c = cs_of (basket S) (payload S p) in length c \<le> length b \<and> take (length c) b = c)"

definition serves :: "('w, 't, 'q, 'f) setting \<Rightarrow> ('w, 't, 'q, 'f) world \<Rightarrow> request \<Rightarrow> parcel \<Rightarrow> bool" where
  "serves S w q p =
     ((q \<in> {Idle, Denied} \<or> in_file (io S) (snd w) p (payload S p))
      \<and> data_of (basket S) (fst w) (key_of p) = (if q = Ready then Some (payload S p) else None)
      \<and> told q (map_option status (state_of (basket S) (fst w) (key_of p)))
      \<and> (\<forall>b. q = Got b \<longrightarrow> delivered S p b))"

definition follows :: "('w, 't, 'q, 'f) setting \<Rightarrow> ('w, 't, 'q, 'f) reading \<Rightarrow> (parcel_key \<Rightarrow> request) \<Rightarrow> bool" where
  "follows S r a =
     (asked r = asks \<circ> a
      \<and> (\<forall>srv. lists_keys S (to_read (basket S) (fst (r_world r)) srv) {k. a k = Waiting \<and> home S k = srv})
      \<and> lists_keys S (map wire_of (r_popped r)) {k. a k = Picked}
      \<and> lists_keys S (map wire_of (r_flight r)) {k. a k = Moving}
      \<and> (\<forall>p \<in> set (parcels S). serves S (r_world r) (a (key_of p)) p))"

lemma followsD:
  assumes "follows S r a"
  shows "asked r = asks \<circ> a"
    "lists_keys S (to_read (basket S) (fst (r_world r)) srv) {k. a k = Waiting \<and> home S k = srv}"
    "lists_keys S (map wire_of (r_popped r)) {k. a k = Picked}"
    "lists_keys S (map wire_of (r_flight r)) {k. a k = Moving}"
    "p \<in> set (parcels S) \<Longrightarrow> serves S (r_world r) (a (key_of p)) p"
  using assms by (auto simp: follows_def)

lemma readableD:
  assumes "readable S"
  shows "basket_laws (basket S)" "io_laws (io S)" "distinct (map key_of (parcels S))" "basket_laws (at_home S p)"
  using assms by (auto simp: readable_def at_home_def basket_laws_def)

lemma asks_simps:
  "asks q = Not_asked \<longleftrightarrow> q = Idle" "asks q = Asked \<longleftrightarrow> q \<in> {Waiting, Picked, Moving, Ready}"
  "asks q = Turned_away \<longleftrightarrow> q = Denied" "asks q \<noteq> Failed" "asks q = Served b \<longleftrightarrow> q = Got b"
  by (cases q; auto)+

text \<open>The keys of one stage when one parcel moves on.\<close>

lemma stage_upd: "{k. (a(j := q)) k = v} = (if q = v then insert j {k. a k = v} else {k. a k = v} - {j})"
  by auto

lemma serves_frame:
  assumes "serves S w q p" "snd w' = snd w"
    "data_of (basket S) (fst w') (key_of p) = data_of (basket S) (fst w) (key_of p)"
    "state_of (basket S) (fst w') (key_of p) = state_of (basket S) (fst w) (key_of p)"
  shows "serves S w' q p"
  using assms by (simp add: serves_def)

definition stocked :: "('w, 't, 'q, 'f) setting \<Rightarrow> ('w, 't, 'q, 'f) reading \<Rightarrow> parcel \<Rightarrow> bool" where
  "stocked S r p = in_file (io S) (snd (r_world r)) p (payload S p)"

lemma serves_wire: "wire_of p = wire_of q \<Longrightarrow> serves S w x p = serves S w x q"
  by (simp add: serves_def delivered_def payload_wire [of p q] wire_congs [of p q])

lemma asked_effect:
  assumes "basket_laws B" "AsyncSubscribe B p s = (ok, s')"
  shows "data_of B s' = data_of B s" "state_of B s' = state_of B s"
    "to_read B s' = (if ok then (to_read B s)(my_server B := to_read B s (my_server B) @ [wire_of p]) else to_read B s)"
  using assms(2) queue_push_waiting [OF basket_lawsD(5) [OF assms(1)], of p "my_server B" "read_queue s"]
  by (auto simp: AsyncSubscribe_def view_defs split: prod.splits)

lemma fetched_effect:
  assumes "basket_laws B" "GetSubscribedData B p buf s = Inr (ok, buf', s')"
  shows "ok \<longleftrightarrow> data_of B s (key_of p) \<noteq> None" "state_of B s' = state_of B s" "to_read B s' = to_read B s"
    "data_of B s' = (data_of B s)(key_of p := None)"
    "data_of B s (key_of p) = Some d \<Longrightarrow> length (cs_of B d) \<le> length buf' \<and> take (length (cs_of B d)) buf' = cs_of B d"
proof -
  note M = basket_lawsD(3) [OF assms(1)]
  show ok: "ok \<longleftrightarrow> data_of B s (key_of p) \<noteq> None"
    using assms(2) map_get_found_iff [OF M, of p "warehouse s"]
    by (auto simp: GetSubscribedData_def view_defs memcpy_into_def Let_def split: if_splits)
  from assms(2) show "state_of B s' = state_of B s" "to_read B s' = to_read B s"
    by (auto simp: GetSubscribedData_def view_defs memcpy_into_def Let_def split: if_splits)
  show "data_of B s' = (data_of B s)(key_of p := None)"
    using assms(2) ok map_erase_contents [OF M]
    by (auto simp: GetSubscribedData_def view_defs memcpy_into_def Let_def fun_upd_idem split: if_splits)
  show "length (cs_of B d) \<le> length buf' \<and> take (length (cs_of B d)) buf' = cs_of B d" if "data_of B s (key_of p) = Some d"
    using assms(2) map_get_found [OF M, of "warehouse s" p d] that
    by (auto simp: GetSubscribedData_def view_defs memcpy_into_def Let_def split: if_splits)
qed

section \<open>Every step of the system is a step in the life of a request\<close>

lemma others_serve:
  assumes "\<And>q. q \<in> set (parcels S) \<Longrightarrow> serves S w (a (key_of q)) q" "readable S" "wire_of e \<in> known S"
    and "snd w' = snd w" "\<And>k. k \<noteq> key_of e \<Longrightarrow> data_of (basket S) (fst w') k = data_of (basket S) (fst w) k
      \<and> state_of (basket S) (fst w') k = state_of (basket S) (fst w) k"
    and "serves S w' x e" "q \<in> set (parcels S)"
  shows "serves S w' ((a(key_of e := x)) (key_of q)) q"
proof (cases "key_of q = key_of e")
  case True
  have "wire_of q = wire_of e" by (rule same_parcel [OF readableD(3) [OF assms(2)] assms(7,3) True])
  with assms(6) True show ?thesis by (simp add: serves_wire [OF \<open>wire_of q = wire_of e\<close>])
next
  case False
  have "serves S w' (a (key_of q)) q"
    by (rule serves_frame [OF assms(1) [OF assms(7)] assms(4)]) (simp_all add: assms(5) [OF False])
  with False show ?thesis by simp
qed

lemma waiting_kept:
  fixes S :: "('w, 't, 'q, 'f) setting"
  assumes "a j \<noteq> Waiting" "x \<noteq> Waiting"
  shows "{k. (a(j := x)) k = Waiting \<and> home S k = srv} = {k. a k = Waiting \<and> home S k = srv}"
  using assms by auto

lemma follow_ask:
  assumes "readable S" "follows S r a" "p \<in> set (parcels S)" "asked r (key_of p) = Not_asked"
    and "AsyncSubscribe (at_home S p) p (fst (r_world r)) = (ok, s)" "ok \<Longrightarrow> stocked S r p"
  shows "a (key_of p) = Idle" "follows S (r\<lparr>r_world := (s, snd (r_world r)),
      asked := (asked r)(key_of p := (if ok then Asked else Turned_away))\<rparr>) (a(key_of p := (if ok then Waiting else Denied)))"
    (is "follows S ?r ?a")
proof -
  note f = followsD [OF assms(2)]
  let ?k = "key_of p"
  show idle: "a ?k = Idle" using assms(4) by (simp add: f(1) asks_simps)
  note eff = asked_effect [OF readableD(4) [OF assms(1)] assms(5), unfolded at_home_views]
  have known: "wire_of p \<in> known S" using assms(3) by (simp add: known_def)
  have "lists_keys S (to_read (basket S) s srv) {k. ?a k = Waiting \<and> home S k = srv}" for srv
  proof (cases "ok \<and> srv = home S ?k")
    case True
    then have "{k. ?a k = Waiting \<and> home S k = srv} = insert ?k {k. a k = Waiting \<and> home S k = srv}" by auto
    moreover have "to_read (basket S) s srv = to_read (basket S) (fst (r_world r)) srv @ [wire_of p]"
      using True by (simp add: eff(3))
    moreover have "lists_keys S (to_read (basket S) (fst (r_world r)) srv @ [wire_of p])
        (insert ?k {k. a k = Waiting \<and> home S k = srv})"
      by (rule lists_keys_snoc [OF f(2) known]) (simp add: idle)
    ultimately show ?thesis by (simp only:)
  next
    case False
    then have "{k. ?a k = Waiting \<and> home S k = srv} = {k. a k = Waiting \<and> home S k = srv}" using idle by auto
    with f(2) [of srv] False show ?thesis by (auto simp: eff(3))
  qed
  moreover have "{k. ?a k = Picked} = {k. a k = Picked}" "{k. ?a k = Moving} = {k. a k = Moving}" using idle by auto
  moreover have "asked ?r = asks \<circ> ?a" by (simp add: f(1) fun_eq_iff)
  moreover have "serves S (s, snd (r_world r)) (?a (key_of q)) q" if "q \<in> set (parcels S)" for q
  proof (rule others_serve [OF f(5) assms(1) known _ _ _ that])
    show "serves S (s, snd (r_world r)) (if ok then Waiting else Denied) p"
      using f(5) [OF assms(3)] idle assms(6) by (simp add: serves_def stocked_def eff(1,2))
  qed (simp_all add: eff(1,2))
  ultimately show "follows S ?r ?a"
    using f(3,4) by (simp add: follows_def del: fun_upd_apply)
qed

lemma follow_pick:
  assumes "readable S" "follows S r a" "GetReadParsel (basket S) srv (fst (r_world r)) = Some (es, s)"
  shows "follows S (r\<lparr>r_world := (s, snd (r_world r)), r_popped := r_popped r @ es\<rparr>)
    (\<lambda>k. if k \<in> {k. a k = Waiting \<and> home S k = srv} then Picked else a k)" (is "follows S ?r ?a")
proof -
  note f = followsD [OF assms(2)]
  let ?K = "{k. a k = Waiting \<and> home S k = srv}"
  have es: "map wire_of es = to_read (basket S) (fst (r_world r)) srv"
    and eff: "to_read (basket S) s = (to_read (basket S) (fst (r_world r)))(srv := [])"
      "data_of (basket S) s = data_of (basket S) (fst (r_world r))" "state_of (basket S) s = state_of (basket S) (fst (r_world r))"
    using read_parcels_taken [OF readableD(1) [OF assms(1)], of srv "fst (r_world r)"] assms(3) by auto
  have "lists_keys S (to_read (basket S) s srv') {k. ?a k = Waiting \<and> home S k = srv'}" for srv'
  proof (cases "srv' = srv")
    case False
    then have "{k. ?a k = Waiting \<and> home S k = srv'} = {k. a k = Waiting \<and> home S k = srv'}" by auto
    with f(2) [of srv'] False show ?thesis by (simp add: eff)
  qed (simp add: eff)
  moreover have "lists_keys S (map wire_of (r_popped r) @ map wire_of es) ({k. a k = Picked} \<union> ?K)"
    using f(2) [of srv] by (intro lists_keys_append [OF f(3)]) (auto simp: es)
  moreover have "{k. a k = Picked} \<union> ?K = {k. ?a k = Picked}" "{k. a k = Moving} = {k. ?a k = Moving}" by auto
  moreover have "serves S (s, snd (r_world r)) (?a (key_of q)) q" if "q \<in> set (parcels S)" for q
    using serves_frame [OF f(5) [OF that], of "(s, snd (r_world r))"] by (auto simp: eff serves_def)
  moreover have "asks \<circ> ?a = asks \<circ> a" by (auto simp: fun_eq_iff)
  ultimately show ?thesis
    using f(1,4) by (simp add: follows_def)
qed

lemma follow_announce:
  assumes "readable S" "follows S r a" "e \<in> set (r_popped r)"
  shows "a (key_of e) = Picked" "follows S (r\<lparr>r_world := read_source_parcel (basket S) now e (r_world r),
      r_popped := remove1 e (r_popped r), r_flight := r_flight r @ [e]\<rparr>) (a(key_of e := Moving))" (is "follows S ?r ?a")
proof -
  note f = followsD [OF assms(2)]
  let ?k = "key_of e" and ?w = "read_source_parcel (basket S) now e (r_world r)"
  note e = lists_keys_member [OF f(3) assms(3)]
  then show picked: "a ?k = Picked" by simp
  have eff: "snd ?w = snd (r_world r)" "data_of (basket S) (fst ?w) = data_of (basket S) (fst (r_world r))"
    "state_of (basket S) (fst ?w) = (state_of (basket S) (fst (r_world r)))(?k \<mapsto> ParcelState now IN_PROGRESS)"
    "to_read (basket S) (fst ?w) = to_read (basket S) (fst (r_world r))"
    using readableD(1) [OF assms(1)] by (simp_all add: read_source_parcel_def)
  have lists: "lists_keys S (map wire_of (remove1 e (r_popped r))) {k. ?a k = Picked}"
    "lists_keys S (map wire_of (r_flight r @ [e])) {k. ?a k = Moving}"
    using lists_keys_remove [OF f(3) assms(3)] lists_keys_snoc [OF f(4) e(1)] picked
    unfolding stage_upd by simp_all
  obtain p where p: "p \<in> set (parcels S)" "wire_of p = wire_of e" using known_parcel [OF e(1)] .
  have "serves S (r_world r) Picked e" using f(5) [OF p(1)] picked by (simp add: serves_wire [OF p(2)] wire_congs [OF p(2)])
  then have "serves S ?w Moving e" by (simp add: serves_def eff(1-3))
  then have "serves S ?w (?a (key_of q)) q" if "q \<in> set (parcels S)" for q
    using others_serve [OF f(5) assms(1) e(1) eff(1) _ _ that] by (simp add: eff(2,3))
  moreover have "asked ?r = asks \<circ> ?a" using picked by (simp add: f(1) fun_eq_iff)
  ultimately show "follows S ?r ?a"
    using f(2) lists waiting_kept [of a ?k Moving S] picked by (simp add: follows_def eff(4) del: fun_upd_apply)
qed

lemma follow_answer:
  assumes "readable S" "follows S r a" "e \<in> set (r_flight r)"
  shows "a (key_of e) = Moving" "follows S (r\<lparr>r_world := read_sink_Run (basket S) (io S) now e (r_world r),
      r_flight := remove1 e (r_flight r)\<rparr>) (a(key_of e := Ready))" (is "follows S ?r ?a")
proof -
  note f = followsD [OF assms(2)]
  let ?k = "key_of e" and ?w = "read_sink_Run (basket S) (io S) now e (r_world r)"
  note e = lists_keys_member [OF f(4) assms(3)]
  then show moving: "a ?k = Moving" by simp
  obtain p where p: "p \<in> set (parcels S)" "wire_of p = wire_of e" using known_parcel [OF e(1)] .
  have s: "serves S (r_world r) Moving e" using f(5) [OF p(1)] moving by (simp add: serves_wire [OF p(2)] wire_congs [OF p(2)])
  then have "in_file (io S) (snd (r_world r)) e (payload S e)" by (simp add: serves_def)
  note eff = read_sink_effect [OF readableD(1,2) [OF assms(1)] this refl, where now = now]
  have lists: "lists_keys S (map wire_of (remove1 e (r_flight r))) {k. ?a k = Moving}"
    "lists_keys S (map wire_of (r_popped r)) {k. ?a k = Picked}"
    using lists_keys_remove [OF f(4) assms(3)] f(3) moving unfolding stage_upd by simp_all
  have "serves S ?w Ready e" using s by (simp add: serves_def eff)
  then have "serves S ?w (?a (key_of q)) q" if "q \<in> set (parcels S)" for q
    using others_serve [OF f(5) assms(1) e(1) eff(4) _ _ that] by (simp add: eff(1,2))
  moreover have "asked ?r = asks \<circ> ?a" using moving by (simp add: f(1) fun_eq_iff)
  ultimately show "follows S ?r ?a"
    using f(2) lists waiting_kept [of a ?k Ready S] moving by (simp add: follows_def eff(3) del: fun_upd_apply)
qed

text \<open>A fetch: by a poll, or after a wait that has removed the state.\<close>

lemma follow_fetch:
  assumes "readable S" "follows S r a" "p \<in> set (parcels S)" "a (key_of p) = Ready"
    and "GetSubscribedData (basket S) p buf s1 = Inr (ok, buf', s)"
    and s1: "data_of (basket S) s1 = data_of (basket S) (fst (r_world r))" "to_read (basket S) s1 = to_read (basket S) (fst (r_world r))"
      "\<And>k. k \<noteq> key_of p \<Longrightarrow> state_of (basket S) s1 k = state_of (basket S) (fst (r_world r)) k"
  shows "ok" "follows S (r\<lparr>r_world := (s, snd (r_world r)), asked := (asked r)(key_of p := Served buf')\<rparr>) (a(key_of p := Got buf'))"
    (is "follows S ?r ?a")
proof -
  note f = followsD [OF assms(2)]
  let ?k = "key_of p"
  have s: "serves S (r_world r) Ready p" using f(5) [OF assms(3)] assms(4) by simp
  then have d: "data_of (basket S) s1 ?k = Some (payload S p)" by (simp add: serves_def s1)
  note eff = fetched_effect [OF readableD(1) [OF assms(1)] assms(5)]
  show ok using eff(1) d by simp
  have known: "wire_of p \<in> known S" using assms(3) by (simp add: known_def)
  have "serves S (s, snd (r_world r)) (Got buf') p"
    using s eff(5) [OF d] by (simp add: serves_def eff(4) delivered_def Let_def)
  then have "serves S (s, snd (r_world r)) (?a (key_of q)) q" if "q \<in> set (parcels S)" for q
    using others_serve [OF f(5) assms(1) known _ _ _ that, of "(s, snd (r_world r))"] by (simp add: eff(2,4) s1)
  moreover have "{k. ?a k = Picked} = {k. a k = Picked}" "{k. ?a k = Moving} = {k. a k = Moving}"
    using assms(4) by auto
  moreover have "asked ?r = asks \<circ> ?a" by (simp add: f(1) fun_eq_iff)
  ultimately show "follows S ?r ?a"
    using f(2-4) waiting_kept [of a ?k "Got buf'" S] assms(4) by (simp add: follows_def eff(3) s1 del: fun_upd_apply)
qed

text \<open>A poll finds data only when the request is answered, and a wait in a quiet store returns only then.\<close>

lemma answered_only:
  assumes "readable S" "follows S r a" "p \<in> set (parcels S)" "asked r (key_of p) = Asked"
  shows "data_of (basket S) (fst (r_world r)) (key_of p) \<noteq> None \<Longrightarrow> a (key_of p) = Ready"
    "Wait (basket S) (\<lambda>n s. s) p (fst (r_world r)) \<noteq> None \<Longrightarrow> a (key_of p) = Ready"
proof -
  note s = followsD(5) [OF assms(2,3)]
  show "data_of (basket S) (fst (r_world r)) (key_of p) \<noteq> None \<Longrightarrow> a (key_of p) = Ready"
    using s by (auto simp: serves_def split: if_splits)
  assume "Wait (basket S) (\<lambda>n s. s) p (fst (r_world r)) \<noteq> None"
  then have "map_option status (state_of (basket S) (fst (r_world r)) (key_of p)) = Some DONE"
    using Wait_quiet(1) [OF readableD(1) [OF assms(1)]] by auto
  moreover have "asks (a (key_of p)) = Asked" using assms(4) by (simp add: followsD(1) [OF assms(2)])
  ultimately show "a (key_of p) = Ready" using s by (cases "a (key_of p)") (auto simp: serves_def)
qed

text \<open>Whoever asks must find the bytes in the file.\<close>

lemma reader_simulates:
  assumes "reader_step S r r'" "readable S" "follows S r a"
    and "\<And>p. p \<in> set (parcels S) \<Longrightarrow> asked r (key_of p) = Not_asked \<Longrightarrow> asked r' (key_of p) = Asked \<Longrightarrow> stocked S r p"
  shows "\<exists>b. request_step a b \<and> follows S r' b"
  using assms(1)
proof cases
  case (Ask p s)
  have "stocked S r p" using assms(4) [OF Ask(2,3)] Ask(1) by simp
  with Ask follow_ask [OF assms(2,3) Ask(2,3,4)] show ?thesis by (auto intro: Asking)
next
  case (Deny p s)
  with follow_ask [OF assms(2,3) Deny(2,3,4)] show ?thesis by (auto intro: Denying)
next
  case (Pick srv es s)
  with follow_pick [OF assms(2,3) Pick(2)] Picking [of "{k. a k = Waiting \<and> home S k = srv}" a] show ?thesis by blast
next
  case (Announce e now)
  with follow_announce [OF assms(2,3) Announce(2)] show ?thesis by (auto intro: Announcing)
next
  case (Answer e now)
  with follow_answer [OF assms(2,3) Answer(2)] show ?thesis by (auto intro: Answering)
next
  case (Poll p buf buf' s)
  have "data_of (basket S) (fst (r_world r)) (key_of p) \<noteq> None"
    using fetched_effect(1) [OF readableD(1) [OF assms(2)] Poll(4)] by simp
  then have ready: "a (key_of p) = Ready" by (rule answered_only(1) [OF assms(2,3) Poll(2,3)])
  from follow_fetch(2) [OF assms(2,3) Poll(2) ready Poll(4)] Poll(1) Getting [of a "key_of p" buf'] ready
  show ?thesis by auto
next
  case (Await p v n s1 buf ok buf' s)
  have ready: "a (key_of p) = Ready" using answered_only(2) [OF assms(2,3) Await(2,3)] Await(4) by simp
  have "s1 = erased (basket S) p (fst (r_world r))" by (rule Wait_quiet(2) [OF readableD(1) [OF assms(2)] Await(4)])
  then have "data_of (basket S) s1 = data_of (basket S) (fst (r_world r))" "to_read (basket S) s1 = to_read (basket S) (fst (r_world r))"
    "\<And>k. k \<noteq> key_of p \<Longrightarrow> state_of (basket S) s1 k = state_of (basket S) (fst (r_world r)) k"
    by (simp_all add: erased_views [OF readableD(1) [OF assms(2)]])
  from follow_fetch [OF assms(2,3) Await(2) ready Await(5) this] Await(1) Getting [of a "key_of p" buf'] ready
  show ?thesis by auto
qed

text \<open>The readers leave the files alone, so what is in them at the start stays there.\<close>

lemma reader_keeps_files: "reader_step S r r' \<Longrightarrow> snd (r_world r') = snd (r_world r)"
  by (induction rule: reader_step.induct) (simp_all add: read_source_parcel_def read_sink_Run_def Let_def case_prod_beta)

definition all_stocked :: "('w, 't, 'q, 'f) setting \<Rightarrow> ('w, 't, 'q, 'f) reading \<Rightarrow> bool" where
  "all_stocked S r = (\<forall>p \<in> set (parcels S). stocked S r p)"

lemma reader_keeps_stocked: "reader_step S r r' \<Longrightarrow> all_stocked S r \<Longrightarrow> all_stocked S r'"
  by (simp add: all_stocked_def stocked_def reader_keeps_files)

lemma reader_simulates_stocked:
  assumes "reader_step S r r'" "readable S \<and> all_stocked S r \<and> follows S r a"
  shows "\<exists>b. request_step a b \<and> readable S \<and> all_stocked S r' \<and> follows S r' b"
  using reader_simulates [OF assms(1), of a] reader_keeps_stocked [OF assms(1)] assms(2)
  by (simp add: all_stocked_def)

interpretation read_path: simulation "reader_step S" request_step "\<lambda>r a. readable S \<and> all_stocked S r \<and> follows S r a" for S
  by unfold_locales (rule reader_simulates_stocked)

lemma reader_tracked:
  assumes "(reader_step S)\<^sup>*\<^sup>* r0 r" "readable S" "reader_start S r0"
  obtains a where "request_step\<^sup>*\<^sup>* (\<lambda>_. Idle) a" "follows S r a"
proof -
  have "follows S r0 (\<lambda>_. Idle)" "all_stocked S r0"
    using assms(3) by (auto simp: follows_def reader_start_def serves_def fun_eq_iff all_stocked_def stocked_def)
  with read_path.run_simulated [OF assms(1)] assms(2) that show thesis by blast
qed

section \<open>The read job alone\<close>

inductive answer_step :: "('w, 't, 'q, 'f) setting \<Rightarrow> ('w, 't, 'q, 'f) reading \<Rightarrow> ('w, 't, 'q, 'f) reading \<Rightarrow> bool"
  for S where
  Pick_some: "\<lbrakk>GetReadParsel (basket S) srv (fst (r_world r)) = Some (es, s); es \<noteq> []\<rbrakk>
    \<Longrightarrow> answer_step S r (r\<lparr>r_world := (s, snd (r_world r)), r_popped := r_popped r @ es\<rparr>)"
| Announce_one: "\<lbrakk>e \<in> set (r_popped r)\<rbrakk>
    \<Longrightarrow> answer_step S r (r\<lparr>r_world := read_source_parcel (basket S) now e (r_world r),
          r_popped := remove1 e (r_popped r), r_flight := r_flight r @ [e]\<rparr>)"
| Answer_one: "\<lbrakk>e \<in> set (r_flight r)\<rbrakk>
    \<Longrightarrow> answer_step S r (r\<lparr>r_world := read_sink_Run (basket S) (io S) now e (r_world r), r_flight := remove1 e (r_flight r)\<rparr>)"

lemma answer_step_is_step: "answer_step S r r' \<Longrightarrow> reader_step S r r' \<and> asked r' = asked r"
  by (induction rule: answer_step.induct) (auto intro: Pick Announce Answer)

fun to_answer :: "request \<Rightarrow> nat" where
  "to_answer Waiting = 3"
| "to_answer Picked = 2"
| "to_answer Moving = 1"
| "to_answer q = 0"

lemma answer_step_works:
  assumes "answer_step S r r'" "readable S" "follows S r a"
  shows "\<exists>b. follows S r' b \<and> sum_over S (to_answer \<circ> b) < sum_over S (to_answer \<circ> a)"
  using assms(1)
proof cases
  case (Pick_some srv es s)
  note f = followsD [OF assms(3)]
  let ?K = "{k. a k = Waiting \<and> home S k = srv}"
  have "map wire_of es = to_read (basket S) (fst (r_world r)) srv"
    using read_parcels_taken [OF readableD(1) [OF assms(2)], of srv "fst (r_world r)"] Pick_some by auto
  with f(2) [of srv] have K: "lists_keys S (map wire_of es) ?K" by simp
  from Pick_some(3) obtain e where e: "e \<in> set es" by (cases es) auto
  obtain p where p: "p \<in> set (parcels S)" "key_of p = key_of e" using known_key [OF K e] .
  have "key_of e \<in> ?K" using lists_keys_member(2) [OF K e] .
  then have "sum_over S (to_answer \<circ> (\<lambda>k. if k \<in> ?K then Picked else a k)) < sum_over S (to_answer \<circ> a)"
    by (intro sum_over_less [OF _ p(1)]) (auto simp: p(2))
  with follow_pick [OF assms(2,3) Pick_some(2)] Pick_some(1) show ?thesis by blast
next
  case (Announce_one e now)
  note f = followsD [OF assms(3)]
  obtain p where p: "p \<in> set (parcels S)" "key_of p = key_of e" using known_key [OF f(3) Announce_one(2)] .
  have "sum_over S (to_answer \<circ> a(key_of e := Moving)) < sum_over S (to_answer \<circ> a)"
    by (rule sum_over_less [OF _ p(1)]) (simp_all add: p(2) follow_announce(1) [OF assms(2,3) Announce_one(2)])
  with follow_announce(2) [OF assms(2,3) Announce_one(2), where now = now] Announce_one(1) show ?thesis by blast
next
  case (Answer_one e now)
  note f = followsD [OF assms(3)]
  obtain p where p: "p \<in> set (parcels S)" "key_of p = key_of e" using known_key [OF f(4) Answer_one(2)] .
  have "sum_over S (to_answer \<circ> a(key_of e := Ready)) < sum_over S (to_answer \<circ> a)"
    by (rule sum_over_less [OF _ p(1)]) (simp_all add: p(2) follow_answer(1) [OF assms(2,3) Answer_one(2)])
  with follow_answer(2) [OF assms(2,3) Answer_one(2), where now = now] Answer_one(1) show ?thesis by blast
qed

interpretation read_jobs: working "answer_step S" "\<lambda>r a. readable S \<and> follows S r a" "\<lambda>a. sum_over S (to_answer \<circ> a)" asked for S
  by unfold_locales (use answer_step_works answer_step_is_step in blast)+

lemma readers_idle:
  assumes "\<nexists>r'. answer_step S r r'" "readable S" "follows S r a"
  shows "a k \<notin> {Waiting, Picked, Moving}"
proof -
  note f = followsD [OF assms(3)]
  have "r_popped r = []" "r_flight r = []"
    using assms(1) Announce_one [of _ r S] Answer_one [of _ r S] by (metis list.set_intros(1) neq_Nil_conv)+
  then have "{k. a k = Picked} = {}" "{k. a k = Moving} = {}" using f(3,4) by simp_all
  then have "a k \<noteq> Picked" "a k \<noteq> Moving" by blast+
  moreover have "a k \<noteq> Waiting"
  proof -
    obtain es s where g: "GetReadParsel (basket S) (home S k) (fst (r_world r)) = Some (es, s)"
      "map wire_of es = to_read (basket S) (fst (r_world r)) (home S k)"
      using read_parcels_taken [OF readableD(1) [OF assms(2)], of "home S k" "fst (r_world r)"] by blast
    with assms(1) Pick_some [OF g(1)] have "es = []" by blast
    then have "{j. a j = Waiting \<and> home S j = home S k} = {}" using f(2) [of "home S k"] g(2) by simp
    then show ?thesis by blast
  qed
  ultimately show ?thesis by simp
qed

section \<open>A run\<close>

definition two_readers where
  "two_readers = two_clients\<lparr>home := (\<lambda>k. if snd k = 3 then 0 else 1)\<rparr>"

definition reading_start where
  "reading_start = \<lparr>r_world = (local_store, (\<lambda>_. Some ''abcdwxyz'') :: file_name \<Rightarrow> string option), r_popped = [], r_flight = [],
     asked = (\<lambda>_. Not_asked)\<rparr>"

definition reading_asked where
  "reading_asked = reading_start\<lparr>r_world := (local_store\<lparr>read_queue := (\<lambda>_. [])(0 := [first_parcel])\<rparr>, \<lambda>_. Some ''abcdwxyz''),
     asked := (\<lambda>_. Not_asked)(key_of first_parcel := Asked)\<rparr>"

definition reading_picked where
  "reading_picked = reading_asked\<lparr>r_world := (local_store, \<lambda>_. Some ''abcdwxyz''), r_popped := [first_parcel]\<rparr>"

definition reading_announced where
  "reading_announced = reading_picked\<lparr>r_world := read_source_parcel local_basket 5 first_parcel (r_world reading_picked),
     r_popped := [], r_flight := [first_parcel]\<rparr>"

definition reading_answered where
  "reading_answered = reading_announced\<lparr>r_world := read_sink_Run local_basket memory_io 6 first_parcel (r_world reading_announced),
     r_flight := []\<rparr>"

lemmas reading_defs = reading_answered_def reading_announced_def reading_picked_def reading_asked_def reading_start_def

lemma two_readers_simps [simp]:
  "basket two_readers = local_basket" "io two_readers = memory_io" "parcels two_readers = two_parcels"
  "home two_readers k = (if snd k = 3 then 0 else 1)" "bytes two_readers = two_data"
  by (simp_all add: two_readers_def two_clients_def)

lemma two_readers_readable: "readable two_readers"
  using local_basket_laws memory_io_laws two_parcels_fit(1) by (simp add: readable_def all_apart_def)

lemma reading_starts: "reader_start two_readers reading_start"
  by (simp add: reader_start_def reading_start_def local_store_def fun_eq_iff two_parcels_def in_file_def memory_io_def
      slice_def sample_parcel_def two_data_def key_of_def payload_def)

lemma reading_ask: "reader_step two_readers reading_start reading_asked"
proof -
  have h: "home two_readers (key_of first_parcel) = 0" by (simp add: first_parcel_def sample_parcel_def key_of_def)
  have "AsyncSubscribe (at_home two_readers first_parcel) first_parcel (fst (r_world reading_start))
      = (True, local_store\<lparr>read_queue := (\<lambda>_. [])(0 := [first_parcel])\<rparr>)"
    using h by (simp add: AsyncSubscribe_def at_home_def local_basket_def list_queue_def reading_start_def local_store_def
        strip_parcel_def first_parcel_def sample_parcel_def)
  moreover have "asked reading_start (key_of first_parcel) = Not_asked" by (simp add: reading_start_def)
  ultimately show ?thesis
    using Ask [of first_parcel two_readers reading_start] by (simp add: reading_defs)
qed

lemma reading_pick: "answer_step two_readers reading_asked reading_picked"
proof -
  have "GetReadParsel local_basket 0 (fst (r_world reading_asked)) = Some ([first_parcel], local_store)"
    by (simp add: GetReadParsel_def amount_of_def local_basket_def list_queue_def reading_defs local_store_def
        pop_loop.simps fun_upd_idem)
  then show ?thesis
    using Pick_some [of two_readers 0 reading_asked "[first_parcel]" local_store] by (simp add: reading_defs)
qed

lemma reading_announce: "answer_step two_readers reading_picked reading_announced"
  using Announce_one [of first_parcel reading_picked two_readers 5]
  by (simp add: reading_announced_def reading_picked_def reading_asked_def reading_start_def)

lemma reading_answer: "answer_step two_readers reading_announced reading_answered"
  using Answer_one [of first_parcel reading_announced two_readers 6] by (simp add: reading_answered_def reading_announced_def)

lemma reading_reaches:
  "(reader_step two_readers)\<^sup>*\<^sup>* reading_start reading_asked" "(reader_step two_readers)\<^sup>*\<^sup>* reading_start reading_answered"
proof -
  note step = rtranclp.rtrancl_into_rtrancl [where r = "reader_step two_readers"]
  show a: "(reader_step two_readers)\<^sup>*\<^sup>* reading_start reading_asked" using reading_ask by blast
  then have "(reader_step two_readers)\<^sup>*\<^sup>* reading_start reading_picked" using step answer_step_is_step [OF reading_pick] by blast
  then have "(reader_step two_readers)\<^sup>*\<^sup>* reading_start reading_announced" using step answer_step_is_step [OF reading_announce] by blast
  then show "(reader_step two_readers)\<^sup>*\<^sup>* reading_start reading_answered" using step answer_step_is_step [OF reading_answer] by blast
qed

section \<open>A subscriber and the answer to it\<close>

text \<open>
  The three calls by which the read job answers the request for one parcel: its source task marks the parcel
  IN_PROGRESS, its sink task puts the bytes it has read from the file and marks the parcel DONE.
  \<open>answering a b\<close> are the calls from the \<open>a\<close>-th on, before the \<open>b\<close>-th.
\<close>

definition answer_calls ::
  "('w, 't, 'q) basket \<Rightarrow> 'f io_ops \<Rightarrow> int \<Rightarrow> parcel \<Rightarrow> 'f \<Rightarrow> ('w, 't, 'q) others list" where
  "answer_calls B IO now p f =
     [\<lambda>s. snd (UpdateParcelStatus B now p IN_PROGRESS s),
      \<lambda>s. snd (PutData B p (io_read IO (io_client IO (storage_index p)) p
            (p\<lparr>buffer := replicate (unat (data_size p)) (CHR 0x00)\<rparr>) f) s),
      \<lambda>s. snd (UpdateParcelStatus B now p DONE s)]"

definition answering ::
  "('w, 't, 'q) basket \<Rightarrow> 'f io_ops \<Rightarrow> int \<Rightarrow> parcel \<Rightarrow> 'f \<Rightarrow> nat \<Rightarrow> nat \<Rightarrow> ('w, 't, 'q) others" where
  "answering B IO now p f a b s = fold (\<lambda>call s. call s) (drop a (take b (answer_calls B IO now p f))) s"

lemma answering_tasks:
  "answering B IO now p f 0 1 s = fst (read_source_parcel B now p (s, f))"
  "answering B IO now p f 1 3 s = fst (read_sink_Run B IO now p (s, f))"
  by (simp_all add: answering_def answer_calls_def read_source_parcel_def read_sink_Run_def Let_def numeral_eq_Suc)

lemma answering_nothing [simp]: "answering B IO now p f a a s = s"
  by (simp add: answering_def)

lemma answering_views:
  assumes "basket_laws B" "io_laws IO" "in_file IO f p d" "a \<le> b" "b \<le> 3"
  shows "data_of B (answering B IO now p f a b s) = (if a \<le> 1 \<and> 2 \<le> b then (data_of B s)(key_of p \<mapsto> d) else data_of B s)"
    "state_of B (answering B IO now p f a b s) =
       (if a \<le> 2 \<and> b = 3 then (state_of B s)(key_of p \<mapsto> ParcelState now DONE)
        else if a = 0 \<and> 1 \<le> b then (state_of B s)(key_of p \<mapsto> ParcelState now IN_PROGRESS) else state_of B s)"
proof -
  let ?buf = "p\<lparr>buffer := replicate (unat (data_size p)) (CHR 0x00)\<rparr>"
  from assms(3) obtain c where "files IO f (target_file IO p) = Some c"
    "unat (position p) + unat (data_size p) \<le> length c" "slice c (unat (position p)) (unat (data_size p)) = d"
    by (auto simp: in_file_def split: option.splits)
  then have r: "io_read IO (io_client IO (storage_index p)) p ?buf f = d"
    using io_read_buffer [OF assms(2), of f "io_client IO (storage_index p)" p c ?buf] by (simp add: target_file_def)
  have "(a, b) \<in> {(0, 0), (0, 1), (0, 2), (0, 3), (1, 1), (1, 2), (1, 3), (2, 2), (2, 3), (3, 3)}"
    using assms(4,5) by (cases a; cases b) auto
  then show "data_of B (answering B IO now p f a b s) = (if a \<le> 1 \<and> 2 \<le> b then (data_of B s)(key_of p \<mapsto> d) else data_of B s)"
    "state_of B (answering B IO now p f a b s) =
       (if a \<le> 2 \<and> b = 3 then (state_of B s)(key_of p \<mapsto> ParcelState now DONE)
        else if a = 0 \<and> 1 \<le> b then (state_of B s)(key_of p \<mapsto> ParcelState now IN_PROGRESS) else state_of B s)"
    using assms(1) by (auto simp: answering_def answer_calls_def r numeral_eq_Suc)
qed

lemma drop_take_join: "a \<le> b \<Longrightarrow> drop a xs = drop a (take b xs) @ drop b xs"
proof (induction xs arbitrary: a b)
  case (Cons x xs)
  then show ?case by (cases a; cases b) simp_all
qed simp

lemma answering_join:
  assumes "a \<le> b" "b \<le> c"
  shows "answering B IO now p f b c (answering B IO now p f a b s) = answering B IO now p f a c s"
proof -
  let ?cs = "answer_calls B IO now p f"
  let ?ys = "take c ?cs"
  have "drop a ?ys = drop a (take b ?ys) @ drop b ?ys" using assms(1) by (rule drop_take_join)
  also have "take b ?ys = take b ?cs" using assms(2) by (simp add: min_absorb1)
  finally have "drop a (take b ?cs) @ drop b (take c ?cs) = drop a (take c ?cs)" by simp
  then show ?thesis by (simp add: answering_def fold_append [symmetric, THEN fun_cong, simplified comp_def])
qed

lemma polled_answering:
  assumes "mono n" "a \<le> n m"
  shows "polled (\<lambda>k. answering B IO now p f (n k) (n (Suc k))) m k (answering B IO now p f a (n m) s) = answering B IO now p f a (n (m + k)) s"
  using assms(2)
proof (induction k arbitrary: m)
  case (Suc k)
  have "n m \<le> n (Suc m)" by (rule monoD [OF assms(1)]) simp
  with Suc.IH [of "Suc m"] Suc.prems show ?case by (simp add: answering_join)
qed simp

text \<open>A caller who gets the published bytes; a buffer that is too short for them is overrun.\<close>

definition receives :: "('w, 't, 'q, 'f) setting \<Rightarrow> parcel \<Rightarrow> string \<Rightarrow> (bool \<times> string \<times> ('w, 't, 'q) store) result option \<Rightarrow> bool" where
  "receives S p buf r =
     (let text = cs_of (basket S) (payload S p)
      in if length text \<le> length buf then \<exists>s. r = Some (Inr (True, text @ drop (length text) buf, s)) else r = Some (Inl Out_of_bounds))"

lemma asked_parcel:
  assumes "proper S" "broker_start S s0" "(broker_step S)\<^sup>*\<^sup>* s0 sys" "p \<in> set (parcels S)" "told_status S sys (key_of p) = Some DONE"
  obtains u where "state_of (basket S) (snd (AsyncSubscribe (basket S) p (fst (shared sys)))) (key_of p) = Some u" "status u = DONE"
    "data_of (basket S) (snd (AsyncSubscribe (basket S) p (fst (shared sys)))) (key_of p) = None"
    "in_file (io S) (snd (shared sys)) p (payload S p)"
proof -
  obtain a where a: "tracks S sys a" using run_tracked [OF assms(1-3)] by blast
  have "place a (key_of p) = In_file" using done_place [OF a assms(4,5)] .
  then have "data_of (basket S) (fst (shared sys)) (key_of p) = None" "in_file (io S) (snd (shared sys)) p (payload S p)"
    using tracksD(6) [OF a assms(4)] by (simp_all add: held_def)
  moreover obtain u where "state_of (basket S) (fst (shared sys)) (key_of p) = Some u" "status u = DONE"
    using assms(5) by (auto simp: told_status_def)
  ultimately show thesis
    using that asked_effect(1,2) [OF properD(1) [OF assms(1)], of p "fst (shared sys)"] by (metis prod.collapse)
qed

section \<open>Properties\<close>



text \<open>
  Every request is answered: whatever was asked for, the tasks of the read job make at most three steps for
  each parcel, and when none is left, every subscriber that was accepted and not yet served finds its parcel
  DONE and its bytes in the warehouse.
\<close>

theorem requests_answered:
  assumes "readable S" "reader_start S r0" "(reader_step S)\<^sup>*\<^sup>* r0 r" "(answer_step S ^^ n) r r'"
  shows "n \<le> 3 * length (parcels S)
    \<and> ((\<nexists>r''. answer_step S r' r'') \<longrightarrow>
         (\<forall>p \<in> set (parcels S). asked r (key_of p) = Asked \<longrightarrow>
            data_of (basket S) (fst (r_world r')) (key_of p) = Some (payload S p)
            \<and> map_option status (state_of (basket S) (fst (r_world r')) (key_of p)) = Some DONE))"
proof -
  obtain a where a: "follows S r a" using reader_tracked [OF assms(3,1,2)] .
  obtain b where b: "follows S r' b" "sum_over S (to_answer \<circ> b) + n \<le> sum_over S (to_answer \<circ> a)" "asked r' = asked r"
    using read_jobs.jobs_work [OF assms(4)] assms(1) a by blast
  have "to_answer q \<le> 3" for q by (cases q) simp_all
  then have "sum_over S (to_answer \<circ> a) \<le> 3 * length (parcels S)" by (intro sum_over_bound) simp
  then have "n \<le> 3 * length (parcels S)" using b(2) by simp
  moreover have "serves S (r_world r') Ready p"
    if "\<nexists>r''. answer_step S r' r''" "p \<in> set (parcels S)" "asked r (key_of p) = Asked" for p
  proof -
    have "asked r' (key_of p) = Asked" using that(3) b(3) by simp
    then have "asks (b (key_of p)) = Asked" by (simp add: followsD(1) [OF b(1)])
    with readers_idle [OF that(1) assms(1) b(1), of "key_of p"] have "b (key_of p) = Ready" by (simp add: asks_simps)
    with followsD(5) [OF b(1) that(2)] show ?thesis by simp
  qed
  ultimately show ?thesis by (simp add: serves_def)
qed

theorem requests_answered_witness:
  "data_of local_basket (fst (r_world reading_answered)) (key_of first_parcel) = Some ''abcd''"
proof -
  have "(answer_step two_readers ^^ 3) reading_asked reading_answered"
    using reading_pick reading_announce reading_answer by (auto simp: numeral_3_eq_3)
  note drain = requests_answered [OF two_readers_readable reading_starts reading_reaches(1) this]
  have "read_queue (fst (r_world reading_answered)) = (\<lambda>_. [])"
    by (simp add: reading_defs read_sink_Run_def read_source_parcel_def Let_def case_prod_beta UpdateParcelStatus_def
        PutData_def local_store_def)
  then have none: "to_read local_basket (fst (r_world reading_answered)) srv = []" for srv by simp
  have "\<not> answer_step two_readers reading_answered r" for r
  proof
    assume "answer_step two_readers reading_answered r"
    then show False
    proof cases
      case (Pick_some srv es s)
      with read_parcels_taken [OF local_basket_laws, of srv "fst (r_world reading_answered)"] none [of srv] show False by auto
    qed (simp_all add: reading_answered_def reading_announced_def)
  qed
  moreover have "asked reading_asked (key_of first_parcel) = Asked" by (simp add: reading_asked_def)
  moreover have "payload two_readers first_parcel = ''abcd''"
    by (simp add: payload_def first_parcel_def sample_parcel_def two_data_def key_of_def)
  ultimately show ?thesis using drain by simp
qed

text \<open>
  C16. What a subscriber gets is a race when nobody has waited for a published parcel, so that its state still says DONE for
  the write job. Let \<open>n k\<close> be how many of its three calls for the request the read job has made when \<open>Subscribe\<close>
  polls for the \<open>k\<close>-th time. If it has made none before the first poll, the old DONE is taken for the answer: the
  call returns after that poll, and succeeds exactly if the job has put the bytes by the time the call looks for
  them (\<open>j\<close> is how many calls the job has made by then). If it has made one, the call succeeds with the published bytes as
  soon as a poll comes after the last of the three, and waits for ever if none does. A short buffer is overrun.
\<close>

theorem subscriber_race:
  fixes S :: "('w, 't, 'q, 'f) setting"
  assumes "proper S" "broker_start S s0" "(broker_step S)\<^sup>*\<^sup>* s0 sys" "p \<in> set (parcels S)"
    and "told_status S sys (key_of p) = Some DONE" "mono n" "\<And>k. n k \<le> 3" "j \<le> 3"
  shows "let job = answering (basket S) (io S) now p (snd (shared sys));
      result = (\<lambda>waited. Subscribe (basket S) (job 0 (n 0)) (\<lambda>k. job (n k) (n (Suc k))) waited got p buf (fst (shared sys)))
    in if n 0 = 0
       then if 2 \<le> j then receives S p buf (result (job 0 j))
         else \<exists>r. result (job 0 j) = Some r \<and> (\<forall>ok data s. r = Inr (ok, data, s) \<longrightarrow> \<not> ok)
       else if \<exists>k. n k = 3 then receives S p buf (result id) else result id = None"
proof -
  let ?job = "answering (basket S) (io S) now p (snd (shared sys))" and ?s = "snd (AsyncSubscribe (basket S) p (fst (shared sys)))"
  note B = properD(1) [OF assms(1)]
  obtain u where s: "state_of (basket S) ?s (key_of p) = Some u" "status u = DONE" "data_of (basket S) ?s (key_of p) = None"
    and "file": "in_file (io S) (snd (shared sys)) p (payload S p)"
    using asked_parcel [OF assms(1-5)] by blast
  note views = answering_views [OF B properD(2) [OF assms(1)] "file", where now = now]
  have polled: "polled (\<lambda>k. ?job (n k) (n (Suc k))) 0 k (?job 0 (n 0) ?s) = ?job 0 (n k) ?s" for k
    using polled_answering [OF assms(6), where a = 0 and m = 0 and k = k] by simp
  have done_iff: "done_at (basket S) p (?job 0 (n k) ?s) \<longleftrightarrow> n k = 0 \<or> n k = 3" for k
    using views(2) [of 0 "n k" ?s] assms(7) [of k] s(1,2) by (auto simp: done_at_def)
  show ?thesis
  proof (cases "n 0 = 0")
    case True
    then have f: "first_done (basket S) (\<lambda>k. ?job (n k) (n (Suc k))) p 0 (?job 0 (n 0) ?s)"
      using done_iff [of 0] by (simp add: first_done_def)
    have d: "data_of (basket S) (?job 0 j (erased (basket S) p (polled (\<lambda>k. ?job (n k) (n (Suc k))) 0 0 (?job 0 (n 0) ?s)))) (key_of p)
        = (if 2 \<le> j then Some (payload S p) else None)"
      using views(1) [of 0 j] assms(8) s(3) True by (simp add: erased_views [OF B])
    show ?thesis
      using subscribe_found [where pushed = "?job 0 (n 0)" and waited = "?job 0 j" and d = "payload S p" and buf = buf and got = got, OF B refl f]
        subscribe_missing [where pushed = "?job 0 (n 0)" and waited = "?job 0 j" and buf = buf and got = got, OF B refl f] d True
      by (auto simp: receives_def Let_def)
  next
    case False
    then have started: "1 \<le> n k" for k using monoD [OF assms(6), of 0 k] by simp
    show ?thesis
    proof (cases "\<exists>k. n k = 3")
      case True
      define k where "k = (LEAST k. n k = 3)"
      have k: "n k = 3" "\<And>i. i < k \<Longrightarrow> n i \<noteq> 3"
        using True LeastI_ex [of "\<lambda>k. n k = 3"] not_less_Least unfolding k_def by blast+
      then have f: "first_done (basket S) (\<lambda>k. ?job (n k) (n (Suc k))) p k (?job 0 (n 0) ?s)"
        using started done_iff [of k] by (simp add: first_done_def polled done_iff Suc_le_eq)
      have "data_of (basket S) (id (erased (basket S) p (polled (\<lambda>k. ?job (n k) (n (Suc k))) 0 k (?job 0 (n 0) ?s)))) (key_of p)
          = Some (payload S p)"
        using views(1) [of 0 3] k(1) by (simp add: erased_views [OF B] polled)
      from subscribe_found [where pushed = "?job 0 (n 0)" and waited = id and buf = buf and got = got, OF B refl f this] True \<open>n 0 \<noteq> 0\<close> show ?thesis
        by (auto simp: receives_def Let_def)
    next
      case never: False
      then have "\<not> done_at (basket S) p (polled (\<lambda>k. ?job (n k) (n (Suc k))) 0 k (?job 0 (n 0) ?s))" for k
        using done_iff [of k] started [of k] by (simp add: polled)
      from subscribe_hangs [where pushed = "?job 0 (n 0)" and waited = id, OF B refl this]
      have "Subscribe (basket S) (?job 0 (n 0)) (\<lambda>k. ?job (n k) (n (Suc k))) id got p buf (fst (shared sys)) = None" .
      with never \<open>n 0 \<noteq> 0\<close> show ?thesis by (simp add: Let_def)
    qed
  qed
qed

text \<open>The job makes its first call before the first poll, and the other two during the first sleep; and it makes all calls too late.\<close>

theorem subscriber_race_witness:
  "(\<exists>env s'. Subscribe local_basket (answering local_basket memory_io 9 first_parcel (snd (shared run_stored)) 0 1) env id id
       first_parcel ''......'' (fst (shared run_stored)) = Some (Inr (True, ''abcd..'', s')))
   \<and> (\<exists>env r. Subscribe local_basket (answering local_basket memory_io 9 first_parcel (snd (shared run_stored)) 0 0) env
       (answering local_basket memory_io 9 first_parcel (snd (shared run_stored)) 0 0) id first_parcel ''......'' (fst (shared run_stored))
       = Some r \<and> (\<forall>ok data s. r = Inr (ok, data, s) \<longrightarrow> \<not> ok))"
proof
  have size: "unat (data_size first_parcel) = 4" "two_data (key_of first_parcel) = ''abcd''"
    by (simp_all add: first_parcel_def sample_parcel_def two_data_def key_of_def)
  have r: "receives two_clients first_parcel ''......'' r \<Longrightarrow> \<exists>s'. r = Some (Inr (True, ''abcd..'', s'))" for r
    by (simp add: receives_def payload_def size local_basket_def)
  note race = subscriber_race [OF two_clients_proper run_starts run_reaches(3) _ run_stored_done]
  let ?job = "answering local_basket memory_io 9 first_parcel (snd (shared run_stored))" and ?n = "\<lambda>k :: nat. if k = 0 then 1 else 3 :: nat"
  have "mono ?n" by (auto simp: mono_def)
  moreover have "\<exists>k. ?n k = 3" by (intro exI [of _ 1]) simp
  ultimately have "receives two_clients first_parcel ''......'' (Subscribe local_basket (?job 0 (?n 0)) (\<lambda>k. ?job (?n k) (?n (Suc k))) id id
      first_parcel ''......'' (fst (shared run_stored)))"
    using race [of ?n 0 9 id "''......''"] by (simp only: Let_def two_clients_simps if_False if_True) simp
  from r [OF this] show "\<exists>env s'. Subscribe local_basket (?job 0 1) env id id first_parcel ''......'' (fst (shared run_stored))
      = Some (Inr (True, ''abcd..'', s'))" by auto
  have "mono (\<lambda>_ :: nat. 0 :: nat)" by (simp add: mono_def)
  with race [of "\<lambda>_. 0" 0 9 id "''......''"]
  have "\<exists>r. Subscribe local_basket (?job 0 0) (\<lambda>k. ?job 0 0) (?job 0 0) id first_parcel ''......'' (fst (shared run_stored)) = Some r
      \<and> (\<forall>ok data s. r = Inr (ok, data, s) \<longrightarrow> \<not> ok)" by (simp add: Let_def)
  then show "\<exists>env r. Subscribe local_basket (?job 0 0) env (?job 0 0) id first_parcel ''......'' (fst (shared run_stored)) = Some r
      \<and> (\<forall>ok data s. r = Inr (ok, data, s) \<longrightarrow> \<not> ok)" by blast
qed

end
