(* ===== verification/Hub.thy ===== *)
theory Hub
  imports Reader
begin

text \<open>
  Both paths on one warehouse and one storage: the publishers and the write jobs of theory \<open>Broker\<close>, the subscribers and
  the read job of theory \<open>Reader\<close>, in any order. A subscriber asks with a parcel of its own for bytes that nobody
  writes, or for a part of a published parcel; then its application waits for the publisher's \<open>Wait\<close> first, as the test
  programs do. Each side leaves what the other one relies on, so both refinements hold together.
\<close>

section \<open>The system\<close>

text \<open>The two sides share the world: each rule passes the world of the side that made the step to the other side.\<close>

record ('w, 't, 'q, 'f) hub =
  writers :: "('w, 't, 'q, 'f) system"
  readers :: "('w, 't, 'q, 'f) reading"

text \<open>Nobody will write what the parcel asks for: whoever published a part of it has waited for it.\<close>

definition settled :: "('w, 't, 'q, 'f) setting \<Rightarrow> ('w, 't, 'q, 'f) system \<Rightarrow> parcel \<Rightarrow> bool" where
  "settled V sys q = (\<forall>p \<in> set (parcels V). apart (io V) q p \<or> client sys (key_of p) = Waited)"

definition asks_settled :: "('w, 't, 'q, 'f) setting \<Rightarrow> ('w, 't, 'q, 'f) setting \<Rightarrow> ('w, 't, 'q, 'f) hub \<Rightarrow> ('w, 't, 'q, 'f) reading \<Rightarrow> bool" where
  "asks_settled V R h r = (\<forall>q \<in> set (parcels R).
     asked (readers h) (key_of q) = Not_asked \<and> asked r (key_of q) = Asked \<longrightarrow> settled V (writers h) q)"

inductive hub_step :: "('w, 't, 'q, 'f) setting \<Rightarrow> ('w, 't, 'q, 'f) setting \<Rightarrow> ('w, 't, 'q, 'f) hub \<Rightarrow> ('w, 't, 'q, 'f) hub \<Rightarrow> bool"
  for V R where
  Writing: "\<lbrakk>broker_step V (writers h) sys\<rbrakk>
    \<Longrightarrow> hub_step V R h (h\<lparr>writers := sys, readers := (readers h)\<lparr>r_world := shared sys\<rparr>\<rparr>)"
| Reading: "\<lbrakk>reader_step R (readers h) r; asks_settled V R h r\<rbrakk>
    \<Longrightarrow> hub_step V R h (h\<lparr>readers := r, writers := (writers h)\<lparr>shared := r_world r\<rparr>\<rparr>)"

text \<open>The parcel \<open>q\<close> asks for a part of \<open>p\<close>.\<close>

definition inside :: "'f io_ops \<Rightarrow> parcel \<Rightarrow> parcel \<Rightarrow> bool" where
  "inside IO q p = (target_file IO q = target_file IO p \<and> unat (position p) \<le> unat (position q)
     \<and> unat (position q) + unat (data_size q) \<le> unat (position p) + unat (data_size p))"

definition part_of :: "string \<Rightarrow> parcel \<Rightarrow> parcel \<Rightarrow> string" where
  "part_of d p q = slice d (unat (position q) - unat (position p)) (unat (data_size q))"

text \<open>
  The published and the asked parcels differ in their keys, the temporary files are nobody's target, and an asked
  parcel is apart from what is published or a part of it.
\<close>

definition together :: "('w, 't, 'q, 'f) setting \<Rightarrow> ('w, 't, 'q, 'f) setting \<Rightarrow> bool" where
  "together V R = (proper V \<and> readable R \<and> basket R = basket V \<and> io R = io V
     \<and> (\<forall>p \<in> set (parcels V). \<forall>q \<in> set (parcels R). key_of p \<noteq> key_of q
          \<and> temp_file (basket V) (io V) p \<noteq> target_file (io V) q
          \<and> (apart (io V) q p \<or> inside (io V) q p \<and> payload R q = part_of (payload V p) p q)))"

definition hub_start :: "('w, 't, 'q, 'f) setting \<Rightarrow> ('w, 't, 'q, 'f) setting \<Rightarrow> ('w, 't, 'q, 'f) hub \<Rightarrow> bool" where
  "hub_start V R h =
     (broker_start V (writers h) \<and> r_world (readers h) = shared (writers h)
      \<and> r_popped (readers h) = [] \<and> r_flight (readers h) = [] \<and> asked (readers h) = (\<lambda>_. Not_asked)
      \<and> to_read (basket V) (fst (shared (writers h))) = (\<lambda>_. [])
      \<and> (\<forall>q \<in> set (parcels R). data_of (basket V) (fst (shared (writers h))) (key_of q) = None
           \<and> state_of (basket V) (fst (shared (writers h))) (key_of q) = None
           \<and> ((\<forall>p \<in> set (parcels V). apart (io V) q p) \<longrightarrow> stocked R (readers h) q)))"

lemma togetherD:
  assumes "together V R"
  shows "proper V" "readable R" "basket R = basket V" "io R = io V"
    "p \<in> set (parcels V) \<Longrightarrow> q \<in> set (parcels R) \<Longrightarrow> key_of p \<noteq> key_of q"
    "p \<in> set (parcels V) \<Longrightarrow> q \<in> set (parcels R) \<Longrightarrow> temp_file (basket V) (io V) p \<noteq> target_file (io V) q"
    "p \<in> set (parcels V) \<Longrightarrow> q \<in> set (parcels R) \<Longrightarrow> \<not> apart (io V) q p \<Longrightarrow> inside (io V) q p"
    "p \<in> set (parcels V) \<Longrightarrow> q \<in> set (parcels R) \<Longrightarrow> \<not> apart (io V) q p \<Longrightarrow> payload R q = part_of (payload V p) p q"
  using assms by (auto simp: together_def)

text \<open>The bytes of a part are in the file when those of the whole are.\<close>

lemma slice_slice:
  assumes "i + n \<le> m"
  shows "slice (slice c k m) i n = slice c (k + i) n"
  using assms by (simp add: slice_def drop_take add.commute min_absorb1)

lemma part_in_file:
  assumes "inside IO q p" "in_file IO f p d"
  shows "in_file IO f q (part_of d p q)"
proof -
  obtain c where c: "files IO f (target_file IO p) = Some c" "unat (position p) + unat (data_size p) \<le> length c"
    "slice c (unat (position p)) (unat (data_size p)) = d"
    using assms(2) by (auto simp: in_file_def split: option.splits)
  have w: "target_file IO q = target_file IO p" "unat (position p) \<le> unat (position q)"
    "unat (position q) - unat (position p) + unat (data_size q) \<le> unat (data_size p)"
    using assms(1) by (auto simp: inside_def)
  have "part_of d p q = slice c (unat (position q)) (unat (data_size q))"
    using slice_slice [OF w(3), of c "unat (position p)"] w(2) by (simp add: part_of_def flip: c(3))
  moreover have "unat (position q) + unat (data_size q) \<le> length c" using w(2,3) c(2) by linarith
  ultimately show ?thesis by (simp add: in_file_def w(1) c(1))
qed

section \<open>What the writers leave to the readers\<close>

lemma publish_store_frame:
  assumes "basket_laws B" "publish_store B p d s = Inr (ok, s')"
  shows "to_read B s' = to_read B s" "k \<noteq> key_of p \<Longrightarrow> data_of B s' k = data_of B s k" "state_of B s' = state_of B s"
proof -
  show "to_read B s' = to_read B s"
    using assms(2) by (auto simp: publish_store_def string_of_buffer_def PutData_def view_defs split: prod.splits if_splits)
  show "k \<noteq> key_of p \<Longrightarrow> data_of B s' k = data_of B s k" "state_of B s' = state_of B s"
    using publish_store_effect [OF assms(1), of p d s s'] publish_refused_effect [OF assms(1), of p d s s'] assms(2)
    by (cases ok; simp)+
qed

definition quiet_for :: "('w, 't, 'q) basket \<Rightarrow> parcel_key set \<Rightarrow> ('w, 't, 'q) store \<Rightarrow> ('w, 't, 'q) store \<Rightarrow> bool" where
  "quiet_for B K s s' = (\<forall>k. k \<notin> K \<longrightarrow> data_of B s' k = data_of B s k \<and> state_of B s' k = state_of B s k)"

lemma quiet_forD: "quiet_for B K s s' \<Longrightarrow> k \<notin> K \<Longrightarrow> data_of B s' k = data_of B s k \<and> state_of B s' k = state_of B s k"
  unfolding quiet_for_def by blast

lemma key_in: "p \<in> set (parcels S) \<Longrightarrow> key_of p \<in> key_of ` set (parcels S)"
  by simp

lemma known_key_in: "wire_of e \<in> known S \<Longrightarrow> key_of e \<in> key_of ` set (parcels S)"
  using known_parcel wire_congs(1) by (metis imageI)

lemma at_home_laws: "basket_laws (basket S) \<Longrightarrow> basket_laws (at_home S p)"
  by (simp add: at_home_def basket_laws_def)


lemma quiet_for_upd:
  assumes "data_of B s' = (data_of B s)(k := x) \<or> data_of B s' = data_of B s"
    "state_of B s' = (state_of B s)(k := y) \<or> state_of B s' = state_of B s" "k \<in> K"
  shows "quiet_for B K s s'"
  unfolding quiet_for_def using assms by (metis fun_upd_apply)

lemma quiet_for_one:
  assumes "\<And>j. j \<noteq> k \<Longrightarrow> data_of B s' j = data_of B s j" "\<And>j. j \<noteq> k \<Longrightarrow> state_of B s' j = state_of B s j" "k \<in> K"
  shows "quiet_for B K s s'"
  unfolding quiet_for_def using assms by metis

text \<open>A step of a writer: other keys, the read queue, and files that are settled.\<close>

lemma task_frame:
  assumes "basket_laws B"
  shows "to_read B (fst (write_source_parcel B IO now e w)) = to_read B (fst w)"
    "to_read B (fst (write_sink_Run B IO now e w)) = to_read B (fst w)"
    "to_read B (fst (iof_source_parcel B IO now e w)) = to_read B (fst w)"
    "to_write B (fst (read_source_parcel B now e w)) = to_write B (fst w)"
    "to_write B (fst (read_sink_Run B IO now e w)) = to_write B (fst w)"
  using assms by (simp_all add: write_source_parcel_def write_sink_Run_def iof_source_parcel_def read_source_parcel_def
      read_sink_Run_def Let_def case_prod_beta)

lemma publish_mark_frame:
  assumes "publish_mark B now p s = (ok, s')"
  shows "to_read B s' = to_read B s"
  using assms by (auto simp: publish_mark_def view_defs split: prod.splits)

lemma broker_leaves_store:
  assumes "broker_step V sys sys'" "proper V" "tracks V sys a"
  shows "to_read (basket V) (fst (shared sys')) = to_read (basket V) (fst (shared sys))
    \<and> quiet_for (basket V) (key_of ` set (parcels V)) (fst (shared sys)) (fst (shared sys'))"
  using assms(1)
proof cases
  case (Push p s)
  note eff = publish_store_frame [OF properD(3) [OF assms(2)] Push(4), unfolded at_home_views]
  show ?thesis unfolding Push(1) by (simp add: eff(1)) (rule quiet_for_one [OF eff(2) _ key_in [OF Push(2)]], simp_all add: eff(3))
next
  case (Refuse p s)
  note eff = publish_store_frame [OF properD(3) [OF assms(2)] Refuse(4), unfolded at_home_views]
  show ?thesis unfolding Refuse(1) by (simp add: eff(1)) (rule quiet_for_one [OF eff(2) _ key_in [OF Refuse(2)]], simp_all add: eff(3))
next
  case (Mark p now ok s)
  note eff = publish_mark_effect(2,4) [OF properD(3) [OF assms(2)] Mark(4), unfolded at_home_views]
    publish_mark_frame [OF Mark(4), unfolded at_home_views]
  show ?thesis unfolding Mark(1) by (simp add: eff(3)) (rule quiet_for_one [OF _ _ key_in [OF Mark(2)]], simp_all add: eff)
next
  case (Take srv es s)
  have "to_read (basket V) s = to_read (basket V) (fst (shared sys))" "data_of (basket V) s = data_of (basket V) (fst (shared sys))"
    "state_of (basket V) s = state_of (basket V) (fst (shared sys))"
    using write_parcels_taken [OF properD(1) [OF assms(2)], of srv "fst (shared sys)"] Take(2) by auto
  then show ?thesis unfolding Take(1) by (simp add: quiet_for_def)
next
  case (Save e now)
  note h = popped_held [OF assms(3) Save(2)]
  have "quiet_for (basket V) (key_of ` set (parcels V)) (fst (shared sys)) (fst (shared sys'))"
    using save_effect(1) [OF assms(2) h(1,3)] save_held(3) [OF assms(2) h(1,3) refl] Save(1) known_key_in [OF h(1)]
    by (intro quiet_for_upd) auto
  then show ?thesis using Save(1) task_frame [OF properD(1) [OF assms(2)]] by simp
next
  case (Store e now)
  note h = flight_held [OF assms(3) Store(2)]
  have "quiet_for (basket V) (key_of ` set (parcels V)) (fst (shared sys)) (fst (shared sys'))"
    using store_effect(1) [OF assms(2) h(1,3)] store_held(3) [OF assms(2) h(1,3) refl] Store(1) known_key_in [OF h(1)]
    by (intro quiet_for_upd) auto
  then show ?thesis using Store(1) task_frame [OF properD(1) [OF assms(2)]] by simp
next
  case (Direct e now)
  note h = popped_held [OF assms(3) Direct(2)]
  have "quiet_for (basket V) (key_of ` set (parcels V)) (fst (shared sys)) (fst (shared sys'))"
    using direct_effect(1) [OF assms(2) h(1,3)] direct_held(3) [OF assms(2) h(1,3) refl] Direct(1) known_key_in [OF h(1)]
    by (intro quiet_for_upd) auto
  then show ?thesis using Direct(1) task_frame [OF properD(1) [OF assms(2)]] by simp
next
  case (Collect p v n s)
  from Wait_quiet(2) [OF properD(1) [OF assms(2)] Collect(4)]
  have s: "s = erased (basket V) p (fst (shared sys))" .
  note eff = erased_views [OF properD(1) [OF assms(2)], of p "fst (shared sys)"]
  show ?thesis unfolding Collect(1) by (simp add: s eff(4)) (rule quiet_for_one [OF _ _ key_in [OF Collect(2)]], simp_all add: eff)
qed

lemma settled_unfinished:
  assumes "settled V sys q" "tracks V sys a" "wire_of e \<in> known V" "place a (key_of e) \<noteq> In_file"
  shows "apart (io V) q e"
proof -
  obtain p where p: "p \<in> set (parcels V)" "wire_of p = wire_of e" using known_parcel [OF assms(3)] .
  have "progress a (key_of p) \<noteq> Waited"
    using life_invD(2) [OF tracksD(2) [OF assms(2)], of "key_of p"] assms(4) by (auto simp: wire_congs [OF p(2)])
  with assms(1) p(1) have "apart (io V) q p" by (auto simp: settled_def tracksD(1) [OF assms(2)])
  then show ?thesis by (simp add: wire_congs [OF p(2)])
qed

lemma broker_leaves_files:
  assumes "broker_step V sys sys'" "proper V" "tracks V sys a"
    and "\<And>p. p \<in> set (parcels V) \<Longrightarrow> temp_file (basket V) (io V) p \<noteq> target_file (io V) q"
    and "settled V sys q" "in_file (io V) (snd (shared sys)) q d"
  shows "in_file (io V) (snd (shared sys')) q d"
proof -
  have temp: "temp_file (basket V) (io V) e \<noteq> target_file (io V) q" if "wire_of e \<in> known V" for e
    using known_parcel [OF that] assms(4) wire_congs(2) by metis
  from assms(1) show ?thesis
  proof cases
    case (Save e now)
    note h = popped_held [OF assms(3) Save(2)]
    obtain old where "files (io V) (snd (shared sys')) = (files (io V) (snd (shared sys)))(temp_file (basket V) (io V) e \<mapsto> splice old 0 (payload V e))"
      using save_effect(2) [OF assms(2) h(1,3), of now] Save(1) by auto
    with assms(6) temp [OF h(1)] show ?thesis by (simp add: in_file_def)
  next
    case (Store e now)
    note h = flight_held [OF assms(3) Store(2)]
    let ?F = "(files (io V) (snd (shared sys)))(temp_file (basket V) (io V) e := None)"
    have f: "files (io V) (snd (shared sys')) = ?F(target_file (io V) e \<mapsto>
        splice (old_content (?F (target_file (io V) e))) (unat (position e)) (payload V e))"
      using store_effect(2) [OF assms(2) h(1,3), of now] Store(1) payload_fits(2) [OF assms(2) h(1)] by simp
    show ?thesis
      by (rule in_file_other [OF f _ payload_fits(1) [OF assms(2) h(1)] settled_unfinished [OF assms(5,3) h(1)] assms(6)])
        (use temp [OF h(1)] h(2) in auto)
  next
    case (Direct e now)
    note h = popped_held [OF assms(3) Direct(2)]
    have f: "files (io V) (snd (shared sys')) = (files (io V) (snd (shared sys)))(target_file (io V) e \<mapsto>
        splice (old_content (files (io V) (snd (shared sys)) (target_file (io V) e))) (unat (position e)) (payload V e))"
      using direct_effect(2) [OF assms(2) h(1,3), of now] Direct(1) by simp
    show ?thesis
      by (rule in_file_other [OF f _ payload_fits(1) [OF assms(2) h(1)] settled_unfinished [OF assms(5,3) h(1)] assms(6)])
        (use h(2) in auto)
  qed (use assms(6) in simp_all)
qed


section \<open>What the readers leave to the writers\<close>

lemma reader_leaves_store:
  assumes "reader_step R r r'" "readable R" "follows R r b"
  shows "to_write (basket R) (fst (r_world r')) = to_write (basket R) (fst (r_world r))
    \<and> quiet_for (basket R) (key_of ` set (parcels R)) (fst (r_world r)) (fst (r_world r'))"
proof -
  note B = readableD(1) [OF assms(2)] and f = followsD [OF assms(3)]
  have pushed: "to_write C s' = to_write C s" if "AsyncSubscribe C p s = (ok, s')" for C p s ok s'
    using that by (auto simp: AsyncSubscribe_def view_defs split: prod.splits)
  have fetched: "to_write (basket R) s' = to_write (basket R) s"
    if "GetSubscribedData (basket R) p buf s = Inr (ok, buf', s')" for p buf s ok buf' s'
    using that by (auto simp: GetSubscribedData_def view_defs memcpy_into_def Let_def split: if_splits)
  from assms(1) show ?thesis
  proof cases
    case (Ask p s)
    note eff = asked_effect(1,2) [OF readableD(4) [OF assms(2)] Ask(4), unfolded at_home_views]
    show ?thesis unfolding Ask(1) using pushed [OF Ask(4)] by (simp add: quiet_for_def eff)
  next
    case (Deny p s)
    note eff = asked_effect(1,2) [OF readableD(4) [OF assms(2)] Deny(4), unfolded at_home_views]
    show ?thesis unfolding Deny(1) using pushed [OF Deny(4)] by (simp add: quiet_for_def eff)
  next
    case (Pick srv es s)
    have "to_write (basket R) s = to_write (basket R) (fst (r_world r))" "data_of (basket R) s = data_of (basket R) (fst (r_world r))"
      "state_of (basket R) s = state_of (basket R) (fst (r_world r))"
      using read_parcels_taken [OF B, of srv "fst (r_world r)"] Pick(2) by auto
    then show ?thesis unfolding Pick(1) by (simp add: quiet_for_def)
  next
    case (Announce e now)
    have "key_of e \<in> key_of ` set (parcels R)" using known_key_in [OF lists_keys_member(1) [OF f(3) Announce(2)]] .
    then show ?thesis unfolding Announce(1) using B
      by (simp add: task_frame [OF B]) (rule quiet_for_one, simp_all add: read_source_parcel_def)
  next
    case (Answer e now)
    note e = lists_keys_member [OF f(4) Answer(2)]
    obtain p where p: "p \<in> set (parcels R)" "wire_of p = wire_of e" using known_parcel [OF e(1)] .
    have "serves R (r_world r) Moving e" using f(5) [OF p(1)] e(2) by (simp add: serves_wire [OF p(2)] wire_congs [OF p(2)])
    then have "in_file (io R) (snd (r_world r)) e (payload R e)" by (simp add: serves_def)
    note eff = read_sink_effect(1,2) [OF B readableD(2) [OF assms(2)] this refl, where now = now]
    show ?thesis unfolding Answer(1)
      by (simp add: task_frame [OF B]) (rule quiet_for_one [OF _ _ known_key_in [OF e(1)]], simp_all add: eff)
  next
    case (Poll p buf buf' s)
    note eff = fetched_effect(2,4) [OF B Poll(4)]
    show ?thesis unfolding Poll(1) using fetched [OF Poll(4)]
      by simp (rule quiet_for_one [OF _ _ key_in [OF Poll(2)]], simp_all add: eff)
  next
    case (Await p v n s1 buf ok buf' s)
    have s1: "s1 = erased (basket R) p (fst (r_world r))" by (rule Wait_quiet(2) [OF B Await(4)])
    note eff = fetched_effect(2,4) [OF B Await(5)]
    show ?thesis unfolding Await(1) using fetched [OF Await(5)]
      by (simp add: s1 erased_views [OF B]) (rule quiet_for_one [OF _ _ key_in [OF Await(2)]], simp_all add: eff s1 erased_views [OF B])
  qed
qed

section \<open>Both refinements hold together\<close>

lemma tracks_stable:
  assumes "tracks V sys a" "snd w = snd (shared sys)" "to_write (basket V) (fst w) = to_write (basket V) (fst (shared sys))"
    and "quiet_for (basket V) K (fst (shared sys)) (fst w)" "\<And>p. p \<in> set (parcels V) \<Longrightarrow> key_of p \<notin> K"
  shows "tracks V (sys\<lparr>shared := w\<rparr>) a"
proof -
  note t = tracksD [OF assms(1)]
  have "held V w (place a (key_of p)) p \<and> told_status V (sys\<lparr>shared := w\<rparr>) (key_of p) = told_status V sys (key_of p)"
    if "p \<in> set (parcels V)" for p
    using quiet_forD [OF assms(4) assms(5) [OF that]] held_data_frame [OF t(6) [OF that], of w] assms(2)
    by (simp add: told_status_def)
  with t show ?thesis by (simp add: tracks_def assms(3))
qed

lemma follows_stable:
  assumes "follows R r b" "to_read (basket R) (fst w) = to_read (basket R) (fst (r_world r))"
    and "quiet_for (basket R) K (fst (r_world r)) (fst w)" "\<And>q. q \<in> set (parcels R) \<Longrightarrow> key_of q \<notin> K"
    and "\<And>q. q \<in> set (parcels R) \<Longrightarrow> b (key_of q) \<notin> {Idle, Denied} \<Longrightarrow> in_file (io R) (snd w) q (payload R q)"
  shows "follows R (r\<lparr>r_world := w\<rparr>) b"
proof -
  note f = followsD [OF assms(1)]
  have "serves R w (b (key_of q)) q" if "q \<in> set (parcels R)" for q
    using f(5) [OF that] quiet_forD [OF assms(3) assms(4) [OF that]] assms(5) [OF that] unfolding serves_def by auto
  with f show ?thesis by (simp add: follows_def assms(2))
qed

definition hub_tracks :: "('w, 't, 'q, 'f) setting \<Rightarrow> ('w, 't, 'q, 'f) setting \<Rightarrow> ('w, 't, 'q, 'f) hub
    \<Rightarrow> life \<times> (parcel_key \<Rightarrow> request) \<Rightarrow> bool" where
  "hub_tracks V R h ab =
     (tracks V (writers h) (fst ab) \<and> follows R (readers h) (snd ab) \<and> r_world (readers h) = shared (writers h)
      \<and> (\<forall>q \<in> set (parcels R). (settled V (writers h) q \<longrightarrow> stocked R (readers h) q)
           \<and> (snd ab (key_of q) \<notin> {Idle, Denied} \<longrightarrow> settled V (writers h) q)))"

lemma hub_tracksD:
  assumes "hub_tracks V R h (a, b)"
  shows "tracks V (writers h) a" "follows R (readers h) b" "r_world (readers h) = shared (writers h)"
    "q \<in> set (parcels R) \<Longrightarrow> settled V (writers h) q \<Longrightarrow> stocked R (readers h) q"
    "q \<in> set (parcels R) \<Longrightarrow> b (key_of q) \<notin> {Idle, Denied} \<Longrightarrow> settled V (writers h) q"
  using assms by (auto simp: hub_tracks_def)

text \<open>Specification: a parcel moves on, or a request does.\<close>

inductive either_step :: "life \<times> (parcel_key \<Rightarrow> request) \<Rightarrow> life \<times> (parcel_key \<Rightarrow> request) \<Rightarrow> bool" where
  Lived: "life_step a a' \<Longrightarrow> either_step (a, b) (a', b)"
| Requested: "request_step b b' \<Longrightarrow> either_step (a, b) (a, b')"

lemma waited_stays: "broker_step V sys sys' \<Longrightarrow> client sys k = Waited \<Longrightarrow> client sys' k = Waited"
  by (induction rule: broker_step.induct) auto

lemma settled_stays: "broker_step V sys sys' \<Longrightarrow> settled V sys q \<Longrightarrow> settled V sys' q"
  using waited_stays unfolding settled_def by blast

lemma request_opens: "request_step b b' \<Longrightarrow> b' k \<notin> {Idle, Denied} \<Longrightarrow> b k \<in> {Idle, Denied} \<Longrightarrow> b k = Idle \<and> b' k = Waiting"
  by (induction rule: request_step.induct) (auto split: if_splits)

text \<open>A part of what was published and waited for is in the file.\<close>

lemma part_stocked:
  assumes "together V R" "tracks V sys a" "p \<in> set (parcels V)" "q \<in> set (parcels R)"
    and "\<not> apart (io V) q p" "client sys (key_of p) = Waited"
  shows "in_file (io V) (snd (shared sys)) q (payload R q)"
proof -
  note t = tracksD [OF assms(2)] and tg = togetherD [OF assms(1)]
  have "place a (key_of p) = In_file" using life_invD(2) [OF t(2), of "key_of p"] assms(6) by (simp add: t(1))
  then have "in_file (io V) (snd (shared sys)) p (payload V p)" using t(6) [OF assms(3)] by (simp add: held_def)
  from part_in_file [OF tg(7) [OF assms(3-5)] this] show ?thesis by (simp add: tg(8) [OF assms(3-5)])
qed


lemma hub_write:
  assumes "broker_step V (writers h) sys" "together V R" "hub_tracks V R h (a, b)" "tracks V sys a'"
  shows "hub_tracks V R (h\<lparr>writers := sys, readers := (readers h)\<lparr>r_world := shared sys\<rparr>\<rparr>) (a', b)"
proof -
  note ht = hub_tracksD [OF assms(3)] and tg = togetherD [OF assms(2)]
  note st = broker_leaves_store [OF assms(1) tg(1) ht(1)]
  have keep: "in_file (io V) (snd (shared sys)) q (payload R q)"
    if "q \<in> set (parcels R)" "settled V (writers h) q" for q
    using broker_leaves_files [OF assms(1) tg(1) ht(1) tg(6) [OF _ that(1)] that(2)] ht(4) [OF that]
    by (simp add: stocked_def tg(4) ht(3))
  have "follows R ((readers h)\<lparr>r_world := shared sys\<rparr>) b"
  proof (rule follows_stable [OF ht(2), where K = "key_of ` set (parcels V)"])
    show "key_of q \<notin> key_of ` set (parcels V)" if "q \<in> set (parcels R)" for q using tg(5) [OF _ that] by force
    show "in_file (io R) (snd (shared sys)) q (payload R q)" if "q \<in> set (parcels R)" "b (key_of q) \<notin> {Idle, Denied}" for q
      using keep [OF that(1) ht(5) [OF that]] by (simp add: tg(4))
  qed (use st in \<open>simp_all add: tg(3) ht(3)\<close>)
  moreover have "stocked R ((readers h)\<lparr>r_world := shared sys\<rparr>) q" if q: "q \<in> set (parcels R)" "settled V sys q" for q
  proof (cases "\<forall>p \<in> set (parcels V). apart (io V) q p")
    case True
    with keep [OF q(1)] show ?thesis by (simp add: stocked_def settled_def tg(4))
  next
    case False
    then obtain p where p: "p \<in> set (parcels V)" "\<not> apart (io V) q p" by blast
    then have "client sys (key_of p) = Waited" using q(2) by (auto simp: settled_def)
    from part_stocked [OF assms(2,4) p(1) q(1) p(2) this] show ?thesis by (simp add: stocked_def tg(4))
  qed
  moreover have "settled V sys q" if "q \<in> set (parcels R)" "b (key_of q) \<notin> {Idle, Denied}" for q
    using settled_stays [OF assms(1) ht(5) [OF that]] .
  ultimately show ?thesis using assms(4) by (simp add: hub_tracks_def)
qed

lemma hub_read:
  assumes "reader_step R (readers h) r" "together V R" "hub_tracks V R h (a, b)" "follows R r b'"
    and "\<And>q. q \<in> set (parcels R) \<Longrightarrow> b' (key_of q) \<notin> {Idle, Denied} \<Longrightarrow> settled V (writers h) q"
  shows "hub_tracks V R (h\<lparr>readers := r, writers := (writers h)\<lparr>shared := r_world r\<rparr>\<rparr>) (a, b')"
proof -
  note ht = hub_tracksD [OF assms(3)] and tg = togetherD [OF assms(2)]
  note st = reader_leaves_store [OF assms(1) tg(2) ht(2)] and files = reader_keeps_files [OF assms(1)]
  have "tracks V ((writers h)\<lparr>shared := r_world r\<rparr>) a"
  proof (rule tracks_stable [OF ht(1), where K = "key_of ` set (parcels R)"])
    show "key_of p \<notin> key_of ` set (parcels R)" if "p \<in> set (parcels V)" for p using tg(5) [OF that] by force
  qed (use st files in \<open>simp_all add: tg(3) ht(3)\<close>)
  moreover have "settled V ((writers h)\<lparr>shared := r_world r\<rparr>) q \<longleftrightarrow> settled V (writers h) q" for q by (simp add: settled_def)
  moreover have "stocked R r q" if "q \<in> set (parcels R)" "settled V (writers h) q" for q
    using ht(4) [OF that] by (simp add: stocked_def files)
  ultimately show ?thesis using assms(4,5) by (simp add: hub_tracks_def)
qed

lemma hub_ask:
  assumes "reader_step R (readers h) r" "asks_settled V R h r" "together V R" "hub_tracks V R h (a, b)"
  obtains b' where "request_step b b'" "hub_tracks V R (h\<lparr>readers := r, writers := (writers h)\<lparr>shared := r_world r\<rparr>\<rparr>) (a, b')"
proof -
  note ht = hub_tracksD [OF assms(4)] and tg = togetherD [OF assms(3)]
  have ask: "settled V (writers h) q" if "q \<in> set (parcels R)" "asked (readers h) (key_of q) = Not_asked" "asked r (key_of q) = Asked" for q
    using assms(2) that by (simp add: asks_settled_def)
  obtain b' where b': "request_step b b'" "follows R r b'"
    using reader_simulates [OF assms(1) tg(2) ht(2)] ht(4) ask by metis
  have "settled V (writers h) q" if q: "q \<in> set (parcels R)" "b' (key_of q) \<notin> {Idle, Denied}" for q
  proof (cases "b (key_of q) \<in> {Idle, Denied}")
    case True
    from request_opens [OF b'(1) q(2) True] show ?thesis
      using ask [OF q(1)] by (simp add: followsD(1) [OF ht(2)] followsD(1) [OF b'(2)])
  qed (rule ht(5) [OF q(1)])
  from hub_read [OF assms(1,3,4) b'(2) this] b'(1) that show thesis by blast
qed

lemma hub_simulates:
  assumes "hub_step V R h h'" "together V R \<and> hub_tracks V R h ab"
  shows "\<exists>cd. either_step ab cd \<and> together V R \<and> hub_tracks V R h' cd"
proof -
  obtain a b where ab: "ab = (a, b)" by (cases ab)
  with assms(2) have tg: "together V R" and t: "hub_tracks V R h (a, b)" by simp_all
  from assms(1) show ?thesis
  proof cases
    case (Writing sys)
    obtain a' where a': "life_step a a'" "tracks V sys a'"
      using step_simulates [OF Writing(2) togetherD(1) [OF tg] hub_tracksD(1) [OF t]] by blast
    from hub_write [OF Writing(2) tg t a'(2)] Writing(1) tg Lived [OF a'(1)] show ?thesis unfolding ab by blast
  next
    case (Reading r)
    from hub_ask [OF Reading(2,3) tg t] Reading(1) tg show ?thesis unfolding ab by (metis Requested)
  qed
qed

interpretation both_paths: simulation "hub_step V R" either_step "\<lambda>h ab. together V R \<and> hub_tracks V R h ab" for V R
  by unfold_locales (rule hub_simulates)

lemma hub_start_tracks:
  assumes "together V R" "hub_start V R h"
  shows "hub_tracks V R h (unborn, \<lambda>_. Idle)"
proof -
  note tg = togetherD [OF assms(1)]
  have s: "broker_start V (writers h)" "r_world (readers h) = shared (writers h)" using assms(2) by (simp_all add: hub_start_def)
  have "follows R (readers h) (\<lambda>_. Idle)"
    using assms(2) by (simp add: hub_start_def follows_def serves_def fun_eq_iff tg(3))
  moreover have "stocked R (readers h) q" if "q \<in> set (parcels R)" "settled V (writers h) q" for q
    using assms(2) that by (simp add: hub_start_def settled_def broker_start_def)
  ultimately show ?thesis
    using start_tracks [OF s(1)] s(2) by (simp add: hub_tracks_def)
qed

lemma hub_tracked:
  assumes "together V R" "hub_start V R h0" "(hub_step V R)\<^sup>*\<^sup>* h0 h"
  obtains a b where "either_step\<^sup>*\<^sup>* (unborn, \<lambda>_. Idle) (a, b)" "hub_tracks V R h (a, b)"
  using both_paths.run_simulated [OF assms(3), of "(unborn, \<lambda>_. Idle)"] hub_start_tracks [OF assms(1,2)] assms(1)
  by (metis surj_pair)


section \<open>The jobs of both sides\<close>

inductive hub_job :: "('w, 't, 'q, 'f) setting \<Rightarrow> ('w, 't, 'q, 'f) setting \<Rightarrow> ('w, 't, 'q, 'f) hub \<Rightarrow> ('w, 't, 'q, 'f) hub \<Rightarrow> bool"
  for V R where
  Write_job: "\<lbrakk>job_step V (writers h) sys\<rbrakk>
    \<Longrightarrow> hub_job V R h (h\<lparr>writers := sys, readers := (readers h)\<lparr>r_world := shared sys\<rparr>\<rparr>)"
| Read_job: "\<lbrakk>answer_step R (readers h) r\<rbrakk>
    \<Longrightarrow> hub_job V R h (h\<lparr>readers := r, writers := (writers h)\<lparr>shared := r_world r\<rparr>\<rparr>)"

definition hub_left :: "('w, 't, 'q, 'f) setting \<Rightarrow> ('w, 't, 'q, 'f) setting \<Rightarrow> life \<times> (parcel_key \<Rightarrow> request) \<Rightarrow> nat" where
  "hub_left V R ab = work V (fst ab) + sum_over R (to_answer \<circ> snd ab)"

definition callers :: "('w, 't, 'q, 'f) hub \<Rightarrow> (parcel_key \<Rightarrow> client_pc) \<times> (parcel_key \<Rightarrow> ask_pc)" where
  "callers h = (client (writers h), asked (readers h))"

lemma hub_job_callers: "hub_job V R h h' \<Longrightarrow> callers h' = callers h"
  by (induction rule: hub_job.induct) (auto simp: callers_def dest: job_step_is_step answer_step_is_step)

lemma hub_job_is_step: "hub_job V R h h' \<Longrightarrow> hub_step V R h h'"
proof (induction rule: hub_job.induct)
  case (Write_job h sys)
  then show ?case using job_step_is_step Writing by blast
next
  case (Read_job h r)
  with answer_step_is_step have "reader_step R (readers h) r" "asked r = asked (readers h)" by blast+
  then show ?case by (intro Reading) (auto simp: asks_settled_def)
qed

lemma asks_open: "asks q = asks q' \<Longrightarrow> q \<notin> {Idle, Denied} \<Longrightarrow> q' \<notin> {Idle, Denied}"
  by (cases q; cases q') auto

lemma hub_job_works:
  assumes "hub_job V R h h'" "together V R \<and> hub_tracks V R h ab"
  shows "\<exists>cd. (together V R \<and> hub_tracks V R h' cd) \<and> hub_left V R cd < hub_left V R ab"
proof -
  obtain a b where ab: "ab = (a, b)" by (cases ab)
  with assms(2) have tg: "together V R" and t: "hub_tracks V R h (a, b)" by simp_all
  note ht = hub_tracksD [OF t]
  from assms(1) show ?thesis
  proof cases
    case (Write_job sys)
    obtain a' where a': "tracks V sys a'" "work V a' < work V a"
      using job_step_works [OF Write_job(2) togetherD(1) [OF tg] ht(1)] by blast
    have "broker_step V (writers h) sys" using job_step_is_step [OF Write_job(2)] by simp
    from hub_write [OF this tg t a'(1)] Write_job(1) have "hub_tracks V R h' (a', b)" by simp
    with a'(2) tg show ?thesis unfolding ab by (intro exI [of _ "(a', b)"]) (simp add: hub_left_def)
  next
    case (Read_job r)
    obtain b' where b': "follows R r b'" "sum_over R (to_answer \<circ> b') < sum_over R (to_answer \<circ> b)"
      using answer_step_works [OF Read_job(2) togetherD(2) [OF tg] ht(2)] by blast
    have r: "reader_step R (readers h) r" "asked r = asked (readers h)" using answer_step_is_step [OF Read_job(2)] by simp_all
    then have "asks \<circ> b' = asks \<circ> b" using followsD(1) [OF b'(1)] followsD(1) [OF ht(2)] by simp
    then have "asks (b' k) = asks (b k)" for k by (metis comp_apply)
    then have "settled V (writers h) q" if "q \<in> set (parcels R)" "b' (key_of q) \<notin> {Idle, Denied}" for q
      using ht(5) [OF that(1)] asks_open that(2) by blast
    from hub_read [OF r(1) tg t b'(1) this] Read_job(1) have "hub_tracks V R h' (a, b')" by simp
    with b'(2) tg show ?thesis unfolding ab by (intro exI [of _ "(a, b')"]) (simp add: hub_left_def)
  qed
qed

interpretation both_jobs: working "hub_job V R" "\<lambda>h ab. together V R \<and> hub_tracks V R h ab" "hub_left V R" callers for V R
  by unfold_locales (fact hub_job_works, fact hub_job_callers)

lemma hub_left_bound: "hub_left V R ab \<le> 3 * (length (parcels V) + length (parcels R))"
proof -
  have "to_answer q \<le> 3" for q by (cases q) simp_all
  then have "sum_over R (to_answer \<circ> snd ab) \<le> 3 * length (parcels R)" by (intro sum_over_bound) simp
  with work_bound [of V "fst ab"] show ?thesis by (simp add: hub_left_def)
qed


lemma hub_idle:
  assumes "\<nexists>h'. hub_job V R h h'"
  shows "\<nexists>sys. job_step V (writers h) sys" "\<nexists>r. answer_step R (readers h) r"
  using assms Write_job [of V h _ R] Read_job [of R h _ V] by blast+

section \<open>A run\<close>

text \<open>
  The first of the two clients of theory \<open>Broker\<close> marks its parcel in time and waits for it; the direct write job stores it.
  Then a subscriber asks for its second and third byte, with a parcel of its own.
\<close>

definition middle_parcel :: parcel where
  "middle_parcel = first_parcel\<lparr>unique_id := 9, position := 1, data_size := 2\<rparr>"

definition middle_reader where
  "middle_reader = \<lparr>basket = local_basket, io = memory_io, parcels = [middle_parcel], bytes = (\<lambda>_. ''bc''), home = (\<lambda>_. 0)\<rparr>"

definition store_with where
  "store_with ps w u = local_store\<lparr>warehouse := w, parsel_state := u, write_queue := (\<lambda>_. [])(0 := ps)\<rparr>"

definition empty_files :: "file_name \<Rightarrow> string option" where "empty_files = (\<lambda>_. None)"

definition first_stored :: "file_name \<Rightarrow> string option" where
  "first_stored = empty_files(target_file memory_io first_parcel \<mapsto> ''abcd'')"

definition way_at where
  "way_at sh pop pc = \<lparr>shared = sh, popped = pop, in_flight = [], client = (\<lambda>_. Before)(key_of first_parcel := pc)\<rparr>"

abbreviation "at_first v \<equiv> [key_of first_parcel \<mapsto> v]"

definition way_marked where
  "way_marked = way_at (store_with [first_parcel] (at_first ''abcd'') (at_first (ParcelState 4 QUEUED)), empty_files) [] Published"

definition way_taken where
  "way_taken = way_at (store_with [] (at_first ''abcd'') (at_first (ParcelState 4 QUEUED)), empty_files) [first_parcel] Published"

definition way_stored where
  "way_stored = way_at (store_with [] (\<lambda>_. None) (at_first (ParcelState 5 DONE)), first_stored) [] Published"

definition way_waited where
  "way_waited = way_at (local_store, first_stored) [] Waited"

lemmas way_defs = way_waited_def way_stored_def way_taken_def way_marked_def way_at_def store_with_def

lemma first_fields [simp]:
  "position first_parcel = 0" "data_size first_parcel = 4" "pid first_parcel = ''7''" "storage_index first_parcel = 1" "unique_id first_parcel = 3"
  "key_of first_parcel = (''7'', 3)" "two_data (''7'', 3) = ''abcd''" "strip_parcel first_parcel = first_parcel"
  by (simp_all add: first_parcel_def sample_parcel_def key_of_def two_data_def strip_parcel_def)

lemma way_mark: "broker_step two_clients run_pushed way_marked"
proof -
  have "publish_mark local_basket 4 first_parcel (fst (shared run_pushed)) = (True, fst (shared way_marked))"
    by (simp add: publish_mark_def local_basket_def fun_map_def run_pushed_def run_start_def way_defs local_store_def)
  then have "broker_step two_clients run_pushed (run_pushed\<lparr>shared := (fst (shared way_marked), snd (shared run_pushed)),
      client := (client run_pushed)(key_of first_parcel := Published)\<rparr>)"
    by (intro Mark) (simp_all add: run_pushed_def)
  then show ?thesis by (simp add: run_pushed_def run_start_def way_defs empty_files_def)
qed

lemma way_take: "job_step two_clients way_marked way_taken"
proof -
  have "GetWriteParsel local_basket 0 (fst (shared way_marked)) = Some ([first_parcel], fst (shared way_taken))"
    by (simp add: GetWriteParsel_def amount_of_def local_basket_def list_queue_def way_defs local_store_def
        pop_loop.simps fun_upd_idem)
  then show ?thesis
    using Take_some [of two_clients 0 way_marked "[first_parcel]" "fst (shared way_taken)"] by (simp add: way_defs)
qed

lemma way_direct: "job_step two_clients way_taken way_stored"
proof -
  have "iof_source_parcel local_basket memory_io 5 first_parcel (shared way_taken) = shared way_stored"
    by (simp add: iof_source_parcel_def GetData_def DeleteData_def UpdateParcelStatus_def local_basket_def fun_map_def Let_def
        memory_io_def way_defs local_store_def splice_def old_content_def first_stored_def empty_files_def target_file_def)
  then show ?thesis
    using Direct_one [of first_parcel way_taken two_clients 5] by (simp add: way_defs)
qed

lemma way_wait: "broker_step two_clients way_stored way_waited"
proof -
  have "Wait local_basket (\<lambda>n s. s) first_parcel (fst (shared way_stored))
      = Some (ParcelState 5 DONE, 0, erased local_basket first_parcel (fst (shared way_stored)))"
    by (rule Wait_now [OF local_basket_laws]) (simp_all add: way_defs)
  moreover have "erased local_basket first_parcel (fst (shared way_stored)) = local_store"
    by (simp add: erased_def local_basket_def fun_map_def way_defs local_store_def fun_upd_idem)
  ultimately show ?thesis
    using Collect [of first_parcel two_clients way_stored "ParcelState 5 DONE" 0 local_store] by (simp add: way_defs)
qed

lemma way_reaches: "(broker_step two_clients)\<^sup>*\<^sup>* run_start way_waited"
proof -
  note step = rtranclp.rtrancl_into_rtrancl [where r = "broker_step two_clients"]
  have "(broker_step two_clients)\<^sup>*\<^sup>* run_start way_taken"
    using step [OF step [OF run_reaches(1) way_mark]] job_step_is_step [OF way_take] by blast
  then show ?thesis using step [OF step] job_step_is_step [OF way_direct] way_wait by blast
qed

text \<open>The reader: its request, the source and the sink task, and the poll.\<close>

definition ask_at where
  "ask_at rq w u pop fly pc = \<lparr>r_world = (local_store\<lparr>warehouse := w, parsel_state := u, read_queue := (\<lambda>_. [])(0 := rq)\<rparr>, first_stored),
     r_popped = pop, r_flight = fly, asked = (\<lambda>_. Not_asked)(key_of middle_parcel := pc)\<rparr>"

abbreviation "at_middle v \<equiv> [key_of middle_parcel \<mapsto> v]"

definition "ask_start = ask_at [] (\<lambda>_. None) (\<lambda>_. None) [] [] Not_asked"
definition "ask_made = ask_at [middle_parcel] (\<lambda>_. None) (\<lambda>_. None) [] [] Asked"
definition "ask_picked = ask_at [] (\<lambda>_. None) (\<lambda>_. None) [middle_parcel] [] Asked"
definition "ask_announced = ask_at [] (\<lambda>_. None) (at_middle (ParcelState 6 IN_PROGRESS)) [] [middle_parcel] Asked"
definition "ask_answered = ask_at [] (at_middle ''bc'') (at_middle (ParcelState 7 DONE)) [] [] Asked"
definition "ask_served = ask_at [] (\<lambda>_. None) (at_middle (ParcelState 7 DONE)) [] [] (Served ''bc'')"

lemmas ask_defs = ask_start_def ask_made_def ask_picked_def ask_announced_def ask_answered_def ask_served_def ask_at_def

lemma middle_fields [simp]:
  "position middle_parcel = 1" "data_size middle_parcel = 2" "pid middle_parcel = ''7''" "storage_index middle_parcel = 1" "unique_id middle_parcel = 9"
  "key_of middle_parcel = (''7'', 9)" "strip_parcel middle_parcel = middle_parcel"
  by (simp_all add: middle_parcel_def first_parcel_def sample_parcel_def key_of_def strip_parcel_def)

lemma middle_reader_simps [simp]:
  "basket middle_reader = local_basket" "io middle_reader = memory_io" "parcels middle_reader = [middle_parcel]"
  "home middle_reader k = 0" "bytes middle_reader k = ''bc''" "at_home middle_reader p = local_basket"
  by (simp_all add: middle_reader_def at_home_def local_basket_def)

lemma ask_make: "reader_step middle_reader ask_start ask_made"
proof -
  have "AsyncSubscribe local_basket middle_parcel (fst (r_world ask_start)) = (True, fst (r_world ask_made))"
    by (simp add: AsyncSubscribe_def local_basket_def list_queue_def ask_defs local_store_def fun_upd_idem)
  then show ?thesis
    using Ask [of middle_parcel middle_reader ask_start "fst (r_world ask_made)"] by (simp add: ask_defs)
qed

lemma ask_pick: "answer_step middle_reader ask_made ask_picked"
proof -
  have "GetReadParsel local_basket 0 (fst (r_world ask_made)) = Some ([middle_parcel], fst (r_world ask_picked))"
    by (simp add: GetReadParsel_def amount_of_def local_basket_def list_queue_def ask_defs local_store_def
        pop_loop.simps fun_upd_idem)
  then show ?thesis
    using Pick_some [of middle_reader 0 ask_made "[middle_parcel]" "fst (r_world ask_picked)"] by (simp add: ask_defs)
qed

lemma ask_announce: "answer_step middle_reader ask_picked ask_announced"
proof -
  have "read_source_parcel local_basket 6 middle_parcel (r_world ask_picked) = r_world ask_announced"
    by (simp add: read_source_parcel_def UpdateParcelStatus_def local_basket_def fun_map_def ask_defs local_store_def)
  then show ?thesis
    using Announce_one [of middle_parcel ask_picked middle_reader 6] by (simp add: ask_defs)
qed

lemma ask_answer: "answer_step middle_reader ask_announced ask_answered"
proof -
  have "read_sink_Run local_basket memory_io 7 middle_parcel (r_world ask_announced) = r_world ask_answered"
    by (simp add: read_sink_Run_def PutData_def UpdateParcelStatus_def local_basket_def fun_map_def Let_def memory_io_def
        ask_defs local_store_def slice_def old_content_def first_stored_def target_file_def)
  then show ?thesis
    using Answer_one [of middle_parcel ask_announced middle_reader 7] by (simp add: ask_defs)
qed

lemma ask_poll: "reader_step middle_reader ask_answered ask_served"
proof -
  have "GetSubscribedData local_basket middle_parcel ''__'' (fst (r_world ask_answered)) = Inr (True, ''bc'', fst (r_world ask_served))"
    by (simp add: GetSubscribedData_def local_basket_def fun_map_def memcpy_into_def ask_defs local_store_def fun_upd_idem)
  then show ?thesis
    using Poll [of middle_parcel middle_reader ask_answered "''__''" "''bc''" "fst (r_world ask_served)"] by (simp add: ask_defs)
qed

text \<open>Runs of one side are runs of the hub; the readers' runs when what they ask for is settled.\<close>

definition seen_by where
  "seen_by sys r = \<lparr>writers = sys, readers = r\<lparr>r_world := shared sys\<rparr>\<rparr>"

lemma writers_run:
  assumes "(broker_step V)\<^sup>*\<^sup>* sys sys'"
  shows "(hub_step V R)\<^sup>*\<^sup>* (seen_by sys r) (seen_by sys' r)"
  using assms
proof (induction rule: rtranclp_induct)
  case (step y z)
  have "hub_step V R (seen_by y r) (seen_by z r)" using Writing [of V "seen_by y r" z R] step(2) by (simp add: seen_by_def)
  with step.IH show ?case by (rule rtranclp.rtrancl_into_rtrancl)
qed simp

lemma readers_run:
  assumes "(reader_step R)\<^sup>*\<^sup>* r r'" "\<And>q. q \<in> set (parcels R) \<Longrightarrow> settled V sys q"
  shows "(hub_step V R)\<^sup>*\<^sup>* (seen_by (sys\<lparr>shared := r_world r\<rparr>) r) (seen_by (sys\<lparr>shared := r_world r'\<rparr>) r')"
  using assms(1)
proof (induction rule: rtranclp_induct)
  case (step y z)
  have "hub_step V R (seen_by (sys\<lparr>shared := r_world y\<rparr>) y) (seen_by (sys\<lparr>shared := r_world z\<rparr>) z)"
    using Reading [of R "seen_by (sys\<lparr>shared := r_world y\<rparr>) y" z V] step(2) assms(2)
    by (simp add: seen_by_def asks_settled_def settled_def)
  with step.IH show ?case by (rule rtranclp.rtrancl_into_rtrancl)
qed simp

lemma clients_and_reader: "together two_clients middle_reader"
proof -
  have "readable middle_reader" using local_basket_laws memory_io_laws by (simp add: readable_def)
  then show ?thesis
    using two_clients_proper
    by (auto simp: together_def two_parcels_def sample_parcel_def key_of_def temp_file_def temp_suffix_def target_file_def
        memory_io_def local_basket_def to_string.simps digit_char_def apart_def inside_def payload_def part_of_def slice_def two_data_def)
qed

definition "hub_before = seen_by run_start ask_start"
definition "hub_asked = seen_by (way_waited\<lparr>shared := r_world ask_made\<rparr>) ask_made"
definition "hub_answered = seen_by (way_waited\<lparr>shared := r_world ask_answered\<rparr>) ask_answered"
definition "hub_served = seen_by (way_waited\<lparr>shared := r_world ask_served\<rparr>) ask_served"

lemma hub_starts: "hub_start two_clients middle_reader hub_before"
  using run_starts
  by (simp add: hub_start_def hub_before_def seen_by_def ask_defs run_start_def local_store_def fun_eq_iff two_parcels_def
      apart_def sample_parcel_def target_file_def)

lemma middle_settled: "settled two_clients way_waited middle_parcel"
  by (auto simp: settled_def way_defs two_parcels_def apart_def sample_parcel_def target_file_def key_of_def)

lemma const_upd: "(\<lambda>_. x)(k := x) = (\<lambda>_. x)"
  by auto

lemma hub_reaches:
  "(hub_step two_clients middle_reader)\<^sup>*\<^sup>* hub_before hub_asked" "(hub_step two_clients middle_reader)\<^sup>*\<^sup>* hub_before hub_served"
proof -
  note step = rtranclp.rtrancl_into_rtrancl [where r = "reader_step middle_reader"]
  have "seen_by way_waited ask_start = seen_by (way_waited\<lparr>shared := r_world ask_start\<rparr>) ask_start"
    by (simp add: seen_by_def way_defs ask_defs local_store_def const_upd)
  with writers_run [OF way_reaches, of middle_reader ask_start]
  have w: "(hub_step two_clients middle_reader)\<^sup>*\<^sup>* hub_before (seen_by (way_waited\<lparr>shared := r_world ask_start\<rparr>) ask_start)"
    by (simp add: hub_before_def)
  have r: "(reader_step middle_reader)\<^sup>*\<^sup>* ask_start ask_made" using ask_make by blast
  have "(reader_step middle_reader)\<^sup>*\<^sup>* ask_made ask_served"
    by (rule step [OF step [OF step [OF step [OF rtranclp.rtrancl_refl conjunct1 [OF answer_step_is_step [OF ask_pick]]]
          conjunct1 [OF answer_step_is_step [OF ask_announce]]] conjunct1 [OF answer_step_is_step [OF ask_answer]]] ask_poll])
  with r have s: "(reader_step middle_reader)\<^sup>*\<^sup>* ask_start ask_served" by (rule rtranclp_trans)
  have all: "settled two_clients way_waited q" if "q \<in> set (parcels middle_reader)" for q
    using that middle_settled by simp
  show "(hub_step two_clients middle_reader)\<^sup>*\<^sup>* hub_before hub_asked"
    unfolding hub_asked_def by (rule rtranclp_trans [OF w readers_run [OF r all]])
  show "(hub_step two_clients middle_reader)\<^sup>*\<^sup>* hub_before hub_served"
    unfolding hub_served_def by (rule rtranclp_trans [OF w readers_run [OF s all]])
qed

section \<open>Properties\<close>

text \<open>
  C2. The two paths compose: publishers, write jobs, subscribers and the read job on one warehouse and one storage, in
  any interleaving, refine the product of the lives of the parcels and of the requests; every further step of any
  process is one step of one of the two specifications and leaves the other where it was.
\<close>

theorem hub_refines:
  assumes "together V R" "hub_start V R h0" "(hub_step V R)\<^sup>*\<^sup>* h0 h"
  shows "\<exists>a b. either_step\<^sup>*\<^sup>* (unborn, \<lambda>_. Idle) (a, b) \<and> tracks V (writers h) a \<and> follows R (readers h) b
    \<and> (\<forall>h'. hub_step V R h h' \<longrightarrow> (\<exists>a' b'. tracks V (writers h') a' \<and> follows R (readers h') b'
         \<and> (life_step a a' \<and> b' = b \<or> a' = a \<and> request_step b b')))"
proof -
  obtain a b where ab: "either_step\<^sup>*\<^sup>* (unborn, \<lambda>_. Idle) (a, b)" "hub_tracks V R h (a, b)"
    using hub_tracked [OF assms] .
  have "\<exists>a' b'. tracks V (writers h') a' \<and> follows R (readers h') b' \<and> (life_step a a' \<and> b' = b \<or> a' = a \<and> request_step b b')"
    if s: "hub_step V R h h'" for h'
  proof -
    obtain cd where cd: "either_step (a, b) cd" "hub_tracks V R h' cd" using hub_simulates [OF s] assms(1) ab(2) by blast
    then show ?thesis by cases (use cd(2) hub_tracksD in blast)+
  qed
  with ab(1) hub_tracksD(1,2) [OF ab(2)] show ?thesis by blast
qed

theorem hub_refines_witness:
  "\<exists>a b. either_step\<^sup>*\<^sup>* (unborn, \<lambda>_. Idle) (a, b) \<and> tracks two_clients (writers hub_served) a \<and> follows middle_reader (readers hub_served) b"
  using hub_refines [OF clients_and_reader hub_starts hub_reaches(2)] by blast

text \<open>
  C1. What was published is what is read: a subscriber that asks for a part of a published parcel, with its own
  parcel and under any interleaving of both sides, has asked only after the publisher's \<open>Wait\<close>, has not failed, and when it is served
  its buffer starts with that part of the published bytes; whoever waits next finds them too.
\<close>

theorem published_is_read:
  assumes "together V R" "hub_start V R h0" "(hub_step V R)\<^sup>*\<^sup>* h0 h"
    and "p \<in> set (parcels V)" "q \<in> set (parcels R)" "\<not> apart (io V) q p"
  shows "(asked (readers h) (key_of q) \<notin> {Not_asked, Turned_away} \<longrightarrow> client (writers h) (key_of p) = Waited)
    \<and> asked (readers h) (key_of q) \<noteq> Failed
    \<and> (\<forall>b. asked (readers h) (key_of q) = Served b \<longrightarrow>
         (let c = cs_of (basket V) (part_of (take (unat (data_size p)) (bytes V (key_of p))) p q)
          in length c \<le> length b \<and> take (length c) b = c))
    \<and> (asked (readers h) (key_of q) = Asked \<and> Wait (basket V) (\<lambda>n s. s) q (fst (shared (writers h))) \<noteq> None \<longrightarrow>
         data_of (basket V) (fst (shared (writers h))) (key_of q) = Some (part_of (take (unat (data_size p)) (bytes V (key_of p))) p q))"
proof -
  obtain a b where ab: "hub_tracks V R h (a, b)" using hub_tracked [OF assms(1-3)] by blast
  note ht = hub_tracksD [OF ab] and tg = togetherD [OF assms(1)]
  note f = followsD [OF ht(2)]
  let ?k = "key_of q"
  have part: "payload R q = part_of (take (unat (data_size p)) (bytes V (key_of p))) p q"
    using tg(8) [OF assms(4-6)] by (simp add: payload_def)
  have s: "serves R (shared (writers h)) (b ?k) q" using f(5) [OF assms(5)] by (simp add: ht(3))
  have "client (writers h) (key_of p) = Waited" if "b ?k \<notin> {Idle, Denied}"
    using ht(5) [OF assms(5) that] assms(4,6) by (auto simp: settled_def)
  moreover have "delivered R q buf" if "asked (readers h) ?k = Served buf" for buf
    using s that by (simp add: f(1) asks_simps serves_def)
  moreover have "b ?k = Ready" if "asked (readers h) ?k = Asked" "Wait (basket V) (\<lambda>n s. s) q (fst (shared (writers h))) \<noteq> None"
    using answered_only(2) [OF tg(2) ht(2) assms(5)] that by (simp add: ht(3) tg(3))
  ultimately show ?thesis
    using s by (auto simp: f(1) asks_simps delivered_def Let_def part tg(3) serves_def)
qed

theorem published_is_read_witness:
  "client (writers hub_served) (key_of first_parcel) = Waited \<and> asked (readers hub_served) (key_of middle_parcel) = Served ''bc''
    \<and> part_of ''abcd'' first_parcel middle_parcel = ''bc''"
proof -
  have s: "asked (readers hub_served) (key_of middle_parcel) = Served ''bc''"
    by (simp add: hub_served_def seen_by_def ask_defs)
  moreover have part: "part_of ''abcd'' first_parcel middle_parcel = ''bc''" by (simp add: part_of_def slice_def)
  moreover have "\<not> apart memory_io middle_parcel first_parcel" by (simp add: apart_def target_file_def)
  note published_is_read [OF clients_and_reader hub_starts hub_reaches(2) _ _ this [folded two_clients_simps(2)]]
  then have "client (writers hub_served) (key_of first_parcel) = Waited" using s by simp
  ultimately show ?thesis by simp
qed

text \<open>
  C8. Both sides come to an end together: whatever clients did before, the tasks of all jobs make at most three steps for
  each parcel, published or asked for; when none is left, every accepted parcel is in its file, and every subscriber that was
  accepted and not yet served finds its parcel DONE and its bytes in the warehouse.
\<close>

theorem hub_completes:
  assumes "together V R" "hub_start V R h0" "(hub_step V R)\<^sup>*\<^sup>* h0 h" "(hub_job V R ^^ n) h h'"
  shows "n \<le> 3 * (length (parcels V) + length (parcels R))
    \<and> ((\<nexists>h''. hub_job V R h' h'') \<longrightarrow>
         (\<forall>p \<in> set (parcels V). client (writers h) (key_of p) \<notin> {Before, Refused} \<longrightarrow> held V (shared (writers h')) In_file p)
         \<and> (\<forall>q \<in> set (parcels R). asked (readers h) (key_of q) = Asked \<longrightarrow>
              data_of (basket V) (fst (shared (writers h'))) (key_of q) = Some (payload R q)
              \<and> map_option status (state_of (basket V) (fst (shared (writers h'))) (key_of q)) = Some DONE))"
proof -
  obtain a b where ab: "hub_tracks V R h (a, b)" using hub_tracked [OF assms(1-3)] by blast
  obtain cd where cd: "hub_tracks V R h' cd" "hub_left V R cd + n \<le> hub_left V R (a, b)" "callers h' = callers h"
    using both_jobs.jobs_work [OF assms(4)] assms(1) ab by blast
  obtain c d where c: "cd = (c, d)" by (cases cd)
  note ht = hub_tracksD [OF cd(1) [unfolded c]] and tg = togetherD [OF assms(1)]
  have same: "client (writers h') = client (writers h)" "asked (readers h') = asked (readers h)"
    using cd(3) by (simp_all add: callers_def)
  have "held V (shared (writers h')) In_file p"
    if "\<nexists>h''. hub_job V R h' h''" "p \<in> set (parcels V)" "client (writers h) (key_of p) \<notin> {Before, Refused}" for p
  proof -
    note t = tracksD [OF ht(1)]
    have "place c (key_of p) \<noteq> Outside" using life_invD(1) [OF t(2)] that(3) by (simp add: same flip: t(1))
    then have "place c (key_of p) = In_file" using jobs_idle [OF hub_idle(1) [OF that(1)] tg(1) ht(1), of "key_of p"] by simp
    then show ?thesis using t(6) [OF that(2)] by simp
  qed
  moreover have "serves R (shared (writers h')) Ready q"
    if "\<nexists>h''. hub_job V R h' h''" "q \<in> set (parcels R)" "asked (readers h) (key_of q) = Asked" for q
  proof -
    have "asks (d (key_of q)) = Asked" using that(3) by (simp add: followsD(1) [OF ht(2)] flip: same(2))
    with readers_idle [OF hub_idle(2) [OF that(1)] tg(2) ht(2), of "key_of q"] have "d (key_of q) = Ready" by (simp add: asks_simps)
    with followsD(5) [OF ht(2) that(2)] show ?thesis by (simp add: ht(3))
  qed
  moreover have "n \<le> 3 * (length (parcels V) + length (parcels R))" using cd(2) hub_left_bound [of V R "(a, b)"] by linarith
  ultimately show ?thesis by (simp add: serves_def tg(3))
qed


theorem hub_completes_witness:
  "(\<nexists>h. hub_job two_clients middle_reader hub_answered h) \<and> held two_clients (shared (writers hub_answered)) In_file first_parcel
    \<and> data_of local_basket (fst (shared (writers hub_answered))) (key_of middle_parcel) = Some ''bc''"
proof -
  have j: "hub_job two_clients middle_reader (seen_by (way_waited\<lparr>shared := r_world y\<rparr>) y) (seen_by (way_waited\<lparr>shared := r_world z\<rparr>) z)"
    if "answer_step middle_reader y z" for y z
    using Read_job [of middle_reader "seen_by (way_waited\<lparr>shared := r_world y\<rparr>) y" z two_clients] that by (simp add: seen_by_def)
  have "(hub_job two_clients middle_reader ^^ 3) hub_asked hub_answered"
    using j [OF ask_pick] j [OF ask_announce] j [OF ask_answer] by (auto simp: numeral_3_eq_3 hub_asked_def hub_answered_def)
  note drain = hub_completes [OF clients_and_reader hub_starts hub_reaches(1) this]
  have none: "to_write local_basket (fst (shared (writers hub_answered))) srv = []"
    "to_read local_basket (fst (shared (writers hub_answered))) srv = []" for srv
    by (simp_all add: hub_answered_def seen_by_def ask_defs local_store_def)
  have "\<not> job_step two_clients (writers hub_answered) sys" for sys
  proof
    assume "job_step two_clients (writers hub_answered) sys"
    then show False
    proof cases
      case (Take_some srv es s)
      with write_parcels_taken [OF local_basket_laws, of srv "fst (shared (writers hub_answered))"] none(1) [of srv] show False by auto
    qed (simp_all add: hub_answered_def seen_by_def way_defs)
  qed
  moreover have "\<not> answer_step middle_reader (readers hub_answered) r" for r
  proof
    assume "answer_step middle_reader (readers hub_answered) r"
    then show False
    proof cases
      case (Pick_some srv es s)
      have "r_world (readers hub_answered) = shared (writers hub_answered)" by (simp add: hub_answered_def seen_by_def)
      with Pick_some read_parcels_taken [OF local_basket_laws, of srv "fst (shared (writers hub_answered))"] none(2) [of srv] show False by auto
    qed (simp_all add: hub_answered_def seen_by_def ask_defs)
  qed
  ultimately have "\<nexists>h. hub_job two_clients middle_reader hub_answered h" by (auto elim: hub_job.cases)
  moreover have "client (writers hub_asked) (key_of first_parcel) = Waited" "asked (readers hub_asked) (key_of middle_parcel) = Asked"
    "payload middle_reader middle_parcel = ''bc''"
    by (simp_all add: hub_asked_def seen_by_def way_defs ask_defs payload_def)
  ultimately show ?thesis using drain by simp
qed

end
