(* ===== verification/Config.thy ===== *)
theory Config
  imports Prelude
begin

text \<open>
  The configuration (\<open>include/rhea/common/configuration_manager.h\<close>) and the client service
  (\<open>include/rhea/client_service/rhea_client.h\<close>, \<open>src/rhea/client_service\<close>), and the main programs of the service and of the
  regulator with their argument classes. The JSON document, its
  accessor \<open>config\<close>, \<open>GetServers\<close> and the two default configurations of basket are defined in
  submodules: parameters. \<open>BASKET_CONF\<close> is the record of the fields the sources set or read.
\<close>

section \<open>State\<close>

record conf =
  BYTEFLOW_REGULATOR_DIR :: string
  BYTEFLOW_REGULATOR_SERVER_PORT :: u16
  BYTEFLOW_REGULATOR_RPC_THREADS :: u16
  BYTEFLOW_REGULATOR_HOST :: string
  BYTEFLOW_REGULATOR_COUNT :: u16
  RHEA_CLIENT_SERVICE_DIR :: string
  RHEA_CLIENT_SERVICE_PORT :: u16
  RHEA_CLIENT_SERVICE_RPC_THREADS :: u16
  RHEA_CLIENT_SERVICE_HOST :: string
  RHEA_CLIENT_SERVICE_COUNT :: u16
  BYTEFLOW_SIZE_MAP_NAME :: string
  BYTEFLOW_STAT_PUSH_INTERVAL :: u64
  BYTEFLOW_UPDATE_INTERVAL :: u64
  BYTEFLOW_UPDATE_VARIATION :: u16
  BYTEFLOW_UPDATE_STEP :: u64

text \<open>The two counts are not set by the constructor: their first values are arguments.\<close>

definition ConfigurationManager :: "u16 \<Rightarrow> u16 \<Rightarrow> conf" where
  "ConfigurationManager regulator_count service_count =
     \<lparr>BYTEFLOW_REGULATOR_DIR = ''/dev/shm/rhea/rhea_byteflow_regulator'',
      BYTEFLOW_REGULATOR_SERVER_PORT = 9000,
      BYTEFLOW_REGULATOR_RPC_THREADS = 4,
      BYTEFLOW_REGULATOR_HOST = ''${HOME}/projects/rhea/scripts/local/byteflow_regulator'',
      BYTEFLOW_REGULATOR_COUNT = regulator_count,
      RHEA_CLIENT_SERVICE_DIR = ''/dev/shm/rhea/rhea_client_service'',
      RHEA_CLIENT_SERVICE_PORT = 12000,
      RHEA_CLIENT_SERVICE_RPC_THREADS = 4,
      RHEA_CLIENT_SERVICE_HOST = ''${HOME}/projects/rhea/scripts/local/client_service'',
      RHEA_CLIENT_SERVICE_COUNT = service_count,
      BYTEFLOW_SIZE_MAP_NAME = ''test_byteflow_size_map'',
      BYTEFLOW_STAT_PUSH_INTERVAL = 100,
      BYTEFLOW_UPDATE_INTERVAL = 100,
      BYTEFLOW_UPDATE_VARIATION = 100,
      BYTEFLOW_UPDATE_STEP = 5\<rparr>"

record basket_conf =
  RPC_PORT :: u16
  RPC_THREADS :: u16
  MEMORY_ALLOCATED :: u64
  BACKED_FILE_DIR :: string
  NUM_SERVERS :: nat

text \<open>
  What is not in this repository: the accessors of the document (the last argument is the
  current value), the host file reader, and basket's defaults for a host file.
\<close>

record 'd conf_env =
  config_string :: "'d \<Rightarrow> string \<Rightarrow> string \<Rightarrow> string"
  config_u16 :: "'d \<Rightarrow> string \<Rightarrow> u16 \<Rightarrow> u16"
  config_u64 :: "'d \<Rightarrow> string \<Rightarrow> u64 \<Rightarrow> u64"
  servers_of :: "string \<Rightarrow> string list"
  DefaultClient :: "string \<Rightarrow> basket_conf \<Rightarrow> basket_conf"
  DefaultServer :: "string \<Rightarrow> basket_conf \<Rightarrow> basket_conf"

section \<open>Loading\<close>

text \<open>
  \<open>LoadChildConfigurations\<close>; the result has the directories it creates, in order.
\<close>

definition LoadChildConfigurations :: "'d conf_env \<Rightarrow> 'd \<Rightarrow> conf \<Rightarrow> conf \<times> string list" where
  "LoadChildConfigurations E doc c =
     (let c = c\<lparr>BYTEFLOW_SIZE_MAP_NAME := config_string E doc ''BYTEFLOW_SIZE_MAP_NAME'' (BYTEFLOW_SIZE_MAP_NAME c)\<rparr>;
          c = c\<lparr>BYTEFLOW_STAT_PUSH_INTERVAL := config_u64 E doc ''BYTEFLOW_STAT_PUSH_INTERVAL'' (BYTEFLOW_STAT_PUSH_INTERVAL c)\<rparr>;
          c = c\<lparr>RHEA_CLIENT_SERVICE_DIR := config_string E doc ''RHEA_CLIENT_SERVICE_DIR'' (RHEA_CLIENT_SERVICE_DIR c)\<rparr>;
          c = c\<lparr>BYTEFLOW_REGULATOR_DIR := config_string E doc ''BYTEFLOW_REGULATOR_DIR'' (BYTEFLOW_REGULATOR_DIR c)\<rparr>;
          c = c\<lparr>BYTEFLOW_REGULATOR_SERVER_PORT := config_u16 E doc ''BYTEFLOW_REGULATOR_SERVER_PORT'' (BYTEFLOW_REGULATOR_SERVER_PORT c)\<rparr>;
          c = c\<lparr>BYTEFLOW_REGULATOR_RPC_THREADS := config_u16 E doc ''BYTEFLOW_REGULATOR_RPC_THREADS'' (BYTEFLOW_REGULATOR_RPC_THREADS c)\<rparr>;
          c = c\<lparr>BYTEFLOW_REGULATOR_HOST := config_string E doc ''BYTEFLOW_REGULATOR_HOST'' (BYTEFLOW_REGULATOR_HOST c)\<rparr>;
          c = c\<lparr>RHEA_CLIENT_SERVICE_PORT := config_u16 E doc ''RHEA_CLIENT_SERVICE_PORT'' (RHEA_CLIENT_SERVICE_PORT c)\<rparr>;
          c = c\<lparr>RHEA_CLIENT_SERVICE_RPC_THREADS := config_u16 E doc ''RHEA_CLIENT_SERVICE_RPC_THREADS'' (RHEA_CLIENT_SERVICE_RPC_THREADS c)\<rparr>;
          c = c\<lparr>RHEA_CLIENT_SERVICE_HOST := config_string E doc ''RHEA_CLIENT_SERVICE_HOST'' (RHEA_CLIENT_SERVICE_HOST c)\<rparr>;
          c = c\<lparr>BYTEFLOW_UPDATE_INTERVAL := config_u64 E doc ''BYTEFLOW_UPDATE_INTERVAL'' (BYTEFLOW_UPDATE_INTERVAL c)\<rparr>;
          c = c\<lparr>BYTEFLOW_UPDATE_VARIATION := config_u16 E doc ''BYTEFLOW_UPDATE_VARIATION'' (BYTEFLOW_UPDATE_VARIATION c)\<rparr>;
          c = c\<lparr>BYTEFLOW_UPDATE_STEP := config_u64 E doc ''BYTEFLOW_UPDATE_STEP'' (BYTEFLOW_UPDATE_STEP c)\<rparr>;
          dirs = [RHEA_CLIENT_SERVICE_DIR c, BYTEFLOW_REGULATOR_DIR c];
          c = c\<lparr>RHEA_CLIENT_SERVICE_COUNT := of_nat (length (servers_of E (RHEA_CLIENT_SERVICE_HOST c)))\<rparr>
      in (c, dirs))"

text \<open>The inherited \<open>LoadConfiguration\<close> runs it on the document of the configuration file, if any.\<close>

definition LoadConfiguration :: "'d conf_env \<Rightarrow> 'd option \<Rightarrow> conf \<Rightarrow> conf" where
  "LoadConfiguration E doc c = (case doc of None \<Rightarrow> c | Some d \<Rightarrow> fst (LoadChildConfigurations E d c))"

section \<open>The four configurations\<close>

definition ConfigureByteflowRegulatorClient ::
  "'d conf_env \<Rightarrow> 'd option \<Rightarrow> conf \<times> basket_conf \<Rightarrow> conf \<times> basket_conf" where
  "ConfigureByteflowRegulatorClient E doc cb =
     (let c = LoadConfiguration E doc (fst cb);
          b = DefaultClient E (c_str (BYTEFLOW_REGULATOR_HOST c)) (snd cb);
          b = b\<lparr>RPC_PORT := BYTEFLOW_REGULATOR_SERVER_PORT c\<rparr>;
          c = c\<lparr>BYTEFLOW_REGULATOR_COUNT := of_nat (NUM_SERVERS b)\<rparr>
      in (c, b))"

definition ConfigureByteflowRegulatorServer ::
  "'d conf_env \<Rightarrow> 'd option \<Rightarrow> conf \<times> basket_conf \<Rightarrow> conf \<times> basket_conf" where
  "ConfigureByteflowRegulatorServer E doc cb =
     (let c = LoadConfiguration E doc (fst cb);
          b = (snd cb)\<lparr>RPC_THREADS := BYTEFLOW_REGULATOR_RPC_THREADS c\<rparr>;
          b = b\<lparr>MEMORY_ALLOCATED := 1024 * 1024 * 1024\<rparr>;
          b = b\<lparr>BACKED_FILE_DIR := BYTEFLOW_REGULATOR_DIR c\<rparr>;
          b = DefaultServer E (c_str (BYTEFLOW_REGULATOR_HOST c)) b;
          c = c\<lparr>BYTEFLOW_REGULATOR_COUNT := of_nat (NUM_SERVERS b)\<rparr>;
          b = b\<lparr>RPC_PORT := BYTEFLOW_REGULATOR_SERVER_PORT c\<rparr>
      in (c, b))"

definition ConfigureRheaClient ::
  "'d conf_env \<Rightarrow> 'd option \<Rightarrow> conf \<times> basket_conf \<Rightarrow> conf \<times> basket_conf" where
  "ConfigureRheaClient E doc cb =
     (let c = LoadConfiguration E doc (fst cb);
          b = DefaultClient E (c_str (RHEA_CLIENT_SERVICE_HOST c)) (snd cb);
          b = b\<lparr>RPC_PORT := RHEA_CLIENT_SERVICE_PORT c\<rparr>;
          c = c\<lparr>RHEA_CLIENT_SERVICE_COUNT := of_nat (NUM_SERVERS b)\<rparr>
      in (c, b))"

definition ConfigureRheaClientService ::
  "'d conf_env \<Rightarrow> 'd option \<Rightarrow> conf \<times> basket_conf \<Rightarrow> conf \<times> basket_conf" where
  "ConfigureRheaClientService E doc cb =
     (let c = LoadConfiguration E doc (fst cb);
          b = (snd cb)\<lparr>RPC_THREADS := RHEA_CLIENT_SERVICE_RPC_THREADS c\<rparr>;
          b = b\<lparr>MEMORY_ALLOCATED := 1024 * 1024 * 1024\<rparr>;
          b = b\<lparr>BACKED_FILE_DIR := RHEA_CLIENT_SERVICE_DIR c\<rparr>;
          b = DefaultServer E (c_str (RHEA_CLIENT_SERVICE_HOST c)) b;
          c = c\<lparr>RHEA_CLIENT_SERVICE_COUNT := of_nat (NUM_SERVERS b)\<rparr>;
          b = b\<lparr>RPC_PORT := RHEA_CLIENT_SERVICE_PORT c\<rparr>
      in (c, b))"

section \<open>The client service\<close>

text \<open>
  \<open>RheaClient\<close> opens the four containers of the client library under these names and then only
  waits for its stop signal: the list has one entry per time-out before it.
\<close>

definition RheaClient_containers :: "string list" where
  "RheaClient_containers = [''DATA_WAREHOUSE'', ''WRITE_QUEUE'', ''READ_QUEUE'', ''PARSEL_STATE'']"

definition Client_containers :: "string list" where
  "Client_containers = [''DATA_WAREHOUSE'', ''WRITE_QUEUE'', ''READ_QUEUE'', ''PARSEL_STATE'']"

fun RheaClient_RunInternal :: "unit list \<Rightarrow> nat" where
  "RheaClient_RunInternal [] = 0"
| "RheaClient_RunInternal (t # ts) = Suc (RheaClient_RunInternal ts)"

section \<open>The main programs\<close>

text \<open>
  \<open>common::args::ArgMap\<close> is not in this repository: an option with its type and default, the pass over the
  arguments, and the value of an option.
\<close>

datatype arg_type = kString

record 'a arg_map =
  no_options :: 'a
  AddOpt :: "string \<Rightarrow> arg_type \<Rightarrow> string \<Rightarrow> 'a \<Rightarrow> 'a"
  ArgIter :: "string list \<Rightarrow> 'a \<Rightarrow> 'a"
  GetStringOpt :: "'a \<Rightarrow> string \<Rightarrow> string"

definition VerifyServerArgs :: "'a \<Rightarrow> 'a" where
  "VerifyServerArgs args = args"

definition RheaServerArgs :: "'a arg_map \<Rightarrow> string list \<Rightarrow> 'a" where
  "RheaServerArgs A argv =
     (let args = AddOpt A ''-conf'' kString '''' (no_options A);
          args = ArgIter A argv args
      in VerifyServerArgs args)"

definition VerifyClientArgs :: "'a \<Rightarrow> 'a" where
  "VerifyClientArgs args = args"

definition RheaClientArgs :: "'a arg_map \<Rightarrow> string list \<Rightarrow> 'a" where
  "RheaClientArgs A argv =
     (let args = AddOpt A ''-conf'' kString '''' (no_options A);
          args = ArgIter A argv args
      in VerifyClientArgs args)"

text \<open>
  A process: the configuration files of the two singletons, the configurations of this repository and of basket,
  and what it did outside them. \<open>COMMON_CONF\<close> loads its own settings, which are not those of this repository.
\<close>

datatype process_action = Mpi_init | Mpi_barrier | Load_common string | Run_daemon string

record program =
  common_file :: string
  rhea_file :: string
  rhea :: conf
  basket_of :: basket_conf
  actions :: "process_action list"

definition act :: "process_action \<Rightarrow> program \<Rightarrow> program" where
  "act a P = P\<lparr>actions := actions P @ [a]\<rparr>"

definition regulator_main :: "'a arg_map \<Rightarrow> string list \<Rightarrow> program \<Rightarrow> int \<times> program" where
  "regulator_main A argv P =
     (let P = act Mpi_init P;
          P = act Mpi_barrier P;
          args = RheaServerArgs A argv;
          P = P\<lparr>rhea_file := GetStringOpt A args ''-conf''\<rparr>;
          P = P\<lparr>basket_of := (basket_of P)\<lparr>BACKED_FILE_DIR := BYTEFLOW_REGULATOR_DIR (rhea P)\<rparr>\<rparr>;
          log = ''./single_node_byteflow_regulator.log'';
          P = act (Run_daemon log) P
      in (0, P))"

text \<open>The documents are those the configuration files hold.\<close>

definition client_service_main ::
  "'d conf_env \<Rightarrow> (string \<Rightarrow> 'd option) \<Rightarrow> 'a arg_map \<Rightarrow> string list \<Rightarrow> program \<Rightarrow> int \<times> program" where
  "client_service_main E docs A argv P =
     (let P = act Mpi_init P;
          P = act Mpi_barrier P;
          args = RheaClientArgs A argv;
          P = P\<lparr>common_file := GetStringOpt A args ''-conf''\<rparr>;
          P = P\<lparr>rhea_file := GetStringOpt A args ''-conf''\<rparr>;
          log = ''./single_node_byteflow_regulator.log'';
          P = act (Load_common (common_file P)) P;
          (c, b) = ConfigureRheaClientService E (docs (rhea_file P)) (rhea P, basket_of P);
          P = P\<lparr>rhea := c, basket_of := b\<rparr>;
          P = act (Run_daemon log) P
      in (0, P))"

text \<open>The configuration in the constructor of the regulator's server, which the daemon makes.\<close>

definition regulator_server_start :: "'d conf_env \<Rightarrow> (string \<Rightarrow> 'd option) \<Rightarrow> program \<Rightarrow> program" where
  "regulator_server_start E docs P =
     (let (c, b) = ConfigureByteflowRegulatorServer E (docs (rhea_file P)) (rhea P, basket_of P)
      in P\<lparr>rhea := c, basket_of := b\<rparr>)"

section \<open>Properties\<close>

lemmas configure_defs [model_defs] = ConfigureByteflowRegulatorClient_def ConfigureByteflowRegulatorServer_def
  ConfigureRheaClient_def ConfigureRheaClientService_def

lemmas main_defs = regulator_main_def client_service_main_def regulator_server_start_def act_def
  RheaServerArgs_def RheaClientArgs_def VerifyServerArgs_def VerifyClientArgs_def

text \<open>
  The processes of one deployment meet: when both main programs are started with the same arguments, they read
  the same file, and a client of the regulator and a client of the library that load it have the port their
  server listens on. The client service is configured before its daemon runs; the regulator's main program
  leaves the configuration as it was, and its server's constructor loads the file. Both servers count the hosts of their
  own host file, and keep their files in their own configured directory if basket's defaults keep it.
\<close>

theorem endpoints_agree:
  fixes E :: "'d conf_env" and A :: "'a arg_map"
  shows "let (r, p) = regulator_main A argv P; s = regulator_server_start E docs p;
       (r', v) = client_service_main E docs A argv P';
       doc = docs (GetStringOpt A (ArgIter A argv (AddOpt A ''-conf'' kString '''' (no_options A))) ''-conf'');
       (cc, bc) = ConfigureByteflowRegulatorClient E doc (rhea P, b);
       (cl, bl) = ConfigureRheaClient E doc (rhea P', b)
   in r = 0 \<and> r' = 0 \<and> rhea_file p = rhea_file v \<and> rhea p = rhea P
      \<and> RPC_PORT bc = RPC_PORT (basket_of s) \<and> RPC_PORT bl = RPC_PORT (basket_of v)
      \<and> RPC_PORT bc = BYTEFLOW_REGULATOR_SERVER_PORT (LoadConfiguration E doc (rhea P))
      \<and> RPC_PORT bl = RHEA_CLIENT_SERVICE_PORT (LoadConfiguration E doc (rhea P'))
      \<and> BYTEFLOW_REGULATOR_COUNT (rhea s) = of_nat (NUM_SERVERS (basket_of s))
      \<and> RHEA_CLIENT_SERVICE_COUNT (rhea v) = of_nat (NUM_SERVERS (basket_of v))
      \<and> ((\<forall>h x. BACKED_FILE_DIR (DefaultServer E h x) = BACKED_FILE_DIR x) \<longrightarrow>
           BACKED_FILE_DIR (basket_of s) = BYTEFLOW_REGULATOR_DIR (LoadConfiguration E doc (rhea P))
           \<and> BACKED_FILE_DIR (basket_of v) = RHEA_CLIENT_SERVICE_DIR (LoadConfiguration E doc (rhea P')))"
  by (simp add: model_defs main_defs Let_def)

text \<open>A document is a list of entries; an absent key keeps the current value.\<close>

definition table_env :: "(string \<times> string + string \<times> nat) list conf_env" where
  "table_env =
     \<lparr>config_string = (\<lambda>d k old. case map_of (List.map_filter (\<lambda>x. case x of Inl e \<Rightarrow> Some e | _ \<Rightarrow> None) d) k of
        None \<Rightarrow> old | Some v \<Rightarrow> v),
      config_u16 = (\<lambda>d k old. case map_of (List.map_filter (\<lambda>x. case x of Inr e \<Rightarrow> Some e | _ \<Rightarrow> None) d) k of
        None \<Rightarrow> old | Some n \<Rightarrow> of_nat n),
      config_u64 = (\<lambda>d k old. case map_of (List.map_filter (\<lambda>x. case x of Inr e \<Rightarrow> Some e | _ \<Rightarrow> None) d) k of
        None \<Rightarrow> old | Some n \<Rightarrow> of_nat n),
      servers_of = (\<lambda>h. [h]),
      DefaultClient = (\<lambda>h b. b\<lparr>NUM_SERVERS := 1, RPC_PORT := 0\<rparr>),
      DefaultServer = (\<lambda>h b. b\<lparr>NUM_SERVERS := 1, RPC_PORT := 0\<rparr>)\<rparr>"

text \<open>Arguments in pairs, for an instance.\<close>

fun pairs_of :: "string list \<Rightarrow> (string \<times> string) list" where
  "pairs_of (a # b # rest) = (a, b) # pairs_of rest"
| "pairs_of _ = []"

definition pair_args :: "(string \<times> string) list arg_map" where
  "pair_args = \<lparr>no_options = [], AddOpt = (\<lambda>n t d os. os @ [(n, d)]), ArgIter = (\<lambda>argv os. pairs_of (tl argv) @ os),
     GetStringOpt = (\<lambda>os n. case map_of os n of None \<Rightarrow> '''' | Some v \<Rightarrow> v)\<rparr>"

definition new_process :: program where
  "new_process = \<lparr>common_file = '''', rhea_file = '''', rhea = ConfigurationManager 0 0,
     basket_of = \<lparr>RPC_PORT = 1, RPC_THREADS = 1, MEMORY_ALLOCATED = 0, BACKED_FILE_DIR = '''', NUM_SERVERS = 0\<rparr>, actions = []\<rparr>"

definition sample_docs :: "string \<Rightarrow> (string \<times> string + string \<times> nat) list option" where
  "sample_docs f = Some [Inr (''BYTEFLOW_REGULATOR_SERVER_PORT'', 9100), Inl (''BYTEFLOW_REGULATOR_DIR'', f)]"

theorem endpoints_agree_witness:
  "let p = snd (regulator_main pair_args [''rhea'', ''-conf'', ''a.json''] new_process);
       s = regulator_server_start table_env sample_docs p
   in rhea_file p = ''a.json'' \<and> RPC_PORT (basket_of s) = 9100 \<and> BACKED_FILE_DIR (basket_of s) = ''a.json''"
proof -
  have conf: "GetStringOpt pair_args (ArgIter pair_args [''rhea'', ''-conf'', ''a.json'']
      (AddOpt pair_args ''-conf'' kString '''' (no_options pair_args))) ''-conf'' = ''a.json''"
    by (simp add: pair_args_def)
  have keeps: "BACKED_FILE_DIR (DefaultServer table_env h x) = BACKED_FILE_DIR x" for h x
    by (simp add: table_env_def)
  have loaded: "BYTEFLOW_REGULATOR_SERVER_PORT (LoadConfiguration table_env (sample_docs ''a.json'') (rhea new_process)) = 9100"
    "BYTEFLOW_REGULATOR_DIR (LoadConfiguration table_env (sample_docs ''a.json'') (rhea new_process)) = ''a.json''"
    by (simp_all add: LoadConfiguration_def LoadChildConfigurations_def sample_docs_def table_env_def Let_def List.map_filter_def)
  have "rhea_file (snd (regulator_main pair_args [''rhea'', ''-conf'', ''a.json''] new_process)) = ''a.json''"
    using conf by (simp add: main_defs Let_def)
  with endpoints_agree [where E = table_env and A = pair_args and argv = "[''rhea'', ''-conf'', ''a.json'']"
      and docs = sample_docs and P = new_process and P' = new_process and b = "basket_of new_process"] keeps
  show ?thesis unfolding Let_def case_prod_beta conf loaded by metis
qed

end
