(* ===== verification/Old_Codec.thy ===== *)
theory Old_Codec
  imports Codec
begin

text \<open>
  The events of the first version (\<open>old/basketCommon/include/basket/data_structure.h\<close>): \<open>Event\<close>,
  \<open>TaskEvent\<close> and their msgpack adaptors. Streams, objects and scalar adaptors are those of theory
  \<open>Codec\<close>.
\<close>

section \<open>Data\<close>

record task_event =
  task_node :: u32
  task_origin :: u16
  task_destination :: u32
  source :: string

record file_event =
  event_id :: u32
  fname :: string
  offset :: u16
  fdata :: string
  keyby :: u64

text \<open>Events are ordered by offset and hashed by file.\<close>

definition event_less :: "file_event \<Rightarrow> file_event \<Rightarrow> bool" where
  "event_less e f = (offset e < offset f)"

definition event_hash :: "(string \<Rightarrow> u64) \<Rightarrow> file_event \<Rightarrow> u64" where
  "event_hash hash_cs e = hash_cs (fname e)"

section \<open>Adaptors of \<open>bip::string\<close>\<close>

text \<open>The first version brings its own adaptors for the string of Boost's interprocess library.\<close>

definition old_convert_string :: "'v mobj \<Rightarrow> string \<Rightarrow> string result" where
  "old_convert_string ob v =
     (case ob of BIN_obj via \<Rightarrow> Inr via
      | STR_obj via \<Rightarrow> Inr via
      | _ \<Rightarrow> Inl Type_error)"

definition old_pack_string :: "string \<Rightarrow> 'v token list result" where
  "old_pack_string v =
     rbind (checked_size (length v)) (\<lambda>size. Inr ([Str_header size] @ [Str_body (take size v)]))"

definition old_object_string :: "string \<Rightarrow> 'v mobj result" where
  "old_object_string v = rbind (checked_size (length v)) (\<lambda>size. Inr (STR_obj (take size v)))"

definition old_zone_string :: "string \<Rightarrow> 'v mobj result" where
  "old_zone_string v =
     rbind (checked_size (length v)) (\<lambda>size.
     rbind (memcpy_into (replicate size (CHR 0x00)) v) (\<lambda>ptr. Inr (STR_obj ptr)))"

text \<open>They are the adaptors of the current version, so all that \<open>Codec\<close> shows of those holds for them.\<close>

lemma old_string_adaptors:
  "old_convert_string = convert_string" "old_pack_string = pack_string"
  "old_object_string = object_string" "old_zone_string = zone_string"
  by (simp_all add: fun_eq_iff old_convert_string_def convert_string_def old_pack_string_def pack_string_def
      old_object_string_def object_string_def old_zone_string_def zone_string_def split: mobj.split)

section \<open>Adaptors of \<open>TaskEvent\<close>\<close>

definition convert_task_event :: "'v scalars \<Rightarrow> 'v mobj \<Rightarrow> task_event \<Rightarrow> task_event result" where
  "convert_task_event sc ob input =
     rbind (rbind (elem ob 0) (dec_cs sc)) (\<lambda>v0. let input = input\<lparr>source := v0\<rparr> in
     rbind (rbind (elem ob 1) (dec_u32 sc)) (\<lambda>v1. let input = input\<lparr>task_node := v1\<rparr> in
     rbind (rbind (elem ob 2) (dec_u32 sc)) (\<lambda>v2. let input = input\<lparr>task_destination := v2\<rparr> in
     rbind (rbind (elem ob 3) (dec_u16 sc)) (\<lambda>v3. let input = input\<lparr>task_origin := v3\<rparr> in
     Inr input))))"

definition pack_task_event :: "'v scalars \<Rightarrow> task_event \<Rightarrow> 'v token list" where
  "pack_task_event sc input =
     [Array_header 4] @ [Item (enc_u32 sc (task_node input))] @ [Item (enc_u32 sc (task_destination input))]
     @ [Item (enc_u16 sc (task_origin input))] @ [Item (enc_cs sc (source input))]"

definition zone_task_event :: "'v scalars \<Rightarrow> task_event \<Rightarrow> 'v mobj" where
  "zone_task_event sc input =
     ARRAY_obj [Ext (enc_u32 sc (task_node input)), Ext (enc_u32 sc (task_destination input)),
       Ext (enc_u16 sc (task_origin input)), Ext (enc_cs sc (source input))]"

section \<open>Adaptors of \<open>Event\<close>\<close>

definition convert_event :: "'v scalars \<Rightarrow> 'v mobj \<Rightarrow> file_event \<Rightarrow> file_event result" where
  "convert_event sc ob input =
     rbind (rbind (elem ob 0) (dec_u32 sc)) (\<lambda>v0. let input = input\<lparr>event_id := v0\<rparr> in
     rbind (rbind (elem ob 1) (dec_cs sc)) (\<lambda>v1. let input = input\<lparr>fname := v1\<rparr> in
     rbind (rbind (elem ob 2) (dec_u16 sc)) (\<lambda>v2. let input = input\<lparr>offset := v2\<rparr> in
     rbind (rbind (elem ob 3) (dec_cs sc)) (\<lambda>v3. let input = input\<lparr>fdata := v3\<rparr> in
     Inr input))))"

definition pack_event :: "'v scalars \<Rightarrow> file_event \<Rightarrow> 'v token list" where
  "pack_event sc input =
     [Array_header 4] @ [Item (enc_u32 sc (event_id input))] @ [Item (enc_cs sc (fname input))]
     @ [Item (enc_u16 sc (offset input))] @ [Item (enc_cs sc (fdata input))]"

definition zone_event :: "'v scalars \<Rightarrow> file_event \<Rightarrow> 'v mobj" where
  "zone_event sc input =
     ARRAY_obj [Ext (enc_u32 sc (event_id input)), Ext (enc_cs sc (fname input)),
       Ext (enc_u16 sc (offset input)), Ext (enc_cs sc (fdata input))]"

text \<open>All fields but the key travel.\<close>

definition event_view :: "file_event \<Rightarrow> file_event \<Rightarrow> file_event" where
  "event_view e input = e\<lparr>keyby := keyby input\<rparr>"

interpretation event_codec:
  wire_codec faithful "\<lambda>_. True" pack_event zone_event convert_event event_view
proof unfold_locales
  show "denotes (pack_event sc e) (zone_event sc e)" for sc :: "'v scalars" and e
    using denotes_items [of 4 "[enc_u32 sc (event_id e), enc_cs sc (fname e), enc_u16 sc (offset e), enc_cs sc (fdata e)]"]
    by (simp add: pack_event_def zone_event_def)
  show "convert_event sc (zone_event sc e) input = Inr (event_view e input)" if "faithful sc"
    for sc :: "'v scalars" and e input
    using faithfulD [OF that] by (simp add: convert_event_def zone_event_def event_view_def numeral_eq_Suc Let_def)
qed

section \<open>Properties\<close>

text \<open>
  A list of events of the first version survives the trip: the stream denotes the array of
  the objects, and reading its elements gives the events back, in order and with everything
  but the key, so that their files, hashes and order are unchanged.
\<close>

theorem events_roundtrip:
  assumes "faithful sc"
  shows "denotes (Array_header (length es) # concat (map (pack_event sc) es)) (ARRAY_obj (map (zone_event sc) es))
    \<and> (\<exists>rs. rmap (\<lambda>ob. convert_event sc ob input) (map (zone_event sc) es) = Inr rs
         \<and> map event_id rs = map event_id es \<and> map fdata rs = map fdata es
         \<and> map (event_hash h) rs = map (event_hash h) es
         \<and> sorted_wrt event_less rs = sorted_wrt event_less es)"
proof -
  have "rmap (\<lambda>ob. convert_event sc ob input) (map (zone_event sc) es) = Inr (map (\<lambda>e. event_view e input) es)"
    by (rule event_codec.vector_conv [OF assms]) (simp add: list_all_iff)
  moreover have "sorted_wrt event_less (map (\<lambda>e. event_view e input) es) = sorted_wrt event_less es"
    by (simp add: sorted_wrt_map event_less_def [abs_def] event_view_def)
  ultimately show ?thesis
    using event_codec.vector_denotes [of es sc]
    by (simp add: list_all_iff comp_def event_view_def event_hash_def)
qed

theorem events_roundtrip_witness:
  "\<exists>rs. rmap (\<lambda>ob. convert_event plain_scalars ob \<lparr>event_id = 0, fname = '''', offset = 0, fdata = '''', keyby = 5\<rparr>)
       (map (zone_event plain_scalars) [\<lparr>event_id = 1, fname = ''a'', offset = 2, fdata = ''xy'', keyby = 9\<rparr>]) = Inr rs
     \<and> map fdata rs = [''xy'']"
  using events_roundtrip [OF faithful_plain, of "[\<lparr>event_id = 1, fname = ''a'', offset = 2, fdata = ''xy'', keyby = 9\<rparr>]"
      "\<lparr>event_id = 0, fname = '''', offset = 0, fdata = '''', keyby = 5\<rparr>"] by force

text \<open>
  \<open>TaskEvent\<close> does not survive the trip with any scalar adaptors at all: \<open>pack\<close> and
  \<open>object_with_zone\<close> agree and put the source last, while \<open>convert\<close> reads it first.
\<close>

theorem task_event_garbled:
  "denotes (pack_task_event sc x) (zone_task_event sc x)
   \<and> (\<exists>x. \<forall>y. \<not> (\<exists>r. convert_task_event sc (zone_task_event sc x) y = Inr r \<and> source r = source x))"
proof
  show "denotes (pack_task_event sc x) (zone_task_event sc x)"
    using denotes_items [of 4 "[enc_u32 sc (task_node x), enc_u32 sc (task_destination x), enc_u16 sc (task_origin x),
        enc_cs sc (source x)]"]
    by (simp add: pack_task_event_def zone_task_event_def)
  define x where "x s = \<lparr>task_node = 0, task_origin = 0, task_destination = 0, source = s\<rparr>" for s
  have read: "dec_cs sc (Ext (enc_u32 sc 0)) = Inr (source r)"
    if "convert_task_event sc (zone_task_event sc (x s)) y = Inr r" for s y r
    using that by (auto simp: convert_task_event_def zone_task_event_def x_def Let_def)
  obtain s :: string where "dec_cs sc (Ext (enc_u32 sc 0)) \<noteq> Inr s"
    by (metis list.distinct(1) sum.inject(2))
  with read have "\<not> (\<exists>r. convert_task_event sc (zone_task_event sc (x s)) y = Inr r \<and> source r = source (x s))" for y
    by (auto simp: x_def)
  then show "\<exists>x. \<forall>y. \<not> (\<exists>r. convert_task_event sc (zone_task_event sc x) y = Inr r \<and> source r = source x)"
    by blast
qed

end
