(* ===== verification/Task_Manager.thy ===== *)
theory Task_Manager
  imports Complex_Main Rpc
begin

text \<open>
  The task manager of the first version (\<open>old/TaskManager\<close>): the server with its queues of
  events, running tasks and destinations, its RPC names, the client, the task executor and the
  load measures; with the data of \<open>old/JobUtils/include/events\<close> and \<open>common\<close>. The local queues are
  basket's, the thread pool boost's and the tasks the user's: parameters.
\<close>

section \<open>Data\<close>

datatype event_action = NEW | ORIGINAL | HOLD | KEYBY

record ev =
  ev_id :: int
  ev_type :: int
  ev_data :: string
  ev_action :: event_action

record task_location =
  taskManagerId :: int
  taskId :: string

text \<open>An event a task returns is an \<open>Event\<close> or an \<open>EventLocation\<close>, which has a location as well.\<close>

type_synonym task_result = "ev \<times> task_location option"

text \<open>\<open>basket::queue<Event>\<close>, used locally; \<open>lq_view\<close> is what the queue holds.\<close>

record 'q local_queue =
  lq_new :: "string \<Rightarrow> 'q"
  lq_push :: "ev \<Rightarrow> 'q \<Rightarrow> bool \<times> 'q"
  lq_pop :: "'q \<Rightarrow> (bool \<times> ev) \<times> 'q"
  lq_view :: "'q \<Rightarrow> ev list"

definition local_queue_laws :: "'q local_queue \<Rightarrow> bool" where
  "local_queue_laws Q =
     ((\<forall>n. lq_view Q (lq_new Q n) = [])
      \<and> (\<forall>e q. fst (lq_push Q e q) \<and> lq_view Q (snd (lq_push Q e q)) = lq_view Q q @ [e])
      \<and> (\<forall>q. lq_view Q q = [] \<longrightarrow> \<not> fst (fst (lq_pop Q q)) \<and> lq_view Q (snd (lq_pop Q q)) = [])
      \<and> (\<forall>q e es. lq_view Q q = e # es \<longrightarrow>
           fst (lq_pop Q q) = (True, e) \<and> lq_view Q (snd (lq_pop Q q)) = es))"

text \<open>What a task needs to run, as it is posted to the thread pool.\<close>

record posted_task =
  pt_task :: string
  pt_generator :: string
  pt_origin :: task_location
  pt_manager :: int

record 'q task_manager =
  queueMap :: "(string, 'q) table"
  executorStop :: "(string, unit) table"          \<comment> \<open>the promises of the running tasks\<close>
  executorDestination :: "(string, task_location) table"
  taskGenerators :: "(string, bool) table"       \<comment> \<open>False: a null constructor\<close>
  pool :: "posted_task list"                     \<comment> \<open>what was posted, in order\<close>
  stopped :: "string list"                       \<comment> \<open>the tasks whose promise was set\<close>
  exited :: bool

text \<open>The parameters: the queue, and the objects the code uses without initialising them.\<close>

record 'q tm_env =
  tq :: "'q local_queue"
  raw_event :: ev
  raw_location :: task_location

section \<open>Queues and tasks\<close>

definition GetTask :: "'q tm_env \<Rightarrow> string \<Rightarrow> 'q task_manager \<Rightarrow> (bool \<times> ev) \<times> 'q task_manager" where
  "GetTask E tid s =
     (case um_get (queueMap s) tid of
        None \<Rightarrow> ((False, raw_event E), s)
      | Some q \<Rightarrow> let (pop, q') = lq_pop (tq E) q in (pop, s\<lparr>queueMap := um_set tid q' (queueMap s)\<rparr>))"

text \<open>\<open>emplace\<close> and \<open>insert\<close> keep an entry that is already there.\<close>

definition um_emplace :: "'k \<Rightarrow> 'v \<Rightarrow> ('k, 'v) table \<Rightarrow> ('k, 'v) table" where
  "um_emplace k v m = (if um_get m k = None then um_set k v m else m)"

definition task_name :: "string \<Rightarrow> string" where
  "task_name tid = takeWhile (\<lambda>c. c \<noteq> CHR '':'') tid"

definition SpawnTask ::
  "string \<Rightarrow> task_location \<Rightarrow> task_location \<Rightarrow> int \<Rightarrow> 'q task_manager \<Rightarrow> bool \<times> 'q task_manager" where
  "SpawnTask tid origin destination current s =
     (let s1 = (if taskId destination \<noteq> ''none''
                then s\<lparr>executorDestination := um_emplace tid destination (executorDestination s)\<rparr> else s);
          name = task_name tid;
          (generator, gens) = um_index False (taskGenerators s1) name;
          s2 = s1\<lparr>taskGenerators := gens,
            pool := pool s1 @ [\<lparr>pt_task = tid, pt_generator = name, pt_origin = origin, pt_manager = current\<rparr>]\<rparr>
      in (True, s2\<lparr>executorStop := um_emplace tid () (executorStop s2)\<rparr>))"

definition PutTask :: "'q tm_env \<Rightarrow> string \<Rightarrow> ev \<Rightarrow> int \<Rightarrow> 'q task_manager \<Rightarrow> bool \<times> 'q task_manager" where
  "PutTask E tid event manager s =
     (let s1 = (case um_get (queueMap s) tid of
            None \<Rightarrow>
              let s' = s\<lparr>queueMap := um_emplace tid (lq_new (tq E) tid) (queueMap s)\<rparr>
              in snd (SpawnTask tid \<lparr>taskManagerId = manager, taskId = tid\<rparr> \<lparr>taskManagerId = 0, taskId = ''none''\<rparr> manager s')
          | Some _ \<Rightarrow> s)
      in case um_get (queueMap s1) tid of
           None \<Rightarrow> (False, s1)
         | Some q \<Rightarrow> let (ok, q') = lq_push (tq E) event q in (ok, s1\<lparr>queueMap := um_set tid q' (queueMap s1)\<rparr>))"

definition DestroyTask :: "string \<Rightarrow> 'q task_manager \<Rightarrow> (bool \<times> 'q task_manager) result" where
  "DestroyTask tid s =
     (if um_get (executorStop s) tid = None then Inl Out_of_range
      else Inr (True, s\<lparr>stopped := stopped s @ [tid], executorStop := um_erase tid (executorStop s),
        queueMap := um_erase tid (queueMap s), executorDestination := um_erase tid (executorDestination s)\<rparr>))"

definition updateDestination :: "string \<Rightarrow> task_location \<Rightarrow> 'q task_manager \<Rightarrow> bool \<times> 'q task_manager" where
  "updateDestination tid new s = (True, s\<lparr>executorDestination := um_set tid new (executorDestination s)\<rparr>)"

text \<open>The lookup inserts an entry for a task that has none.\<close>

definition GetDestination :: "'q tm_env \<Rightarrow> string \<Rightarrow> 'q task_manager \<Rightarrow> task_location \<times> 'q task_manager" where
  "GetDestination E tid s =
     (let (loc, m) = um_index (raw_location E) (executorDestination s) tid
      in (loc, s\<lparr>executorDestination := m\<rparr>))"

text \<open>
  The loop of \<open>TerminateTaskManager\<close> never advances its iterator; the entry it stands on is erased by
  the first call, so the loop test that follows uses an invalid iterator. The promise of the exit
  can be set once.
\<close>

definition TerminateTaskManager :: "'q task_manager \<Rightarrow> (bool \<times> 'q task_manager) result" where
  "TerminateTaskManager s =
     (case executorStop s of
        [] \<Rightarrow> if exited s then Inl Thread_error else Inr (True, s\<lparr>exited := True\<rparr>)
      | (tid, _) # _ \<Rightarrow> rbind (DestroyTask tid s) (\<lambda>_. Inl Invalid_iterator))"

text \<open>\<open>LoadLibrary\<close>: the symbols of the job in order, until one is missing from the library.\<close>

fun LoadSymbols :: "(string \<Rightarrow> bool) \<Rightarrow> string list \<Rightarrow> 'q task_manager \<Rightarrow> bool \<times> 'q task_manager" where
  "LoadSymbols has_symbol [] s = (True, s)"
| "LoadSymbols has_symbol (task # tasks) s =
     (if has_symbol (''create_'' @ task)
      then LoadSymbols has_symbol tasks (s\<lparr>taskGenerators := um_emplace task True (taskGenerators s)\<rparr>)
      else (False, s))"

section \<open>The state machine\<close>

datatype tm_request =
    Get string
  | Put string ev int
  | Spawn string task_location task_location int
  | Destroy string
  | Redirect string task_location
  | Locate string

fun tm_handle :: "'q tm_env \<Rightarrow> tm_request \<Rightarrow> 'q task_manager \<Rightarrow> 'q task_manager result" where
  "tm_handle E (Get t) s = Inr (snd (GetTask E t s))"
| "tm_handle E (Put t e m) s = Inr (snd (PutTask E t e m s))"
| "tm_handle E (Spawn t a b m) s = Inr (snd (SpawnTask t a b m s))"
| "tm_handle E (Destroy t) s = rbind (DestroyTask t s) (\<lambda>r. Inr (snd r))"
| "tm_handle E (Redirect t l) s = Inr (snd (updateDestination t l s))"
| "tm_handle E (Locate t) s = Inr (snd (GetDestination E t s))"

inductive tm_reachable :: "'q tm_env \<Rightarrow> 'q task_manager \<Rightarrow> bool" for E where
  tm_init: "tm_reachable E \<lparr>queueMap = [], executorStop = [], executorDestination = [], taskGenerators = gens,
     pool = [], stopped = [], exited = False\<rparr>"
| tm_step: "\<lbrakk>tm_reachable E s; tm_handle E r s = Inr s'\<rbrakk> \<Longrightarrow> tm_reachable E s'"

text \<open>Every queue belongs to a task that runs, and every running task was posted to the pool.\<close>

definition tm_inv :: "'q task_manager \<Rightarrow> bool" where
  "tm_inv s = (set (um_keys (queueMap s)) \<subseteq> set (um_keys (executorStop s))
     \<and> set (um_keys (executorStop s)) \<subseteq> pt_task ` set (pool s))"

lemma um_keys_emplace: "set (um_keys (um_emplace k v m)) = insert k (set (um_keys m))"
  by (auto simp: um_emplace_def um.set_keys split: if_splits)

lemma um_keys_erase: "set (um_keys (um_erase k m)) = set (um_keys m) - {k}"
  by (auto simp: um.set_keys)

lemma um_keys_get: "k \<in> set (um_keys m) \<longleftrightarrow> um_get m k \<noteq> None"
  by (auto simp: um.set_keys)

lemma spawn_fields:
  "queueMap (snd (SpawnTask t a b m s)) = queueMap s"
  "executorStop (snd (SpawnTask t a b m s)) = um_emplace t () (executorStop s)"
  "pt_task ` set (pool (snd (SpawnTask t a b m s))) = insert t (pt_task ` set (pool s))"
  by (auto simp: SpawnTask_def Let_def split: prod.splits)

lemma tm_inv_spawn: "tm_inv s \<Longrightarrow> tm_inv (snd (SpawnTask t a b m s))"
  by (auto simp: tm_inv_def spawn_fields um_keys_emplace)

lemma tm_inv_put: "tm_inv s \<Longrightarrow> tm_inv (snd (PutTask E t e m s))"
proof -
  assume inv: "tm_inv s"
  show ?thesis
  proof (cases "um_get (queueMap s) t")
    case (Some q)
    then have "t \<in> set (um_keys (queueMap s))" by (simp add: um_keys_get)
    with inv Some show ?thesis
      by (auto simp: PutTask_def tm_inv_def um.keys_put split: prod.splits)
  next
    case None
    let ?s = "snd (SpawnTask t \<lparr>taskManagerId = m, taskId = t\<rparr> \<lparr>taskManagerId = 0, taskId = ''none''\<rparr> m
      (s\<lparr>queueMap := um_emplace t (lq_new (tq E) t) (queueMap s)\<rparr>))"
    have "tm_inv ?s"
      using inv by (auto simp: tm_inv_def spawn_fields um_keys_emplace)
    moreover have "t \<in> set (um_keys (queueMap ?s))"
      by (simp add: spawn_fields um_keys_emplace)
    ultimately show ?thesis
      by (auto simp: PutTask_def None Let_def tm_inv_def um.keys_put split: prod.splits option.splits)
  qed
qed

lemma tm_inv_step: "tm_inv s \<Longrightarrow> tm_handle E r s = Inr s' \<Longrightarrow> tm_inv s'"
proof (cases r)
  case (Get t)
  assume "tm_inv s" "tm_handle E r s = Inr s'"
  moreover have "t \<in> set (um_keys (queueMap s))" if "um_get (queueMap s) t = Some q" for q
    using that by (simp add: um_keys_get)
  ultimately show ?thesis
    using Get by (auto simp: GetTask_def tm_inv_def um.keys_put split: option.splits prod.splits)
next
  case (Destroy t)
  assume "tm_inv s" "tm_handle E r s = Inr s'"
  with Destroy show ?thesis
    by (auto simp: DestroyTask_def tm_inv_def um_keys_erase split: if_splits)
next
  case (Put t e m)
  assume "tm_inv s" "tm_handle E r s = Inr s'"
  with Put tm_inv_put [of s E t e m] show ?thesis by simp
next
  case (Spawn t a b m)
  assume "tm_inv s" "tm_handle E r s = Inr s'"
  with Spawn tm_inv_spawn [of s t a b m] show ?thesis by simp
qed (auto simp: updateDestination_def GetDestination_def tm_inv_def split: prod.splits)

lemma tm_reachable_inv: "tm_reachable E s \<Longrightarrow> tm_inv s"
proof (induction rule: tm_reachable.induct)
  case (tm_init gens)
  show ?case by (simp add: tm_inv_def um_keys_def)
next
  case (tm_step s r s')
  then show ?case by (blast intro: tm_inv_step)
qed

section \<open>Queues of events\<close>

definition queued :: "'q tm_env \<Rightarrow> string \<Rightarrow> 'q task_manager \<Rightarrow> ev list" where
  "queued E t s = (case um_get (queueMap s) t of None \<Rightarrow> [] | Some q \<Rightarrow> lq_view (tq E) q)"

lemma PutTask_queued:
  assumes "local_queue_laws (tq E)" "PutTask E t e m s = (ok, s')"
  shows "ok" "queued E t s' = queued E t s @ [e]" "u \<noteq> t \<Longrightarrow> queued E u s' = queued E u s"
    "um_get (queueMap s') t \<noteq> None"
    "um_get (queueMap s) t \<noteq> None \<Longrightarrow> pool s' = pool s \<and> executorStop s' = executorStop s"
proof -
  have push: "fst (lq_push (tq E) e q) \<and> lq_view (tq E) (snd (lq_push (tq E) e q)) = lq_view (tq E) q @ [e]" for q
    using assms(1) by (simp add: local_queue_laws_def)
  have new: "lq_view (tq E) (lq_new (tq E) t) = []"
    using assms(1) by (simp add: local_queue_laws_def)
  have *: "ok \<and> queued E t s' = queued E t s @ [e] \<and> (u \<noteq> t \<longrightarrow> queued E u s' = queued E u s)
      \<and> um_get (queueMap s') t \<noteq> None
      \<and> (um_get (queueMap s) t \<noteq> None \<longrightarrow> pool s' = pool s \<and> executorStop s' = executorStop s)"
  proof (cases "um_get (queueMap s) t")
    case None
    obtain ok1 q1 where q1: "lq_push (tq E) e (lq_new (tq E) t) = (ok1, q1)"
      by (cases "lq_push (tq E) e (lq_new (tq E) t)")
    from assms(2) None q1 push [of "lq_new (tq E) t"] new show ?thesis
      by (auto simp: PutTask_def Let_def spawn_fields um_emplace_def queued_def)
  next
    case (Some q)
    obtain ok1 q1 where q1: "lq_push (tq E) e q = (ok1, q1)"
      by (cases "lq_push (tq E) e q")
    from assms(2) Some q1 push [of q] show ?thesis
      by (auto simp: PutTask_def queued_def)
  qed
  then show "ok" "queued E t s' = queued E t s @ [e]" "u \<noteq> t \<Longrightarrow> queued E u s' = queued E u s"
    "um_get (queueMap s') t \<noteq> None"
    "um_get (queueMap s) t \<noteq> None \<Longrightarrow> pool s' = pool s \<and> executorStop s' = executorStop s"
    by auto
qed

lemma GetTask_queued:
  assumes "local_queue_laws (tq E)" "GetTask E t s = ((got, e), s')"
  shows "queued E t s = [] \<Longrightarrow> \<not> got" "queued E t s = x # xs \<Longrightarrow> got \<and> e = x \<and> queued E t s' = xs"
proof -
  show "\<not> got" if "queued E t s = []"
  proof (cases "um_get (queueMap s) t")
    case (Some q)
    then have "\<not> fst (fst (lq_pop (tq E) q))"
      using that assms(1) by (simp add: local_queue_laws_def queued_def)
    with Some assms(2) show ?thesis by (auto simp: GetTask_def split: prod.splits)
  qed (use assms(2) in \<open>simp add: GetTask_def\<close>)
  show "got \<and> e = x \<and> queued E t s' = xs" if x: "queued E t s = x # xs"
  proof (cases "um_get (queueMap s) t")
    case (Some q)
    then have "fst (lq_pop (tq E) q) = (True, x) \<and> lq_view (tq E) (snd (lq_pop (tq E) q)) = xs"
      using x assms(1) by (auto simp: local_queue_laws_def queued_def)
    with Some assms(2) show ?thesis by (auto simp: GetTask_def queued_def split: prod.splits)
  qed (use x in \<open>simp add: queued_def\<close>)
qed

fun put_events :: "'q tm_env \<Rightarrow> string \<Rightarrow> int \<Rightarrow> ev list \<Rightarrow> 'q task_manager \<Rightarrow> 'q task_manager" where
  "put_events E t m [] s = s"
| "put_events E t m (e # es) s = put_events E t m es (snd (PutTask E t e m s))"

fun get_events :: "'q tm_env \<Rightarrow> string \<Rightarrow> nat \<Rightarrow> 'q task_manager \<Rightarrow> (bool \<times> ev) list \<times> 'q task_manager" where
  "get_events E t 0 s = ([], s)"
| "get_events E t (Suc n) s =
     (let (r, s') = GetTask E t s; (rs, s'') = get_events E t n s' in (r # rs, s''))"

lemma put_events_queued:
  assumes "local_queue_laws (tq E)"
  shows "queued E t (put_events E t m es s) = queued E t s @ es"
    "um_get (queueMap s) t \<noteq> None \<Longrightarrow> pool (put_events E t m es s) = pool s"
proof (induction es arbitrary: s)
  case (Cons e es)
  {
    case 1
    obtain ok s' where p: "PutTask E t e m s = (ok, s')" by (cases "PutTask E t e m s")
    from Cons(1) [of s'] PutTask_queued(2) [OF assms p] show ?case by (simp add: p)
  next
    case 2
    obtain ok s' where p: "PutTask E t e m s = (ok, s')" by (cases "PutTask E t e m s")
    from Cons(2) [of s'] PutTask_queued(4,5) [OF assms p] 2 show ?case by (simp add: p)
  }
qed simp_all

lemma get_events_queued:
  assumes "local_queue_laws (tq E)"
  shows "queued E t s = es \<Longrightarrow> fst (get_events E t (length es) s) = map (Pair True) es
    \<and> queued E t (snd (get_events E t (length es) s)) = []"
proof (induction es arbitrary: s)
  case (Cons e es)
  obtain got x s' where g: "GetTask E t s = ((got, x), s')" by (metis prod.exhaust)
  from GetTask_queued(2) [OF assms g Cons.prems] Cons.IH [of s'] show ?case
    by (auto simp: g split: prod.splits)
qed simp

section \<open>Properties\<close>

text \<open>
  C28. Events put for a task that has no queue yet come out in the order they were put, each
  once, and then nothing; the task is posted to the pool exactly once, by the first event, with
  itself as its origin.
\<close>

theorem events_in_order:
  assumes "local_queue_laws (tq E)" "um_get (queueMap s) t = None" "es \<noteq> []"
  shows "let s1 = put_events E t m es s; (rs, s2) = get_events E t (length es) s1
    in rs = map (Pair True) es \<and> \<not> fst (fst (GetTask E t s2))
       \<and> pool s1 = pool s @ [\<lparr>pt_task = t, pt_generator = task_name t,
            pt_origin = \<lparr>taskManagerId = m, taskId = t\<rparr>, pt_manager = m\<rparr>]"
proof -
  obtain e es' where es: "es = e # es'" using assms(3) by (cases es) auto
  obtain ok s' where p: "PutTask E t e m s = (ok, s')" by (cases "PutTask E t e m s")
  have "pool s' = pool s @ [\<lparr>pt_task = t, pt_generator = task_name t,
      pt_origin = \<lparr>taskManagerId = m, taskId = t\<rparr>, pt_manager = m\<rparr>]"
    using p assms(2) by (auto simp: PutTask_def SpawnTask_def Let_def um_emplace_def split: prod.splits)
  then have pool: "pool (put_events E t m es s) = pool s @ [\<lparr>pt_task = t, pt_generator = task_name t,
      pt_origin = \<lparr>taskManagerId = m, taskId = t\<rparr>, pt_manager = m\<rparr>]"
    using put_events_queued(2) [OF assms(1)] PutTask_queued(4) [OF assms(1) p] by (simp add: es p)
  have "queued E t s = []" using assms(2) by (simp add: queued_def)
  then have "queued E t (put_events E t m es s) = es"
    by (simp add: put_events_queued(1) [OF assms(1)])
  note got = get_events_queued [OF assms(1) this]
  have "\<not> fst (fst (GetTask E t s2))" if "queued E t s2 = []" for s2
    using GetTask_queued(1) [OF assms(1) _ that] by (metis prod.collapse)
  with got pool show ?thesis
    by (simp add: Let_def case_prod_beta)
qed

definition list_local_queue :: "ev list local_queue" where
  "list_local_queue = \<lparr>lq_new = (\<lambda>n. []), lq_push = (\<lambda>e q. (True, q @ [e])),
     lq_pop = (\<lambda>q. case q of [] \<Rightarrow> ((False, \<lparr>ev_id = 0, ev_type = 0, ev_data = '''', ev_action = HOLD\<rparr>), [])
        | e # es \<Rightarrow> ((True, e), es)),
     lq_view = (\<lambda>q. q)\<rparr>"

definition sample_tm_env :: "ev list tm_env" where
  "sample_tm_env = \<lparr>tq = list_local_queue, raw_event = \<lparr>ev_id = 0, ev_type = 0, ev_data = '''', ev_action = HOLD\<rparr>,
     raw_location = \<lparr>taskManagerId = 0, taskId = ''''\<rparr>\<rparr>"

lemma list_local_queue_laws: "local_queue_laws (tq sample_tm_env)"
  by (simp add: local_queue_laws_def list_local_queue_def sample_tm_env_def split: list.splits)

definition empty_tm :: "ev list task_manager" where
  "empty_tm = \<lparr>queueMap = [], executorStop = [], executorDestination = [], taskGenerators = [],
     pool = [], stopped = [], exited = False\<rparr>"

definition sample_event :: "int \<Rightarrow> ev" where
  "sample_event i = \<lparr>ev_id = i, ev_type = 0, ev_data = ''x'', ev_action = NEW\<rparr>"

theorem events_in_order_witness:
  "fst (get_events sample_tm_env ''a:1'' 2 (put_events sample_tm_env ''a:1'' 5 [sample_event 1, sample_event 2] empty_tm))
     = [(True, sample_event 1), (True, sample_event 2)]"
  using events_in_order [OF list_local_queue_laws, of empty_tm "''a:1''" "[sample_event 1, sample_event 2]" 5]
  by (simp add: empty_tm_def Let_def case_prod_beta numeral_2_eq_2)

text \<open>
  C29. In every reachable state each queue belongs to a running task and each running task was
  posted to the pool; so a task that has a queue can always be destroyed, which signals it and
  removes its queue and destination, and a task that does not run cannot be.
\<close>

theorem running_tasks_consistent:
  assumes "tm_reachable E s"
  shows "tm_inv s
    \<and> (um_get (queueMap s) t \<noteq> None \<longrightarrow> (\<exists>s'. DestroyTask t s = Inr (True, s') \<and> stopped s' = stopped s @ [t]
         \<and> um_get (queueMap s') t = None \<and> um_get (executorDestination s') t = None
         \<and> um_get (executorStop s') t = None))
    \<and> (t \<notin> pt_task ` set (pool s) \<longrightarrow> DestroyTask t s = Inl Out_of_range)"
proof -
  have inv: "tm_inv s" by (rule tm_reachable_inv [OF assms])
  have "um_get (executorStop s) t \<noteq> None" if "um_get (queueMap s) t \<noteq> None"
    using inv that unfolding tm_inv_def by (metis subsetD um_keys_get)
  moreover have "um_get (executorStop s) t = None" if "t \<notin> pt_task ` set (pool s)"
    using inv that unfolding tm_inv_def by (metis subsetD um_keys_get)
  ultimately show ?thesis
    using inv by (auto simp: DestroyTask_def)
qed

theorem running_tasks_consistent_witness:
  "DestroyTask ''b'' (snd (PutTask sample_tm_env ''a'' (sample_event 1) 5 empty_tm)) = Inl Out_of_range"
proof -
  let ?s = "snd (PutTask sample_tm_env ''a'' (sample_event 1) 5 empty_tm)"
  have r: "tm_reachable sample_tm_env ?s"
    by (rule tm_step [where r = "Put ''a'' (sample_event 1) 5" and s = empty_tm])
       (simp_all add: empty_tm_def tm_init)
  have p: "''b'' \<notin> pt_task ` set (pool ?s)"
    by (simp add: PutTask_def SpawnTask_def empty_tm_def um_emplace_def um_index_def Let_def
        sample_tm_env_def list_local_queue_def)
  show ?thesis
    by (rule running_tasks_consistent [OF r, of "''b''", THEN conjunct2, THEN conjunct2, rule_format, OF p])
qed

text \<open>
  \<open>TerminateTaskManager\<close> works only when no task runs: once an event was put for any task, and
  that task is not destroyed, it goes on with an iterator whose entry was erased.
\<close>

theorem terminate_needs_idle:
  assumes "tm_reachable E s"
  shows "TerminateTaskManager (snd (PutTask E t e m s)) = Inl Invalid_iterator
    \<and> (executorStop s = [] \<and> \<not> exited s \<longrightarrow> TerminateTaskManager s = Inr (True, s\<lparr>exited := True\<rparr>))"
proof -
  let ?s = "snd (PutTask E t e m s)"
  have "tm_reachable E ?s"
    by (rule tm_step [OF assms, where r = "Put t e m"]) simp
  from tm_reachable_inv [OF this] have inv: "tm_inv ?s" .
  have "t \<in> set (um_keys (queueMap ?s))"
    by (auto simp: PutTask_def Let_def um_keys_emplace um.keys_put spawn_fields um_emplace_def um_keys_get
        split: option.splits prod.splits)
  with inv have "executorStop ?s \<noteq> []"
    by (auto simp: tm_inv_def um_keys_def)
  then show ?thesis
    by (cases "executorStop ?s") (auto simp: TerminateTaskManager_def DestroyTask_def um_get_def)
qed

theorem terminate_needs_idle_witness:
  "TerminateTaskManager (snd (PutTask sample_tm_env ''a'' (sample_event 1) 5 empty_tm)) = Inl Invalid_iterator"
proof -
  have "tm_reachable sample_tm_env empty_tm"
    by (simp add: empty_tm_def tm_init)
  from terminate_needs_idle [OF this] show ?thesis by blast
qed

end
