(* ===== verification/Task_Executor.thy ===== *)
theory Task_Executor
  imports Task_Manager
begin

text \<open>
  The RPC layer of the task manager of the first version (\<open>Bind\<close> in
  \<open>old/TaskManager/src/server/Server.cpp\<close>, \<open>old/TaskManager/src/client/Client.cpp\<close>), the task
  executor (\<open>old/TaskManager/src/server/TaskExecutor.cpp\<close>) that moves events between task managers
  through it, and the load measures.
\<close>

section \<open>Remote calls\<close>

datatype tm_value = VStr string | VInt int | VEv ev | VLoc task_location | VNode string int | VOp bool

datatype tm_reply = RBool bool | RPair "bool \<times> ev" | RLoc task_location | RDouble rat | RInt int

type_synonym 'q tm_transport = "(tm_value, 'q task_manager, tm_reply) transport"

definition as_bool :: "tm_reply \<times> 's \<Rightarrow> (bool \<times> 's) result" where
  "as_bool r = (case r of (RBool b, s) \<Rightarrow> Inr (b, s) | _ \<Rightarrow> Inl Type_error)"

definition as_pair :: "tm_reply \<times> 's \<Rightarrow> ((bool \<times> ev) \<times> 's) result" where
  "as_pair r = (case r of (RPair b, s) \<Rightarrow> Inr (b, s) | _ \<Rightarrow> Inl Type_error)"

definition as_loc :: "tm_reply \<times> 's \<Rightarrow> (task_location \<times> 's) result" where
  "as_loc r = (case r of (RLoc b, s) \<Rightarrow> Inr (b, s) | _ \<Rightarrow> Inl Type_error)"

definition as_double :: "tm_reply \<times> 's \<Rightarrow> (rat \<times> 's) result" where
  "as_double r = (case r of (RDouble b, s) \<Rightarrow> Inr (b, s) | _ \<Rightarrow> Inl Type_error)"

definition as_int :: "tm_reply \<times> 's \<Rightarrow> (int \<times> 's) result" where
  "as_int r = (case r of (RInt b, s) \<Rightarrow> Inr (b, s) | _ \<Rightarrow> Inl Type_error)"

lemmas as_defs = as_bool_def as_pair_def as_loc_def as_double_def as_int_def

text \<open>\<open>Bind\<close>; \<open>cpu\<close> and \<open>mem\<close> are the results of the two measures.\<close>

definition tm_bindings :: "'q tm_env \<Rightarrow> rat \<Rightarrow> int \<Rightarrow> (tm_value, 'q task_manager, tm_reply) rpc_table" where
  "tm_bindings E cpu mem =
     [(''UpdateDestination'', \<lambda>args s. case args of [VStr t, VLoc l] \<Rightarrow>
         let (b, s') = updateDestination t l s in Inr (RBool b, s') | _ \<Rightarrow> Inl Rpc_error),
      (''SpawnTask'', \<lambda>args s. case args of [VStr t, VLoc a, VLoc b, VInt m] \<Rightarrow>
         let (r, s') = SpawnTask t a b m s in Inr (RBool r, s') | _ \<Rightarrow> Inl Rpc_error),
      (''DestroyTask'', \<lambda>args s. case args of [VStr t] \<Rightarrow>
         rbind (DestroyTask t s) (\<lambda>(b, s'). Inr (RBool b, s')) | _ \<Rightarrow> Inl Rpc_error),
      (''GetDestination'', \<lambda>args s. case args of [VStr t] \<Rightarrow>
         let (l, s') = GetDestination E t s in Inr (RLoc l, s') | _ \<Rightarrow> Inl Rpc_error),
      (''TerminateTaskManager'', \<lambda>args s. case args of [] \<Rightarrow>
         rbind (TerminateTaskManager s) (\<lambda>(b, s'). Inr (RBool b, s')) | _ \<Rightarrow> Inl Rpc_error),
      (''measureCpu'', \<lambda>args s. case args of [] \<Rightarrow> Inr (RDouble cpu, s) | _ \<Rightarrow> Inl Rpc_error),
      (''measureMemory'', \<lambda>args s. case args of [] \<Rightarrow> Inr (RInt mem, s) | _ \<Rightarrow> Inl Rpc_error),
      (''GetTask'', \<lambda>args s. case args of [VStr t] \<Rightarrow>
         let (r, s') = GetTask E t s in Inr (RPair r, s') | _ \<Rightarrow> Inl Rpc_error),
      (''PutTask'', \<lambda>args s. case args of [VStr t, VEv e, VInt m] \<Rightarrow>
         let (b, s') = PutTask E t e m s in Inr (RBool b, s') | _ \<Rightarrow> Inl Rpc_error)]"

text \<open>The client: the server is chosen by its index, which some calls also pass as an argument.\<close>

record 'q tm_net =
  transport :: "'q tm_transport"
  bindings :: "(tm_value, 'q task_manager, tm_reply) rpc_table"

definition c_InstructTaskManager ::
  "'q tm_net \<Rightarrow> int \<Rightarrow> string \<Rightarrow> int \<Rightarrow> bool \<Rightarrow> 'q task_manager \<Rightarrow> (bool \<times> 'q task_manager) result" where
  "c_InstructTaskManager N i name parallelism opr s =
     rbind (transport N (bindings N) (nat i) ''InstructTaskManager'' [VNode name parallelism, VOp opr] s) as_bool"

definition c_TerminateTaskManager :: "'q tm_net \<Rightarrow> int \<Rightarrow> 'q task_manager \<Rightarrow> (bool \<times> 'q task_manager) result" where
  "c_TerminateTaskManager N i s = rbind (transport N (bindings N) (nat i) ''TerminateTaskManager'' [] s) as_bool"

definition c_measureCPU :: "'q tm_net \<Rightarrow> int \<Rightarrow> 'q task_manager \<Rightarrow> (rat \<times> 'q task_manager) result" where
  "c_measureCPU N i s = rbind (transport N (bindings N) (nat i) ''measureCPU'' [] s) as_double"

definition c_measureMemory :: "'q tm_net \<Rightarrow> int \<Rightarrow> 'q task_manager \<Rightarrow> (int \<times> 'q task_manager) result" where
  "c_measureMemory N i s = rbind (transport N (bindings N) (nat i) ''measureMemory'' [] s) as_int"

definition c_GetTask :: "'q tm_net \<Rightarrow> int \<Rightarrow> string \<Rightarrow> 'q task_manager \<Rightarrow> ((bool \<times> ev) \<times> 'q task_manager) result" where
  "c_GetTask N i t s = rbind (transport N (bindings N) (nat i) ''GetTask'' [VStr t] s) as_pair"

definition c_PutTask :: "'q tm_net \<Rightarrow> int \<Rightarrow> string \<Rightarrow> ev \<Rightarrow> 'q task_manager \<Rightarrow> (bool \<times> 'q task_manager) result" where
  "c_PutTask N i t e s = rbind (transport N (bindings N) (nat i) ''PutTask'' [VStr t, VEv e, VInt i] s) as_bool"

definition c_UpdateDestination ::
  "'q tm_net \<Rightarrow> int \<Rightarrow> string \<Rightarrow> task_location \<Rightarrow> 'q task_manager \<Rightarrow> (bool \<times> 'q task_manager) result" where
  "c_UpdateDestination N i t l s =
     rbind (transport N (bindings N) (nat i) ''UpdateDestination'' [VStr t, VLoc l] s) as_bool"

definition c_GetDestination :: "'q tm_net \<Rightarrow> int \<Rightarrow> string \<Rightarrow> 'q task_manager \<Rightarrow> (task_location \<times> 'q task_manager) result" where
  "c_GetDestination N i t s = rbind (transport N (bindings N) (nat i) ''GetDestination'' [VStr t] s) as_loc"

definition c_SpawnTask ::
  "'q tm_net \<Rightarrow> int \<Rightarrow> string \<Rightarrow> task_location \<Rightarrow> task_location \<Rightarrow> 'q task_manager \<Rightarrow> (bool \<times> 'q task_manager) result" where
  "c_SpawnTask N i t a b s =
     rbind (transport N (bindings N) (nat i) ''SpawnTask'' [VStr t, VLoc a, VLoc b, VInt i] s) as_bool"

definition c_DestroyTask :: "'q tm_net \<Rightarrow> int \<Rightarrow> string \<Rightarrow> 'q task_manager \<Rightarrow> (bool \<times> 'q task_manager) result" where
  "c_DestroyTask N i t s = rbind (transport N (bindings N) (nat i) ''PutTask'' [VStr t] s) as_bool"

definition good_net :: "'q tm_env \<Rightarrow> rat \<Rightarrow> int \<Rightarrow> 'q tm_net \<Rightarrow> bool" where
  "good_net E cpu mem N = (delivers (transport N) \<and> bindings N = tm_bindings E cpu mem)"

lemma net_call:
  assumes "good_net E cpu mem N"
  shows "transport N (bindings N) i nm args s =
    (case um_get (tm_bindings E cpu mem) nm of None \<Rightarrow> Inl Rpc_error | Some f \<Rightarrow> f args s)"
  using assms by (simp add: good_net_def delivers_def)

lemma c_GetTask_ok: "good_net E cpu mem N \<Longrightarrow> c_GetTask N i t s = Inr (GetTask E t s)"
  by (simp add: c_GetTask_def net_call um_get_def tm_bindings_def as_defs split: prod.splits)

lemma c_PutTask_ok: "good_net E cpu mem N \<Longrightarrow> c_PutTask N i t e s = Inr (PutTask E t e i s)"
  by (simp add: c_PutTask_def net_call um_get_def tm_bindings_def as_defs split: prod.splits)

lemma c_GetDestination_ok: "good_net E cpu mem N \<Longrightarrow> c_GetDestination N i t s = Inr (GetDestination E t s)"
  by (simp add: c_GetDestination_def net_call um_get_def tm_bindings_def as_defs split: prod.splits)

section \<open>The task executor\<close>

text \<open>A call on one of several task managers.\<close>

type_synonym 'q managers = "int \<Rightarrow> 'q task_manager"

definition at_server :: "int \<Rightarrow> ('q task_manager \<Rightarrow> ('r \<times> 'q task_manager) result) \<Rightarrow> 'q managers \<Rightarrow> ('r \<times> 'q managers) result" where
  "at_server i f W = rbind (f (W i)) (\<lambda>(r, s). Inr (r, W(i := s)))"

text \<open>
  \<open>send\<close>; a KEYBY result is cast to \<open>EventLocation\<close>, which reads past a plain \<open>Event\<close>.
\<close>

definition send ::
  "'q tm_net \<Rightarrow> string \<Rightarrow> task_result \<Rightarrow> ev \<Rightarrow> int \<Rightarrow> 'q managers \<Rightarrow> 'q managers result" where
  "send N tid res original current W =
     (case ev_action (fst res) of
        NEW \<Rightarrow> rbind (at_server current (c_GetDestination N current tid) W) (\<lambda>(destination, W).
          rbind (at_server (taskManagerId destination)
              (c_PutTask N (taskManagerId destination) (taskId destination) (fst res)) W) (\<lambda>(b, W). Inr W))
      | ORIGINAL \<Rightarrow> rbind (at_server current (c_GetDestination N current tid) W) (\<lambda>(destination, W).
          rbind (at_server (taskManagerId destination)
              (c_PutTask N (taskManagerId destination) (taskId destination) original) W) (\<lambda>(b, W). Inr W))
      | KEYBY \<Rightarrow> rbind (at_server current (c_GetDestination N current tid) W) (\<lambda>(destination, W).
          case snd res of None \<Rightarrow> Inl Out_of_bounds
          | Some loc \<Rightarrow> rbind (at_server (taskManagerId loc)
              (c_PutTask N (taskManagerId loc) (taskId loc) original) W) (\<lambda>(b, W). Inr W))
      | HOLD \<Rightarrow> Inr W)"

text \<open>
  \<open>exec\<close>: each element of the list is one evaluation of the loop condition, the idle time in
  milliseconds and whether the stop was signalled. The flag of the result says whether the
  loop ended (and the final event was sent) within the list.
\<close>

definition timeout :: nat where
  "timeout = 10000"

fun exec ::
  "'q tm_net \<Rightarrow> ev \<Rightarrow> (ev \<Rightarrow> task_result) \<Rightarrow> task_result \<Rightarrow> string \<Rightarrow> task_location \<Rightarrow> int \<Rightarrow> (nat \<times> bool) list \<Rightarrow>
   'q managers \<Rightarrow> (bool \<times> 'q managers) result" where
  "exec N blank texec tfinish tid origin current [] W = Inr (False, W)"
| "exec N blank texec tfinish tid origin current ((idle, signalled) # rounds) W =
     (if idle < timeout \<or> \<not> signalled then
        rbind (at_server (taskManagerId origin) (c_GetTask N (taskManagerId origin) (taskId origin)) W)
          (\<lambda>(event, W).
            rbind (if fst event then send N tid (texec (snd event)) (snd event) current W else Inr W)
              (\<lambda>W. exec N blank texec tfinish tid origin current rounds W))
      else rbind (send N tid tfinish blank current W) (\<lambda>W. Inr (True, W)))"

section \<open>Load measures\<close>

text \<open>
  \<open>ParseLine\<close>: the first digit is looked for without a bound; the character three before the
  end becomes the end of the string.
\<close>

definition ParseLine :: "string \<Rightarrow> int result" where
  "ParseLine line =
     (let i = length line; k = length (takeWhile (\<lambda>c. \<not> is_digit c) line)
      in if k = i then Inl Out_of_bounds
         else if i < 3 then Inl Out_of_bounds
         else atoi (if k \<le> i - 3 then take (i - 3 - k) (drop k line) else drop k line))"

definition starts_with :: "string \<Rightarrow> string \<Rightarrow> bool" where
  "starts_with p s = (take (length p) s = p)"

fun MeasureMemory :: "string list \<Rightarrow> int result" where
  "MeasureMemory [] = Inr (- 1)"
| "MeasureMemory (line # lines) = (if starts_with ''VmSize:'' line then ParseLine line else MeasureMemory lines)"

record cpu_state =
  lastCPU :: int
  lastSysCPU :: int
  lastUserCPU :: int
  numProcessors :: nat

definition InitCPUMeasure :: "int \<Rightarrow> int \<Rightarrow> int \<Rightarrow> string list \<Rightarrow> cpu_state" where
  "InitCPUMeasure now stime utime cpuinfo =
     \<lparr>lastCPU = now, lastSysCPU = stime, lastUserCPU = utime,
      numProcessors = length (List.filter (starts_with ''processor'') cpuinfo)\<rparr>"

definition MeasureCpu :: "int \<Rightarrow> int \<Rightarrow> int \<Rightarrow> cpu_state \<Rightarrow> rat \<times> cpu_state" where
  "MeasureCpu now stime utime c =
     (let percent = (if now \<le> lastCPU c \<or> stime < lastSysCPU c \<or> utime < lastUserCPU c then - 1
            else of_int (stime - lastSysCPU c + (utime - lastUserCPU c)) / of_int (now - lastCPU c)
              / of_nat (numProcessors c) * 100)
      in (percent, c\<lparr>lastCPU := now, lastSysCPU := stime, lastUserCPU := utime\<rparr>))"

section \<open>One round of the executor\<close>

definition queued_at :: "'q tm_env \<Rightarrow> 'q managers \<Rightarrow> task_location \<Rightarrow> ev list" where
  "queued_at E W l = queued E (taskId l) (W (taskManagerId l))"

definition same_place :: "task_location \<Rightarrow> task_location \<Rightarrow> bool" where
  "same_place a b = (taskManagerId a = taskManagerId b \<and> taskId a = taskId b)"

definition routed :: "'q managers \<Rightarrow> int \<Rightarrow> string \<Rightarrow> task_location \<Rightarrow> bool" where
  "routed W current tid dst = (um_get (executorDestination (W current)) tid = Some dst)"

lemma GetTask_frame:
  "executorDestination (snd (GetTask E t s)) = executorDestination s"
  "u \<noteq> t \<Longrightarrow> queued E u (snd (GetTask E t s)) = queued E u s"
  by (auto simp: GetTask_def queued_def split: option.splits prod.splits)

lemma PutTask_frame: "executorDestination (snd (PutTask E t e m s)) = executorDestination s"
  by (auto simp: PutTask_def SpawnTask_def Let_def split: option.splits prod.splits)

lemma GetDestination_routed:
  "um_get (executorDestination s) t = Some l \<Longrightarrow> GetDestination E t s = (l, s)"
  by (simp add: GetDestination_def um.index_present)

text \<open>The pop of one event at the origin.\<close>

lemma get_round:
  assumes "good_net E cpu mem N" "local_queue_laws (tq E)" "queued_at E W origin = e # es"
  obtains W' where
    "at_server (taskManagerId origin) (c_GetTask N (taskManagerId origin) (taskId origin)) W = Inr ((True, e), W')"
    "queued_at E W' origin = es" "\<And>l. \<not> same_place l origin \<Longrightarrow> queued_at E W' l = queued_at E W l"
    "\<And>c t l. routed W' c t l = routed W c t l"
proof -
  let ?s = "W (taskManagerId origin)"
  obtain got x s' where g: "GetTask E (taskId origin) ?s = ((got, x), s')" by (metis prod.exhaust)
  have q: "got \<and> x = e \<and> queued E (taskId origin) s' = es"
    using GetTask_queued(2) [OF assms(2) g] assms(3) by (simp add: queued_at_def)
  let ?W = "W(taskManagerId origin := s')"
  have s': "s' = snd (GetTask E (taskId origin) ?s)" by (simp add: g)
  show thesis
  proof (rule that [of ?W])
    show "at_server (taskManagerId origin) (c_GetTask N (taskManagerId origin) (taskId origin)) W = Inr ((True, e), ?W)"
      using q by (simp add: at_server_def c_GetTask_ok [OF assms(1)] g)
    show "queued_at E ?W origin = es" using q by (simp add: queued_at_def)
    show "queued_at E ?W l = queued_at E W l" if "\<not> same_place l origin" for l
      using that by (auto simp: queued_at_def same_place_def s' GetTask_frame(2))
    show "routed ?W c t l = routed W c t l" for c t l
      by (simp add: routed_def s' GetTask_frame(1))
  qed
qed

text \<open>The send of a NEW result to the destination of the task.\<close>

lemma send_new:
  assumes "good_net E cpu mem N" "local_queue_laws (tq E)" "routed W current tid dst" "ev_action r = NEW"
  obtains W' where "send N tid (r, x) original current W = Inr W'"
    "queued_at E W' dst = queued_at E W dst @ [r]"
    "\<And>l. \<not> same_place l dst \<Longrightarrow> queued_at E W' l = queued_at E W l"
    "\<And>c t l. routed W' c t l = routed W c t l"
proof -
  let ?s = "W (taskManagerId dst)"
  obtain ok s' where p: "PutTask E (taskId dst) r (taskManagerId dst) ?s = (ok, s')"
    by (cases "PutTask E (taskId dst) r (taskManagerId dst) ?s")
  let ?W = "W(taskManagerId dst := s')"
  have s': "s' = snd (PutTask E (taskId dst) r (taskManagerId dst) ?s)" by (simp add: p)
  have loc: "at_server current (c_GetDestination N current tid) W = Inr (dst, W)"
    using assms(3) by (simp add: at_server_def c_GetDestination_ok [OF assms(1)] GetDestination_routed routed_def)
  show thesis
  proof (rule that [of ?W])
    show "send N tid (r, x) original current W = Inr ?W"
      using assms(4) by (simp add: send_def loc) (simp add: at_server_def c_PutTask_ok [OF assms(1)] p)
    show "queued_at E ?W dst = queued_at E W dst @ [r]"
      using PutTask_queued(2) [OF assms(2) p] by (simp add: queued_at_def)
    show "queued_at E ?W l = queued_at E W l" if "\<not> same_place l dst" for l
      using that PutTask_queued(3) [OF assms(2) p] by (auto simp: queued_at_def same_place_def)
    show "routed ?W c t l = routed W c t l" for c t l
      by (simp add: routed_def s' PutTask_frame)
  qed
qed

section \<open>Properties\<close>

text \<open>
  C40. Over a network that delivers, the client's calls for events, destinations, spawning and
  termination are the server's operations (the put passes the server's index as the task
  manager of the task); \<open>DestroyTask\<close>, \<open>measureCPU\<close> and \<open>InstructTaskManager\<close> always fail: the first
  calls \<open>PutTask\<close> with one argument, the others name functions that no server binds.
\<close>

theorem task_client_calls:
  assumes "good_net E cpu mem N"
  shows "c_GetTask N i t s = Inr (GetTask E t s) \<and> c_PutTask N i t e s = Inr (PutTask E t e i s)
    \<and> c_GetDestination N i t s = Inr (GetDestination E t s)
    \<and> c_UpdateDestination N i t l s = Inr (updateDestination t l s)
    \<and> c_SpawnTask N i t a b s = Inr (SpawnTask t a b i s)
    \<and> c_TerminateTaskManager N i s = TerminateTaskManager s \<and> c_measureMemory N i s = Inr (mem, s)
    \<and> c_DestroyTask N i t s = Inl Rpc_error \<and> c_measureCPU N i s = Inl Rpc_error
    \<and> c_InstructTaskManager N i name k opr s = Inl Rpc_error"
proof (intro conjI)
  note d = net_call [OF assms] um_get_def tm_bindings_def as_defs
  show "c_GetTask N i t s = Inr (GetTask E t s)" "c_PutTask N i t e s = Inr (PutTask E t e i s)"
    "c_GetDestination N i t s = Inr (GetDestination E t s)"
    by (rule c_GetTask_ok [OF assms], rule c_PutTask_ok [OF assms], rule c_GetDestination_ok [OF assms])
  show "c_UpdateDestination N i t l s = Inr (updateDestination t l s)"
    by (simp add: c_UpdateDestination_def d updateDestination_def)
  show "c_SpawnTask N i t a b s = Inr (SpawnTask t a b i s)"
    by (simp add: c_SpawnTask_def d split: prod.splits)
  show "c_TerminateTaskManager N i s = TerminateTaskManager s"
    by (cases "TerminateTaskManager s") (auto simp: c_TerminateTaskManager_def d)
  show "c_measureMemory N i s = Inr (mem, s)"
    by (simp add: c_measureMemory_def d)
  show "c_DestroyTask N i t s = Inl Rpc_error" "c_measureCPU N i s = Inl Rpc_error"
    "c_InstructTaskManager N i name k opr s = Inl Rpc_error"
    by (simp_all add: c_DestroyTask_def c_measureCPU_def c_InstructTaskManager_def d)
qed

definition sample_net :: "ev list tm_net" where
  "sample_net = \<lparr>transport = direct_call, bindings = tm_bindings sample_tm_env 0 0\<rparr>"

lemma good_sample_net: "good_net sample_tm_env 0 0 sample_net"
  by (simp add: good_net_def sample_net_def delivers_direct_call)

theorem task_client_calls_witness:
  "c_DestroyTask sample_net 5 ''a'' empty_tm = Inl Rpc_error \<and> c_measureMemory sample_net 5 empty_tm = Inr (0, empty_tm)"
  using task_client_calls [OF good_sample_net, of 5 "''a''" empty_tm] by blast

text \<open>
  C27. A running task moves its events: as long as its loop goes on, an executor whose task answers
  every event with a NEW event takes the events of its origin in order and puts the answers,
  in the same order, behind what waits at the destination of the task; no other queue of any
  task manager changes.
\<close>

theorem executor_moves_events:
  assumes "good_net E cpu mem N" "local_queue_laws (tq E)" "\<not> same_place origin dst"
    "routed W current tid dst" "\<And>e. texec e = (g e, None) \<and> ev_action (g e) = NEW"
    "queued_at E W origin = es" "length rounds = length es" "\<forall>r \<in> set rounds. fst r < timeout \<or> \<not> snd r"
  shows "\<exists>W'. exec N blank texec tfinish tid origin current rounds W = Inr (False, W')
    \<and> queued_at E W' origin = [] \<and> queued_at E W' dst = queued_at E W dst @ map g es
    \<and> (\<forall>l. \<not> same_place l origin \<and> \<not> same_place l dst \<longrightarrow> queued_at E W' l = queued_at E W l)"
  using assms(4,6,7,8)
proof (induction es arbitrary: W rounds)
  case (Cons e es)
  obtain idle sig rounds' where r: "rounds = (idle, sig) # rounds'"
    using Cons.prems(3) by (cases rounds) auto
  have go: "idle < timeout \<or> \<not> sig" using Cons.prems(4) r by auto
  obtain W1 where W1: "at_server (taskManagerId origin) (c_GetTask N (taskManagerId origin) (taskId origin)) W = Inr ((True, e), W1)"
    "queued_at E W1 origin = es" "\<And>l. \<not> same_place l origin \<Longrightarrow> queued_at E W1 l = queued_at E W l"
    "\<And>c t l. routed W1 c t l = routed W c t l"
    using get_round [OF assms(1,2) Cons.prems(2)] by blast
  have "routed W1 current tid dst" using Cons.prems(1) W1(4) by simp
  moreover have "ev_action (g e) = NEW" using assms(5) by blast
  ultimately obtain W2 where W2: "send N tid (g e, None) e current W1 = Inr W2"
    "queued_at E W2 dst = queued_at E W1 dst @ [g e]"
    "\<And>l. \<not> same_place l dst \<Longrightarrow> queued_at E W2 l = queued_at E W1 l"
    "\<And>c t l. routed W2 c t l = routed W1 c t l"
    by (rule send_new [OF assms(1,2), where x = None and original = e]) blast
  have sym: "\<not> same_place dst origin" using assms(3) by (auto simp: same_place_def)
  have "routed W2 current tid dst" "queued_at E W2 origin = es" "length rounds' = length es"
    "\<forall>r \<in> set rounds'. fst r < timeout \<or> \<not> snd r"
    using Cons.prems W1 W2 assms(3) r by auto
  from Cons.IH [OF this] obtain W' where W': "exec N blank texec tfinish tid origin current rounds' W2 = Inr (False, W')"
    "queued_at E W' origin = []" "queued_at E W' dst = queued_at E W2 dst @ map g es"
    "\<forall>l. \<not> same_place l origin \<and> \<not> same_place l dst \<longrightarrow> queued_at E W' l = queued_at E W2 l"
    by blast
  have "exec N blank texec tfinish tid origin current rounds W = Inr (False, W')"
    using go W'(1) by (simp add: r W1(1) assms(5) W2(1))
  with W' W2(2,3) W1(3) sym show ?case by simp
qed simp

definition sample_world :: "ev list managers" where
  "sample_world i = (if i = 1 then empty_tm\<lparr>queueMap := [(''a'', [sample_event 1, sample_event 2])]\<rparr>
     else if i = 2 then empty_tm\<lparr>executorDestination := [(''a'', \<lparr>taskManagerId = 3, taskId = ''b''\<rparr>)]\<rparr> else empty_tm)"

theorem executor_moves_events_witness:
  "\<exists>W'. exec sample_net (sample_event 0) (\<lambda>e. (e\<lparr>ev_action := NEW\<rparr>, None)) (sample_event 0, None) ''a''
       \<lparr>taskManagerId = 1, taskId = ''a''\<rparr> 2 [(3, False), (20000, False)] sample_world = Inr (False, W')
     \<and> queued sample_tm_env ''b'' (W' 3) = [sample_event 1, sample_event 2]"
proof -
  let ?o = "\<lparr>taskManagerId = 1, taskId = ''a''\<rparr>"
  let ?d = "\<lparr>taskManagerId = 3, taskId = ''b''\<rparr>"
  have 1: "routed sample_world 2 ''a'' ?d" "\<not> same_place ?o ?d"
    "queued_at sample_tm_env sample_world ?o = [sample_event 1, sample_event 2]"
    "queued_at sample_tm_env sample_world ?d = []"
    by (simp_all add: routed_def sample_world_def um_get_def same_place_def queued_at_def queued_def empty_tm_def
        sample_tm_env_def list_local_queue_def)
  from executor_moves_events [OF good_sample_net list_local_queue_laws 1(2,1), where es = "[sample_event 1, sample_event 2]"
      and rounds = "[(3, False), (20000, False)]" and g = "\<lambda>e. e\<lparr>ev_action := NEW\<rparr>"
      and texec = "\<lambda>e. (e\<lparr>ev_action := NEW\<rparr>, None)" and blank = "sample_event 0" and tfinish = "(sample_event 0, None)"]
  show ?thesis using 1(3,4) by (auto simp: queued_at_def sample_event_def)
qed

lemma ParseLine_number:
  assumes "n < 2 ^ 31" "\<forall>c \<in> set pre. \<not> is_digit c" "nl = [] \<or> nl = [CHR 0x0A]"
  shows "ParseLine (pre @ to_string n @ '' kB'' @ nl) = Inr (int n)"
proof -
  let ?line = "pre @ to_string n @ '' kB'' @ nl"
  let ?k = "length pre"
  obtain c cs where c: "to_string n = c # cs" "is_digit c"
    using to_string_digits [of n] by (cases "to_string n") auto
  have k: "length (takeWhile (\<lambda>c. \<not> is_digit c) ?line) = ?k"
    using assms(2) c by (simp add: takeWhile_append)
  have "length ?line - 3 - ?k = length (to_string n) + length nl" by (simp add: c)
  moreover have "drop ?k ?line = to_string n @ '' kB'' @ nl" by simp
  moreover have "take (length (to_string n) + length nl) (to_string n @ '' kB'' @ nl)
      = to_string n @ (if nl = [] then '''' else '' '')"
    using assms(3) by auto
  ultimately have "ParseLine ?line = atoi (to_string n @ (if nl = [] then '''' else '' ''))"
    unfolding ParseLine_def Let_def k by (simp add: c)
  then show ?thesis
    using atoi_to_string_tail [OF assms(1), of "if nl = [] then '''' else '' ''"]
    by (auto simp: is_digit_def split: if_splits)
qed

text \<open>
  \<open>MeasureMemory\<close> finds the number: in a status file with a line \<open>VmSize:\<close>, white space, a
  number below \<open>2 ^ 31\<close> and \<open> kB\<close>, with or without the newline, it answers the number of the first
  such line; without any it answers -1.
\<close>

theorem MeasureMemory_finds:
  assumes "n < 2 ^ 31" "\<forall>c \<in> set sp. \<not> is_digit c" "\<forall>l \<in> set before. \<not> starts_with ''VmSize:'' l"
    "nl = [] \<or> nl = [CHR 0x0A]"
  shows "MeasureMemory (before @ (''VmSize:'' @ sp @ to_string n @ '' kB'' @ nl) # after_lines) = Inr (int n)
    \<and> MeasureMemory before = Inr (- 1)"
  using assms(3)
proof (induction before)
  case Nil
  have "ParseLine ((''VmSize:'' @ sp) @ to_string n @ '' kB'' @ nl) = Inr (int n)"
    using assms(2) by (intro ParseLine_number [OF assms(1) _ assms(4)]) (auto simp: is_digit_def)
  then show ?case by (simp add: starts_with_def)
qed simp

theorem MeasureMemory_finds_witness:
  "MeasureMemory ([''Name: x''] @ (''VmSize:'' @ '' '' @ to_string 1234 @ '' kB'' @ [CHR 0x0A]) # []) = Inr 1234"
  using MeasureMemory_finds [of 1234 "'' ''" "[''Name: x'']" "[CHR 0x0A]" "[]"]
  by (simp add: starts_with_def is_digit_def)

lemma MeasureCpu_bounds:
  assumes "lastCPU c < now" "lastSysCPU c \<le> stime" "lastUserCPU c \<le> utime" "0 < numProcessors c"
    "stime - lastSysCPU c + (utime - lastUserCPU c) \<le> int (numProcessors c) * (now - lastCPU c)"
  shows "0 \<le> fst (MeasureCpu now stime utime c) \<and> fst (MeasureCpu now stime utime c) \<le> 100"
proof -
  let ?w = "rat_of_int (stime - lastSysCPU c + (utime - lastUserCPU c))"
  let ?n = "rat_of_int (now - lastCPU c) * of_nat (numProcessors c)"
  have n: "0 < ?n" using assms(1,4) by simp
  have "?w \<le> of_int (int (numProcessors c) * (now - lastCPU c))"
    using assms(5) by (simp only: of_int_le_iff)
  then have "?w \<le> ?n" by (simp add: mult.commute)
  moreover have "0 \<le> ?w" using assms(2,3) by simp
  ultimately have "0 \<le> ?w / ?n" "?w / ?n \<le> 1"
    using n by (simp_all only: zero_le_divide_iff divide_le_eq_1_pos) simp
  then show ?thesis using assms by (simp add: MeasureCpu_def Let_def field_simps)
qed

end
