(* ===== verification/Json.thy ===== *)
theory Json
  imports Prelude
begin

text \<open>
  JSON documents as the first version reads them through rapidjson: a tree whose accessors
  assert the kind of the value, and files that may be missing or hold no JSON. \<open>GetInt\<close> and
  \<open>GetUint64\<close> assert that the number fits. Documents without floating-point numbers are enough:
  no source reads one.
\<close>

datatype json = JArr "json list" | JObj "(string \<times> json) list" | JStr string | JInt int

definition members :: "json \<Rightarrow> (string \<times> json) list result" where
  "members v = (case v of JObj ms \<Rightarrow> Inr ms | _ \<Rightarrow> Inl Assertion_failure)"

definition elements :: "json \<Rightarrow> json list result" where
  "elements v = (case v of JArr xs \<Rightarrow> Inr xs | _ \<Rightarrow> Inl Assertion_failure)"

definition get_string :: "json \<Rightarrow> string result" where
  "get_string v = (case v of JStr x \<Rightarrow> Inr x | _ \<Rightarrow> Inl Assertion_failure)"

definition is_int :: "json \<Rightarrow> bool" where
  "is_int v = (case v of JInt x \<Rightarrow> - (2 ^ 31) \<le> x \<and> x < 2 ^ 31 | _ \<Rightarrow> False)"

definition is_uint64 :: "json \<Rightarrow> bool" where
  "is_uint64 v = (case v of JInt x \<Rightarrow> 0 \<le> x \<and> x < 2 ^ 64 | _ \<Rightarrow> False)"

definition get_int :: "json \<Rightarrow> int result" where
  "get_int v = (case v of JInt x \<Rightarrow> if is_int v then Inr x else Inl Assertion_failure | _ \<Rightarrow> Inl Assertion_failure)"

definition get_uint64 :: "json \<Rightarrow> u64 result" where
  "get_uint64 v = (case v of JInt x \<Rightarrow> if is_uint64 v then Inr (word_of_int x) else Inl Assertion_failure
     | _ \<Rightarrow> Inl Assertion_failure)"

definition member :: "json \<Rightarrow> string \<Rightarrow> json result" where
  "member v k = rbind (members v) (\<lambda>ms. case map_of ms k of None \<Rightarrow> Inl Assertion_failure | Some x \<Rightarrow> Inr x)"

text \<open>The file system: no file, a file that is no JSON, or a document.\<close>

type_synonym json_files = "string \<Rightarrow> json option option"

text \<open>The kinds a member is checked for, and the documents that satisfy such a list of checks.\<close>

datatype json_kind = Int_member | Uint64_member | String_member

fun has_kind :: "json_kind \<Rightarrow> json \<Rightarrow> bool" where
  "has_kind Int_member v = is_int v"
| "has_kind Uint64_member v = is_uint64 v"
| "has_kind String_member v = (case v of JStr _ \<Rightarrow> True | _ \<Rightarrow> False)"

definition conforms :: "(string \<times> json_kind) list \<Rightarrow> json \<Rightarrow> bool" where
  "conforms schema doc = list_all (\<lambda>(k, kind). case member doc k of Inl _ \<Rightarrow> False | Inr v \<Rightarrow> has_kind kind v) schema"

lemma get_string_ok: "(\<exists>x. get_string v = Inr x) \<longleftrightarrow> has_kind String_member v"
  by (cases v) (simp_all add: get_string_def)

lemma get_int_ok: "(\<exists>x. get_int v = Inr x) \<longleftrightarrow> has_kind Int_member v"
  by (cases v) (simp_all add: get_int_def is_int_def)

lemma get_uint64_ok: "(\<exists>x. get_uint64 v = Inr x) \<longleftrightarrow> has_kind Uint64_member v"
  by (cases v) (simp_all add: get_uint64_def is_uint64_def)

text \<open>Every accessor that fails, fails by an assertion.\<close>

lemma json_faults:
  "get_string v = Inl e \<Longrightarrow> e = Assertion_failure" "get_int v = Inl e \<Longrightarrow> e = Assertion_failure"
  "get_uint64 v = Inl e \<Longrightarrow> e = Assertion_failure" "member v k = Inl e \<Longrightarrow> e = Assertion_failure"
  by (auto simp: get_string_def get_int_def get_uint64_def member_def members_def
      split: json.splits if_splits option.splits)

end
