(* ===== verification/Job_Manager.thy ===== *)
theory Job_Manager
  imports Task_Executor Json
begin

text \<open>
  The job manager of the first version (\<open>old/JobManager\<close>): cluster nodes and resource reports, the
  load map and the choice of a destination, the calls it makes to the task managers, its RPC
  names and client, and the parsing of jobs (\<open>FunctionManager\<close>). JSON is that of theory
  \<open>Json\<close>. A \<open>float\<close> or a \<open>double\<close> is the rational it stands for; the measured memory is rounded to
  the \<open>float\<close> that a report holds it in (\<open>float_of_int\<close>).
\<close>

section \<open>Nodes and reports\<close>

record cluster_node =
  ip :: string
  nodeId :: int

definition node_eq :: "cluster_node \<Rightarrow> cluster_node \<Rightarrow> bool" where
  "node_eq a b = (nodeId a = nodeId b)"

definition node_hash :: "(int \<Rightarrow> u64) \<Rightarrow> (string \<Rightarrow> u64) \<Rightarrow> cluster_node \<Rightarrow> u64" where
  "node_hash hash_int hash_string cn =
     drop_bit 1 (xor (hash_int (nodeId cn)) (push_bit 1 (hash_string (ip cn))))"

record resource_report =
  serverId :: int
  memoryUsage :: rat
  cpuUsage :: rat
  queueUsage :: rat

text \<open>
  An \<open>int\<close> as a \<open>float\<close>: the nearest number with 24 binary digits, and of two equally near ones the
  one with an even last digit.
\<close>

fun float_digits :: "nat \<Rightarrow> nat" where
  "float_digits n = (if n < 2 ^ 24 then 0 else Suc (float_digits (n div 2)))"

declare float_digits.simps [simp del]

definition nearest_even :: "nat \<Rightarrow> nat \<Rightarrow> nat" where
  "nearest_even n e =
     (let q = n div 2 ^ e; rest = 2 * (n mod 2 ^ e)
      in if rest > 2 ^ e \<or> rest = 2 ^ e \<and> odd q then (q + 1) * 2 ^ e else q * 2 ^ e)"

definition float_of_int :: "int \<Rightarrow> rat" where
  "float_of_int i = of_int (sgn i) * of_nat (nearest_even (nat \<bar>i\<bar>) (float_digits (nat \<bar>i\<bar>)))"

definition report_less :: "resource_report \<Rightarrow> resource_report \<Rightarrow> bool" where
  "report_less a b = (memoryUsage a < memoryUsage b)"

definition report_greater :: "resource_report \<Rightarrow> resource_report \<Rightarrow> bool" where
  "report_greater a b = (memoryUsage a > memoryUsage b)"

text \<open>The conversion to \<open>int\<close> cuts off the fraction.\<close>

definition to_int :: "rat \<Rightarrow> int" where
  "to_int r = (if 0 \<le> r then \<lfloor>r\<rfloor> else \<lceil>r\<rceil>)"

definition report_eq :: "resource_report \<Rightarrow> resource_report \<Rightarrow> bool" where
  "report_eq a b =
     (let memVariability = to_int (1 / 10);
          memRange = to_int (memoryUsage a * of_int memVariability)
      in memoryUsage a + of_int memRange > memoryUsage b \<and> memoryUsage a - of_int memRange < memoryUsage b)"

section \<open>The load map\<close>

text \<open>
  A \<open>std::unordered_map\<close> whose key equality is that of the nodes and whose hash \<open>H\<close> is theirs
  (\<open>node_hash\<close> for the standard hashes of \<open>int\<close> and \<open>std::string\<close>). As in libstdc++, which keeps the hash of every
  key and compares it first, an entry is found by a key with the same hash that is equal.
\<close>

type_synonym load_map = "(cluster_node \<times> resource_report) list"

type_synonym node_hashing = "cluster_node \<Rightarrow> u64"

definition same_key :: "node_hashing \<Rightarrow> cluster_node \<Rightarrow> cluster_node \<Rightarrow> bool" where
  "same_key H k cn = (H k = H cn \<and> node_eq k cn)"

fun load_get :: "node_hashing \<Rightarrow> load_map \<Rightarrow> cluster_node \<Rightarrow> resource_report option" where
  "load_get H [] cn = None"
| "load_get H ((k, v) # m) cn = (if same_key H k cn then Some v else load_get H m cn)"

fun load_set :: "node_hashing \<Rightarrow> cluster_node \<Rightarrow> resource_report \<Rightarrow> load_map \<Rightarrow> load_map" where
  "load_set H cn rr [] = [(cn, rr)]"
| "load_set H cn rr ((k, v) # m) = (if same_key H k cn then (k, rr) # m else (k, v) # load_set H cn rr m)"

text \<open>\<open>std::min_element\<close>: the first of the smallest entries; the end iterator when there is none.\<close>

fun min_from :: "cluster_node \<times> resource_report \<Rightarrow> load_map \<Rightarrow> cluster_node \<times> resource_report" where
  "min_from best [] = best"
| "min_from best (x # xs) = (if report_less (snd x) (snd best) then min_from x xs else min_from best xs)"

definition findMinLoad :: "load_map \<Rightarrow> cluster_node result" where
  "findMinLoad m = (case m of [] \<Rightarrow> Inl Invalid_iterator | x # xs \<Rightarrow> Inr (fst (min_from x xs)))"

section \<open>The server\<close>

datatype running_status = RUNNING | STOPPPING

record job_manager =
  loadMap :: load_map
  load_hash :: node_hashing   \<comment> \<open>the hash of \<open>loadMap\<close>\<close>
  CurrentNode :: cluster_node
  maxLoad :: resource_report
  taskMap :: "(int, running_status) table"
  destinationMap :: "(int, int) table"
  taskManagerNodes :: "int list"

definition UpdateLoad :: "cluster_node \<Rightarrow> resource_report \<Rightarrow> job_manager \<Rightarrow> bool \<times> job_manager" where
  "UpdateLoad cn rr s = (True, s\<lparr>loadMap := load_set (load_hash s) cn rr (loadMap s)\<rparr>)"

definition um_at :: "('k, 'v) table \<Rightarrow> 'k \<Rightarrow> 'v result" where
  "um_at m k = (case um_get m k of None \<Rightarrow> Inl Out_of_range | Some v \<Rightarrow> Inr v)"

text \<open>The disjuncts are evaluated from the left, each only if the ones before it are false.\<close>

definition GiveMeDestination :: "int \<Rightarrow> job_manager \<Rightarrow> (cluster_node \<times> job_manager) result" where
  "GiveMeDestination task s =
     rbind (case load_get (load_hash s) (loadMap s) (CurrentNode s) of None \<Rightarrow> Inl Out_of_range | Some l \<Rightarrow> Inr l) (\<lambda>l.
     rbind (if report_greater l (maxLoad s) then Inr True
            else if um_get (destinationMap s) task = None then Inr True
            else rbind (um_at (destinationMap s) task) (\<lambda>d. rbind (um_at (taskMap s) d) (\<lambda>st. Inr (st = STOPPPING))))
       (\<lambda>move. if move then rbind (findMinLoad (loadMap s)) (\<lambda>newNode. Inr (newNode, s\<lparr>CurrentNode := newNode\<rparr>))
               else Inr (CurrentNode s, s)))"

text \<open>The loop of the server only sleeps until its promise is set: one entry for each time-out before that.\<close>

fun jm_RunInternal :: "unit list \<Rightarrow> nat \<Rightarrow> nat" where
  "jm_RunInternal [] slept = slept"
| "jm_RunInternal (timed_out # waits) slept = jm_RunInternal waits (slept + 10000)"

text \<open>The calls to the task managers, and the signal that ends the manager's own loop.\<close>

datatype manager_call = TM_SubmitJob | TM_StopJob | TM_Terminate int | Exit_server

definition StopJobManager :: "job_manager \<Rightarrow> manager_call list" where
  "StopJobManager s = map TM_Terminate (taskManagerNodes s) @ [Exit_server]"

definition StopJob :: "job_manager \<Rightarrow> bool \<times> manager_call list" where
  "StopJob s = (True, map (\<lambda>_. TM_StopJob) (taskManagerNodes s))"

definition SpawnTaskManagers :: "job_manager \<Rightarrow> nat" where
  "SpawnTaskManagers s = length (taskManagerNodes s)"

text \<open>
  \<open>BindRPC\<close>: of the four names it binds, one is a function of the job manager; the others are the
  task manager's (theory \<open>Task_Executor\<close>) and take other arguments.
\<close>

datatype jm_value = JNode cluster_node | JReport resource_report | JText string

definition jm_bindings :: "(jm_value, job_manager, bool) rpc_table" where
  "jm_bindings =
     [(''UpdateDestination'', \<lambda>args s. Inl Rpc_error), (''SpawnTask'', \<lambda>args s. Inl Rpc_error),
      (''DestroyTask'', \<lambda>args s. Inl Rpc_error),
      (''UpdateLoad'', \<lambda>args s. case args of [JNode cn, JReport rr] \<Rightarrow> Inr (UpdateLoad cn rr s) | _ \<Rightarrow> Inl Rpc_error)]"

type_synonym jm_transport = "(jm_value, job_manager, bool) transport"

definition jm_SubmitJob :: "jm_transport \<Rightarrow> string \<Rightarrow> nat \<Rightarrow> job_manager \<Rightarrow> (bool \<times> job_manager) result" where
  "jm_SubmitJob tr job server_index s = tr jm_bindings server_index ''SubmitJob'' [JText job] s"

definition jm_StopJob :: "jm_transport \<Rightarrow> nat \<Rightarrow> job_manager \<Rightarrow> (bool \<times> job_manager) result" where
  "jm_StopJob tr server_index s = tr jm_bindings server_index ''StopJob'' [] s"

definition jm_UpdateLoad ::
  "jm_transport \<Rightarrow> nat \<Rightarrow> cluster_node \<Rightarrow> resource_report \<Rightarrow> job_manager \<Rightarrow> (bool \<times> job_manager) result" where
  "jm_UpdateLoad tr jobManager_index cn rr s = tr jm_bindings jobManager_index ''UpdateLoad'' [JNode cn, JReport rr] s"

text \<open>
  The loop of a task manager that reports its load (\<open>RunInternal\<close> in the task manager's server):
  one report per round, sent only if it differs from the one sent before.
\<close>

fun report_loads ::
  "jm_transport \<Rightarrow> nat \<Rightarrow> int \<Rightarrow> resource_report \<Rightarrow> resource_report list \<Rightarrow> job_manager \<Rightarrow> (nat \<times> job_manager) result" where
  "report_loads tr jm_id my_id previous [] s = Inr (0, s)"
| "report_loads tr jm_id my_id previous (new # news) s =
     (if report_eq new previous then report_loads tr jm_id my_id previous news s
      else rbind (jm_UpdateLoad tr jm_id \<lparr>ip = '''', nodeId = my_id\<rparr> new s) (\<lambda>(b, s').
        rbind (report_loads tr jm_id my_id new news s') (\<lambda>(n, s''). Inr (Suc n, s''))))"

section \<open>Jobs from files\<close>

record job_node =
  TaskName :: string
  parallelism :: int

definition job_node_eq :: "job_node \<Rightarrow> job_node \<Rightarrow> bool" where
  "job_node_eq a b = (TaskName a = TaskName b)"

record parsed_job =
  jobPath :: string
  adjacency :: "(string \<times> string list) list"
  taskData :: "(string \<times> job_node) list"

definition openJob :: "json_files \<Rightarrow> string \<Rightarrow> json result" where
  "openJob fs path = (case fs path of None \<Rightarrow> Inl Process_exit | Some None \<Rightarrow> Inl Process_exit | Some (Some d) \<Rightarrow> Inr d)"

definition parse_entry :: "string \<times> json \<Rightarrow> (string \<times> string list) result" where
  "parse_entry e = rbind (elements (snd e)) (\<lambda>vs. rbind (rmap get_string vs) (\<lambda>parents. Inr (fst e, parents)))"

definition parse_node :: "json \<Rightarrow> string \<times> string list \<Rightarrow> (string \<times> job_node) result" where
  "parse_node nodes entry =
     rbind (member nodes (fst entry)) (\<lambda>_.
     rbind (rbind (member nodes ''name'') get_string) (\<lambda>s.
     rbind (rbind (member nodes ''parallelism'') get_int) (\<lambda>n. Inr (fst entry, \<lparr>TaskName = s, parallelism = n\<rparr>))))"

definition parseJob :: "json_files \<Rightarrow> string \<Rightarrow> parsed_job result" where
  "parseJob fs path =
     rbind (openJob fs (path @ ''job.json'')) (\<lambda>doc.
     rbind (member doc ''adjancency'') (\<lambda>adj.
     rbind (elements adj) (\<lambda>_.
     rbind (member doc ''nodes'') (\<lambda>nodes.
     rbind (elements nodes) (\<lambda>_.
     rbind (rbind (members adj) (rmap parse_entry)) (\<lambda>adjacency.
     rbind (rmap (parse_node nodes) adjacency) (\<lambda>data.
     Inr \<lparr>jobPath = path @ ''job.so'', adjacency = adjacency, taskData = data\<rparr>)))))))"

text \<open>The symbols of a library, if it can be opened.\<close>

type_synonym libraries = "string \<Rightarrow> (string \<Rightarrow> bool) option"

text \<open>
  \<open>parseSymbol\<close> closes the library when the symbol is missing; \<open>validateJob\<close> stops there. The result of both
  has the number of handles that are left open.
\<close>

definition parseSymbol :: "(string \<Rightarrow> bool) \<Rightarrow> string \<Rightarrow> nat \<Rightarrow> bool \<times> nat" where
  "parseSymbol has symbol handles = (if has symbol then (True, handles) else (False, handles - 1))"

fun parse_symbols :: "(string \<Rightarrow> bool) \<Rightarrow> (string \<times> job_node) list \<Rightarrow> nat \<Rightarrow> bool \<times> nat" where
  "parse_symbols has [] handles = (True, handles)"
| "parse_symbols has (e # es) handles =
     (let (ok, handles) = parseSymbol has (c_str (TaskName (snd e))) handles
      in if \<not> ok then (False, handles) else parse_symbols has es handles)"

definition validateJob :: "libraries \<Rightarrow> parsed_job \<Rightarrow> string \<Rightarrow> nat \<Rightarrow> (bool \<times> nat) result" where
  "validateJob libs job path handles = (case libs (path @ ''job.so'') of None \<Rightarrow> Inl Process_exit
     | Some has \<Rightarrow> Inr (parse_symbols has (taskData job) (Suc handles)))"

definition generateJob :: "json_files \<Rightarrow> libraries \<Rightarrow> string \<Rightarrow> (bool \<times> parsed_job) result" where
  "generateJob fs libs path =
     rbind (parseJob fs (path @ ''job.json'')) (\<lambda>job.
     rbind (validateJob libs job path 0) (\<lambda>(ok, handles).
     if ok then Inr (True, job) else Inr (False, \<lparr>jobPath = '''', adjacency = [], taskData = []\<rparr>)))"

definition SubmitJob :: "json_files \<Rightarrow> libraries \<Rightarrow> string \<Rightarrow> job_manager \<Rightarrow> (bool \<times> manager_call list) result" where
  "SubmitJob fs libs job s =
     rbind (generateJob fs libs job) (\<lambda>_. Inr (False, map (\<lambda>_. TM_SubmitJob) (taskManagerNodes s)))"

section \<open>Libraries\<close>

text \<open>A valid job leaves its library open, an invalid one does not.\<close>

lemma parse_symbols_handles:
  "parse_symbols has es (Suc n) =
     (let ok = list_all (\<lambda>e. has (c_str (TaskName (snd e)))) es in (ok, if ok then Suc n else n))"
  by (induction es) (auto simp: parseSymbol_def Let_def)

section \<open>Loads\<close>

lemma load_get_set: "load_get H (load_set H cn rr m) x = (if same_key H cn x then Some rr else load_get H m x)"
  by (induction H cn rr m rule: load_set.induct) (auto simp: same_key_def node_eq_def)

text \<open>Integers of up to 24 digits are held exactly.\<close>

lemma float_exact: "\<bar>i\<bar> < 2 ^ 24 \<Longrightarrow> float_of_int i = of_int i"
proof -
  assume "\<bar>i\<bar> < 2 ^ 24"
  then have "float_digits (nat \<bar>i\<bar>) = 0" by (subst float_digits.simps) simp
  then have "float_of_int i = of_int (sgn i) * of_nat (nat \<bar>i\<bar>)" by (simp add: float_of_int_def nearest_even_def)
  then show ?thesis by (simp add: sgn_if)
qed

lemma min_from_least:
  "min_from best m \<in> set (best # m) \<and> (\<forall>x \<in> set (best # m). memoryUsage (snd (min_from best m)) \<le> memoryUsage (snd x))"
proof (induction best m rule: min_from.induct)
  case (2 best x xs)
  show ?case
  proof (cases "report_less (snd x) (snd best)")
    case True
    from 2(1) [OF True] True show ?thesis
      by (auto simp: report_less_def intro: order_trans [OF _ less_imp_le])
  next
    case False
    from 2(2) [OF False] False show ?thesis
      by (auto simp: report_less_def not_less intro: order_trans)
  qed
qed simp

lemma findMinLoad_least:
  assumes "findMinLoad m = Inr n"
  shows "\<exists>r. (n, r) \<in> set m \<and> (\<forall>x \<in> set m. memoryUsage r \<le> memoryUsage (snd x))"
proof -
  from assms obtain x xs where m: "m = x # xs" "n = fst (min_from x xs)"
    by (auto simp: findMinLoad_def split: list.splits)
  with min_from_least [of x xs] show ?thesis
    by (intro exI [of _ "snd (min_from x xs)"]) auto
qed

lemma to_int_tenth: "to_int (1 / 10) = 0"
  by (simp add: to_int_def floor_eq_iff)

lemma report_eq_never: "\<not> report_eq a b"
  by (simp add: report_eq_def to_int_tenth Let_def) (simp add: to_int_def)

section \<open>Properties\<close>

text \<open>
  Where the next task goes: with a load known for the current node, \<open>GiveMeDestination\<close> keeps
  that node if its load is not above the limit and the task's destination is known and
  running; otherwise it moves to a node of the map with the least memory usage, and stays
  there. A load that is not known, or a destination without a status, ends in
  \<open>std::out_of_range\<close>.
\<close>

theorem destination_least_loaded:
  "case load_get (load_hash s) (loadMap s) (CurrentNode s) of
     None \<Rightarrow> GiveMeDestination task s = Inl Out_of_range
   | Some l \<Rightarrow>
       (let known = um_get (destinationMap s) task;
            status = (case known of None \<Rightarrow> None | Some d \<Rightarrow> um_get (taskMap s) d)
        in if memoryUsage l \<le> memoryUsage (maxLoad s) \<and> known \<noteq> None \<and> status = None
           then GiveMeDestination task s = Inl Out_of_range
           else if memoryUsage l \<le> memoryUsage (maxLoad s) \<and> status = Some RUNNING
           then GiveMeDestination task s = Inr (CurrentNode s, s)
           else \<exists>n r. GiveMeDestination task s = Inr (n, s\<lparr>CurrentNode := n\<rparr>) \<and> (n, r) \<in> set (loadMap s)
                  \<and> (\<forall>x \<in> set (loadMap s). memoryUsage r \<le> memoryUsage (snd x)))"
proof (cases "load_get (load_hash s) (loadMap s) (CurrentNode s)")
  case None
  then show ?thesis by (simp add: GiveMeDestination_def)
next
  case (Some l)
  then obtain x xs where "loadMap s = x # xs" by (cases "loadMap s") auto
  then obtain n where n: "findMinLoad (loadMap s) = Inr n" by (simp add: findMinLoad_def)
  obtain r where r: "(n, r) \<in> set (loadMap s)" "\<forall>x \<in> set (loadMap s). memoryUsage r \<le> memoryUsage (snd x)"
    using findMinLoad_least [OF n] by blast
  show ?thesis
  proof (cases "um_get (destinationMap s) task")
    case None
    then show ?thesis
      using Some n r by (auto simp: GiveMeDestination_def)
  next
    case d: (Some d)
    show ?thesis
      using Some d n r
      by (cases "um_get (taskMap s) d"; cases "the (um_get (taskMap s) d)")
        (auto simp: GiveMeDestination_def report_greater_def um_at_def not_le)
  qed
qed

definition two_loads :: job_manager where
  "two_loads = (let load = \<lambda>i m. \<lparr>serverId = i, memoryUsage = m, cpuUsage = 0, queueUsage = 0\<rparr>
     in \<lparr>loadMap = [(\<lparr>ip = '''', nodeId = 1\<rparr>, load 1 90), (\<lparr>ip = '''', nodeId = 2\<rparr>, load 2 10)], load_hash = \<lambda>n. 0,
         CurrentNode = \<lparr>ip = '''', nodeId = 1\<rparr>, maxLoad = load 0 50, taskMap = [], destinationMap = [],
         taskManagerNodes = [1, 2]\<rparr>)"

theorem destination_least_loaded_witness:
  "\<exists>n. GiveMeDestination 7 two_loads = Inr (n, two_loads\<lparr>CurrentNode := n\<rparr>) \<and> nodeId n = 2"
  using destination_least_loaded [of 7 two_loads]
  by (auto simp: two_loads_def Let_def same_key_def node_eq_def)

text \<open>
  Equality and hash of cluster nodes do not fit together: two nodes with the same id are
  equal, and hash to the same bucket exactly when the low 63 bits of the hashes of their
  addresses agree; so a standard hash table may keep two loads for one node.
\<close>

theorem node_hash_breaks_equality:
  "nodeId a = nodeId b \<Longrightarrow> node_eq a b
    \<and> (node_hash hi hs a = node_hash hi hs b \<longleftrightarrow> take_bit 63 (hs (ip a)) = take_bit 63 (hs (ip b)))"
proof -
  assume ids: "nodeId a = nodeId b"
  have "drop_bit k (xor h (push_bit k x)) = xor (drop_bit k h) (take_bit (64 - k) x)" for k and h x :: u64
    by (rule bit_eqI) (auto simp: bit_drop_bit_eq bit_xor_iff bit_push_bit_iff bit_take_bit_iff
        dest: bit_imp_le_length)
  from this [of 1] have *: "drop_bit 1 (xor h (push_bit 1 x)) = xor (drop_bit 1 h) (take_bit 63 x)" for h x :: u64
    by simp
  have cancel: "x = y" if "xor c x = xor c y" for c x y :: u64
  proof -
    from that have "xor c (xor c x) = xor c (xor c y)" by (simp only:)
    then show ?thesis by (simp only: xor.assoc [symmetric] xor_self_eq xor.left_neutral)
  qed
  have "node_hash hi hs n = xor (drop_bit 1 (hi (nodeId n))) (take_bit 63 (hs (ip n)))" for n
    by (simp only: node_hash_def *)
  then show ?thesis
    by (auto simp only: node_eq_def ids dest: cancel)
qed

theorem node_hash_breaks_equality_witness:
  "node_eq \<lparr>ip = ''a'', nodeId = 1\<rparr> \<lparr>ip = ''bc'', nodeId = 1\<rparr>
   \<and> node_hash (\<lambda>i. word_of_int i) (\<lambda>s. of_nat (length s)) \<lparr>ip = ''a'', nodeId = 1\<rparr>
     \<noteq> node_hash (\<lambda>i. word_of_int i) (\<lambda>s. of_nat (length s)) \<lparr>ip = ''bc'', nodeId = 1\<rparr>"
  using node_hash_breaks_equality [of "\<lparr>ip = ''a'', nodeId = 1\<rparr>" "\<lparr>ip = ''bc'', nodeId = 1\<rparr>"
      "\<lambda>i. word_of_int i" "\<lambda>s. of_nat (length s)"]
  by simp

text \<open>
  The tolerance of ten percent is none: no report equals another, not even itself, so a task
  manager sends every report it makes; over a network that delivers, the job manager's map
  then has the last one for the node without an address and with that id, and keeps the loads of the other nodes.
\<close>

theorem every_report_sent:
  assumes "delivers tr"
  shows "\<not> report_eq a b
    \<and> (\<exists>s'. report_loads tr jm_id my_id previous news s = Inr (length news, s')
        \<and> (\<forall>cn. load_get (load_hash s) (loadMap s') cn =
             (if same_key (load_hash s) \<lparr>ip = '''', nodeId = my_id\<rparr> cn \<and> news \<noteq> [] then Some (last news)
              else load_get (load_hash s) (loadMap s) cn)))"
proof
  show "\<not> report_eq a b" by (rule report_eq_never)
  show "\<exists>s'. report_loads tr jm_id my_id previous news s = Inr (length news, s')
        \<and> (\<forall>cn. load_get (load_hash s) (loadMap s') cn =
             (if same_key (load_hash s) \<lparr>ip = '''', nodeId = my_id\<rparr> cn \<and> news \<noteq> [] then Some (last news)
              else load_get (load_hash s) (loadMap s) cn))"
  proof (induction news arbitrary: previous s)
    case (Cons new news)
    let ?s = "snd (UpdateLoad \<lparr>ip = '''', nodeId = my_id\<rparr> new s)"
    have u: "jm_UpdateLoad tr jm_id \<lparr>ip = '''', nodeId = my_id\<rparr> new s = Inr (True, ?s)"
      using assms by (simp add: jm_UpdateLoad_def delivers_def um_get_def jm_bindings_def UpdateLoad_def)
    from Cons.IH [of new ?s] obtain s' where
      "report_loads tr jm_id my_id new news ?s = Inr (length news, s')"
      "\<forall>cn. load_get (load_hash s) (loadMap s') cn =
        (if same_key (load_hash s) \<lparr>ip = '''', nodeId = my_id\<rparr> cn \<and> news \<noteq> [] then Some (last news)
         else load_get (load_hash s) (loadMap ?s) cn)"
      by (force simp: UpdateLoad_def)
    then show ?case
      by (simp add: report_eq_never u) (auto simp: UpdateLoad_def load_get_set)
  qed simp
qed

definition idle_report :: resource_report where
  "idle_report = \<lparr>serverId = 1, memoryUsage = 10, cpuUsage = 0, queueUsage = 0\<rparr>"

definition sample_jm :: job_manager where
  "sample_jm = \<lparr>loadMap = [], load_hash = \<lambda>n. word_of_int (nodeId n), CurrentNode = \<lparr>ip = '''', nodeId = 1\<rparr>, maxLoad = idle_report, taskMap = [],
     destinationMap = [], taskManagerNodes = [1, 2]\<rparr>"

theorem every_report_sent_witness:
  "\<exists>s'. report_loads direct_call 0 1 idle_report [idle_report, idle_report] sample_jm = Inr (2, s')"
proof -
  have "length [idle_report, idle_report] = 2" by simp
  with every_report_sent [OF delivers_direct_call, of idle_report idle_report 0 1 idle_report "[idle_report, idle_report]" sample_jm]
  show ?thesis by metis
qed

text \<open>
  No job is ever submitted: the client's \<open>SubmitJob\<close> and \<open>StopJob\<close> name functions the job manager
  does not bind; and on the server the file name is extended twice, so that \<open>job.jsonjob.json\<close> is
  opened, and the adjacency that must be an array is then walked as an object, so no document
  passes the parser.
\<close>

theorem no_job_submitted:
  assumes "delivers tr"
  shows "jm_SubmitJob tr job i s = Inl Rpc_error \<and> jm_StopJob tr i s = Inl Rpc_error
    \<and> (\<forall>r. SubmitJob fs libs job s \<noteq> Inr r)
    \<and> (fs (job @ ''job.jsonjob.json'') = None \<longrightarrow> SubmitJob fs libs job s = Inl Process_exit)"
proof (intro conjI allI impI)
  show "jm_SubmitJob tr job i s = Inl Rpc_error" "jm_StopJob tr i s = Inl Rpc_error"
    using assms by (simp_all add: jm_SubmitJob_def jm_StopJob_def delivers_def um_get_def jm_bindings_def)
  have "parseJob fs p \<noteq> Inr r" for p r
    by (auto simp: parseJob_def elements_def members_def split: json.splits)
  then show "SubmitJob fs libs job s \<noteq> Inr r" for r
    by (auto simp: SubmitJob_def generateJob_def)
  assume "fs (job @ ''job.jsonjob.json'') = None"
  then show "SubmitJob fs libs job s = Inl Process_exit"
    by (simp add: SubmitJob_def generateJob_def parseJob_def openJob_def)
qed

theorem no_job_submitted_witness:
  "SubmitJob (\<lambda>p. if p = ''x/job.json'' then Some (Some (JObj [])) else None) (\<lambda>p. None) ''x/'' sample_jm = Inl Process_exit"
  using no_job_submitted [OF delivers_direct_call, of "''x/''" 0 sample_jm
      "\<lambda>p. if p = ''x/job.json'' then Some (Some (JObj [])) else None" "\<lambda>p. None"]
  by simp

end
