(* ===== verification/Cluster.thy ===== *)
theory Cluster
  imports Job_Manager
begin

text \<open>
  The job manager and its task managers at work: the load reports a task manager measures and sends
  (\<open>generateLoadReport\<close> and \<open>RunInternal\<close> in \<open>old/TaskManager/src/server/Server.cpp\<close>), the placement of tasks between
  them, and the stop of all task managers (\<open>FinalizeTaskManager\<close> and \<open>StopJobManager\<close> in
  \<open>old/JobManager/src/server/Server.cpp\<close>) through the task manager's client.
\<close>

section \<open>Load reports\<close>

text \<open>What a task manager reads in one round: the clock, its times and \<open>/proc/self/status\<close>.\<close>

record sample =
  at_clock :: int
  at_stime :: int
  at_utime :: int
  proc_status :: "string list"

record reporter =
  my_id :: int
  jm_id :: nat
  cpu :: cpu_state
  previousReport :: resource_report

definition generateLoadReport :: "sample \<Rightarrow> reporter \<Rightarrow> (resource_report \<times> reporter) result" where
  "generateLoadReport x r =
     rbind (MeasureMemory (proc_status x)) (\<lambda>mem.
       let (percent, c) = MeasureCpu (at_clock x) (at_stime x) (at_utime x) (cpu r)
       in Inr (\<lparr>serverId = my_id r, memoryUsage = float_of_int mem, cpuUsage = percent, queueUsage = 0\<rparr>, r\<lparr>cpu := c\<rparr>))"

text \<open>One round of \<open>RunInternal\<close>.\<close>

definition report_round :: "jm_transport \<Rightarrow> sample \<Rightarrow> reporter \<times> job_manager \<Rightarrow> (reporter \<times> job_manager) result" where
  "report_round tr x rs =
     rbind (generateLoadReport x (fst rs)) (\<lambda>(newReport, r).
       if report_eq newReport (previousReport r) then Inr (r, snd rs)
       else rbind (jm_UpdateLoad tr (jm_id r) \<lparr>ip = '''', nodeId = my_id r\<rparr> newReport (snd rs)) (\<lambda>(b, s).
         Inr (r\<lparr>previousReport := newReport\<rparr>, s)))"

section \<open>The state machine of reports and placements\<close>

datatype cluster_step = Report int sample | Place int

type_synonym reporters = "int \<Rightarrow> reporter"

fun cluster_act :: "jm_transport \<Rightarrow> cluster_step \<Rightarrow> reporters \<times> job_manager \<Rightarrow> (reporters \<times> job_manager) result" where
  "cluster_act tr (Report i x) (W, s) = rbind (report_round tr x (W i, s)) (\<lambda>(r, s'). Inr (W(i := r), s'))"
| "cluster_act tr (Place task) (W, s) = rbind (GiveMeDestination task s) (\<lambda>(n, s'). Inr (W, s'))"

fun cluster_run :: "jm_transport \<Rightarrow> cluster_step list \<Rightarrow> reporters \<times> job_manager \<Rightarrow> (reporters \<times> job_manager) result" where
  "cluster_run tr [] Ws = Inr Ws"
| "cluster_run tr (st # sts) Ws = rbind (cluster_act tr st Ws) (cluster_run tr sts)"

text \<open>The memory that each task manager measured last.\<close>

fun measured :: "cluster_step \<Rightarrow> (int \<Rightarrow> int option) \<Rightarrow> int \<Rightarrow> int option" where
  "measured (Report i x) f = (case MeasureMemory (proc_status x) of Inr m \<Rightarrow> f(i \<mapsto> m) | Inl _ \<Rightarrow> f)"
| "measured (Place task) f = f"

definition last_memory :: "cluster_step list \<Rightarrow> int \<Rightarrow> int option" where
  "last_memory sts = fold measured sts Map.empty"

section \<open>The invariant\<close>

definition node_ids :: "load_map \<Rightarrow> int list" where
  "node_ids m = map (\<lambda>e. nodeId (fst e)) m"

text \<open>The key under which a report of the node with this id is stored: it has no address.\<close>

definition node_key :: "int \<Rightarrow> cluster_node" where
  "node_key i = \<lparr>ip = '''', nodeId = i\<rparr>"

lemma node_key_id [simp]: "nodeId (node_key i) = i"
  by (simp add: node_key_def)

definition reported_node :: "node_hashing \<Rightarrow> cluster_node \<Rightarrow> bool" where
  "reported_node H cn = (H cn = H (node_key (nodeId cn)))"

definition loads_agree :: "(int \<Rightarrow> int option) \<Rightarrow> reporters \<times> job_manager \<Rightarrow> bool" where
  "loads_agree f Ws =
     ((\<forall>i. my_id (fst Ws i) = i)
      \<and> distinct (node_ids (loadMap (snd Ws)))
      \<and> (\<forall>k \<in> set (map fst (loadMap (snd Ws))). k = node_key (nodeId k))
      \<and> (\<forall>cn. map_option memoryUsage (load_get (load_hash (snd Ws)) (loadMap (snd Ws)) cn)
           = (if reported_node (load_hash (snd Ws)) cn then map_option float_of_int (f (nodeId cn)) else None)))"

lemma same_node_key: "same_key H (node_key i) cn \<longleftrightarrow> nodeId cn = i \<and> reported_node H cn"
  by (auto simp: same_key_def node_eq_def reported_node_def)

lemma set_nodes: "set (map fst (load_set H cn rr m)) \<subseteq> insert cn (set (map fst m))"
  by (induction H cn rr m rule: load_set.induct) auto

lemma distinct_node_ids:
  assumes "distinct (node_ids m)" "\<forall>k \<in> set (map fst m). k = node_key (nodeId k)"
  shows "distinct (node_ids (load_set H (node_key i) rr m))"
  using assms
proof (induction m)
  case (Cons e m)
  obtain k v where e: "e = (k, v)" by (cases e)
  have k: "k = node_key (nodeId k)" using Cons.prems(2) by (simp add: e)
  show ?case
  proof (cases "same_key H k (node_key i)")
    case False
    then have "nodeId k \<noteq> i" using k by (auto simp: same_key_def node_eq_def)
    moreover have "set (node_ids (load_set H (node_key i) rr m)) \<subseteq> insert i (set (node_ids m))"
      using image_mono [OF set_nodes, of nodeId H "node_key i" rr m] by (simp add: node_ids_def image_comp comp_def)
    ultimately have "nodeId k \<notin> set (node_ids (load_set H (node_key i) rr m))"
      using Cons.prems(1) by (auto simp: e node_ids_def)
    with Cons False show ?thesis by (simp add: e node_ids_def)
  qed (use Cons.prems in \<open>simp add: e node_ids_def\<close>)
qed (simp add: node_ids_def)

lemma load_get_member:
  "distinct (node_ids m) \<Longrightarrow> (n, r) \<in> set m \<Longrightarrow> load_get H m n = Some r"
  by (induction H m n rule: load_get.induct) (force simp: same_key_def node_eq_def node_ids_def)+

lemma load_get_listed: "load_get H m cn = Some r \<Longrightarrow> \<exists>k. (k, r) \<in> set m"
  by (induction H m cn rule: load_get.induct) (auto split: if_splits)

lemma placement_keeps_loads: "GiveMeDestination task s = Inr (n, s') \<Longrightarrow>
  loadMap s' = loadMap s \<and> load_hash s' = load_hash s \<and> destinationMap s' = destinationMap s"
  by (auto simp: GiveMeDestination_def split: option.splits if_splits)

lemma report_measured:
  assumes "delivers tr" "report_round tr x (r, s) = Inr (r', s')"
  obtains m cp where "MeasureMemory (proc_status x) = Inr m" "my_id r' = my_id r"
    "loadMap s' = load_set (load_hash s) (node_key (my_id r))
       \<lparr>serverId = my_id r, memoryUsage = float_of_int m, cpuUsage = cp, queueUsage = 0\<rparr> (loadMap s)"
    "destinationMap s' = destinationMap s" "load_hash s' = load_hash s"
  using assms
  by (auto simp: node_key_def report_round_def generateLoadReport_def report_eq_never jm_UpdateLoad_def delivers_def um_get_def
      jm_bindings_def UpdateLoad_def Let_def split: prod.splits)

lemma agree_step:
  assumes "delivers tr" "cluster_act tr st Ws = Inr Ws'" "loads_agree f Ws"
  shows "loads_agree (measured st f) Ws' \<and> destinationMap (snd Ws') = destinationMap (snd Ws)"
proof (cases st)
  case (Report i x)
  obtain W s where Ws: "Ws = (W, s)" by (cases Ws)
  from assms(2) obtain r' s' where r: "report_round tr x (W i, s) = Inr (r', s')" "Ws' = (W(i := r'), s')"
    by (auto simp: Report Ws)
  obtain m cp where m: "MeasureMemory (proc_status x) = Inr m" "my_id r' = my_id (W i)"
    "loadMap s' = load_set (load_hash s) (node_key (my_id (W i)))
       \<lparr>serverId = my_id (W i), memoryUsage = float_of_int m, cpuUsage = cp, queueUsage = 0\<rparr> (loadMap s)"
    "destinationMap s' = destinationMap s" "load_hash s' = load_hash s"
    using report_measured [OF assms(1) r(1)] by blast
  have id: "my_id (W i) = i" and nodes: "distinct (node_ids (loadMap s))" "\<forall>k \<in> set (map fst (loadMap s)). k = node_key (nodeId k)"
    and loads: "\<And>cn. map_option memoryUsage (load_get (load_hash s) (loadMap s) cn)
      = (if reported_node (load_hash s) cn then map_option float_of_int (f (nodeId cn)) else None)"
    using assms(3) by (simp_all add: Ws loads_agree_def)
  have "\<forall>k \<in> set (map fst (loadMap s')). k = node_key (nodeId k)"
    using nodes(2) set_nodes m(3) by fastforce
  moreover have "distinct (node_ids (loadMap s'))" by (simp add: m(3) distinct_node_ids [OF nodes])
  moreover have "map_option memoryUsage (load_get (load_hash s') (loadMap s') cn)
      = (if reported_node (load_hash s') cn then map_option float_of_int (measured (Report i x) f (nodeId cn)) else None)" for cn
    using loads [of cn] by (simp add: m load_get_set same_node_key id)
  ultimately show ?thesis using assms(3) r(2) m(2,4) by (simp add: Report Ws loads_agree_def id del: measured.simps)
next
  case (Place task)
  obtain W s where Ws: "Ws = (W, s)" by (cases Ws)
  from assms(2) obtain n s' where "GiveMeDestination task s = Inr (n, s')" "Ws' = (W, s')" by (auto simp: Place Ws)
  with placement_keeps_loads [OF this(1)] assms(3) show ?thesis by (simp add: Ws Place loads_agree_def)
qed

lemma agree_run:
  assumes "delivers tr" "cluster_run tr sts Ws = Inr Ws'" "loads_agree f Ws"
  shows "loads_agree (fold measured sts f) Ws' \<and> destinationMap (snd Ws') = destinationMap (snd Ws)"
  using assms(2,3)
proof (induction sts arbitrary: Ws f)
  case (Cons st sts)
  then obtain Ws1 where 1: "cluster_act tr st Ws = Inr Ws1" "cluster_run tr sts Ws1 = Inr Ws'" by auto
  with agree_step [OF assms(1) 1(1) Cons.prems(2)] Cons.IH [OF 1(2)] show ?case by auto
qed simp

section \<open>Stopping the task managers\<close>

text \<open>The task managers are worlds of theory \<open>Task_Executor\<close>; the calls for jobs are no functions of its client.\<close>

definition FinalizeTaskManager :: "'q tm_net \<Rightarrow> int \<Rightarrow> 'q managers \<Rightarrow> 'q managers result" where
  "FinalizeTaskManager N i W = rbind (at_server i (c_TerminateTaskManager N i) W) (\<lambda>(b, W). Inr W)"

fun perform :: "'q tm_net \<Rightarrow> manager_call list \<Rightarrow> bool \<times> 'q managers \<Rightarrow> (bool \<times> 'q managers) result" where
  "perform N [] st = Inr st"
| "perform N (TM_Terminate i # calls) (gone, W) =
     rbind (FinalizeTaskManager N i W) (\<lambda>W. perform N calls (gone, W))"
| "perform N (Exit_server # calls) (gone, W) =
     (if gone then Inl Thread_error else perform N calls (True, W))"
| "perform N (TM_SubmitJob # calls) st = Inl Rpc_error"
| "perform N (TM_StopJob # calls) st = Inl Rpc_error"

lemma finalize_manager:
  assumes "good_net E cp mem N"
  shows "FinalizeTaskManager N i W = (if executorStop (W i) = [] \<and> \<not> exited (W i) then Inr (W(i := (W i)\<lparr>exited := True\<rparr>))
    else Inl (if executorStop (W i) = [] then Thread_error else Invalid_iterator))"
proof -
  have "c_TerminateTaskManager N i s = TerminateTaskManager s" for s
    by (cases "TerminateTaskManager s")
      (auto simp: c_TerminateTaskManager_def net_call [OF assms] um_get_def tm_bindings_def as_defs)
  then show ?thesis
    by (auto simp: FinalizeTaskManager_def at_server_def TerminateTaskManager_def DestroyTask_def um_get_def
        split: list.splits)
qed

definition all_idle :: "int list \<Rightarrow> 'q managers \<Rightarrow> bool" where
  "all_idle ids W = (\<forall>i \<in> set ids. executorStop (W i) = [])"

definition all_fresh :: "int list \<Rightarrow> 'q managers \<Rightarrow> bool" where
  "all_fresh ids W = (distinct ids \<and> (\<forall>i \<in> set ids. \<not> exited (W i)))"

definition all_exited :: "int list \<Rightarrow> 'q managers \<Rightarrow> 'q managers" where
  "all_exited ids W = (\<lambda>i. if i \<in> set ids then (W i)\<lparr>exited := True\<rparr> else W i)"

lemma stop_one:
  assumes "executorStop (W i) = []" "\<not> exited (W i)"
  shows "all_idle ids (W(i := (W i)\<lparr>exited := True\<rparr>)) = all_idle (i # ids) W"
    "all_fresh ids (W(i := (W i)\<lparr>exited := True\<rparr>)) = all_fresh (i # ids) W"
    "all_exited ids (W(i := (W i)\<lparr>exited := True\<rparr>)) = all_exited (i # ids) W"
  using assms by (auto simp: all_idle_def all_fresh_def all_exited_def)

lemma stop_all:
  assumes "good_net E cp mem N"
  shows "if all_idle ids W \<and> all_fresh ids W
    then perform N (map TM_Terminate ids @ [Exit_server]) (False, W) = Inr (True, all_exited ids W)
    else \<exists>e. perform N (map TM_Terminate ids @ [Exit_server]) (False, W) = Inl e \<and> e \<in> {Invalid_iterator, Thread_error}
           \<and> (all_idle ids W \<longrightarrow> e = Thread_error) \<and> (all_fresh ids W \<longrightarrow> e = Invalid_iterator)"
proof (induction ids arbitrary: W)
  case (Cons i ids)
  show ?case
  proof (cases "executorStop (W i) = [] \<and> \<not> exited (W i)")
    case True
    then have step: "perform N (map TM_Terminate (i # ids) @ [Exit_server]) (False, W)
        = perform N (map TM_Terminate ids @ [Exit_server]) (False, W(i := (W i)\<lparr>exited := True\<rparr>))"
      by (simp add: finalize_manager [OF assms])
    from True Cons.IH [of "W(i := (W i)\<lparr>exited := True\<rparr>)"] show ?thesis
      by (simp only: step stop_one not_False_eq_True simp_thms)
  qed (auto simp: finalize_manager [OF assms] all_idle_def all_fresh_def)
qed (simp add: all_idle_def all_fresh_def all_exited_def)

section \<open>Properties\<close>

text \<open>
  C30. Tasks go where the measured memory is least: after any run of reports and placements
  that starts with an empty load map, the next task without a destination is placed on a task manager whose last
  measured \<open>VmSize\<close>, as the \<open>float\<close> of its report, is the least of all that have reported; below 16 GB that is the
  least measure. If the current node has never reported, or the map's hash tells its address from the empty
  address of the reports, the placement ends in \<open>std::out_of_range\<close>.
\<close>

theorem placement_follows_measures:
  assumes "delivers tr" "\<And>i. my_id (W i) = i" "loadMap s = []" "um_get (destinationMap s) task = None"
    and "cluster_run tr sts (W, s) = Inr (W', s')"
  shows "if load_hash s' (CurrentNode s') \<noteq> load_hash s' \<lparr>ip = '''', nodeId = nodeId (CurrentNode s')\<rparr>
        \<or> last_memory sts (nodeId (CurrentNode s')) = None
    then GiveMeDestination task s' = Inl Out_of_range
    else \<exists>n m. GiveMeDestination task s' = Inr (n, s'\<lparr>CurrentNode := n\<rparr>) \<and> last_memory sts (nodeId n) = Some m
        \<and> (\<forall>j m'. last_memory sts j = Some m' \<longrightarrow> float_of_int m \<le> float_of_int m'
             \<and> (\<bar>m\<bar> < 2 ^ 24 \<and> \<bar>m'\<bar> < 2 ^ 24 \<longrightarrow> m \<le> m'))"
proof -
  let ?f = "last_memory sts" and ?H = "load_hash s'"
  have "loads_agree Map.empty (W, s)" using assms(2,3) by (simp add: loads_agree_def node_ids_def)
  from agree_run [OF assms(1,5) this] have agree: "loads_agree ?f (W', s')" and dest: "um_get (destinationMap s') task = None"
    using assms(4) by (simp_all add: last_memory_def)
  then have nodes: "distinct (node_ids (loadMap s'))"
    and loads: "\<And>cn. map_option memoryUsage (load_get ?H (loadMap s') cn)
      = (if reported_node ?H cn then map_option float_of_int (?f (nodeId cn)) else None)"
    by (auto simp: loads_agree_def)
  have known: "\<exists>m. ?f (nodeId cn) = Some m \<and> memoryUsage r = float_of_int m" if "load_get ?H (loadMap s') cn = Some r" for cn r
    using loads [of cn] that by (cases "?f (nodeId cn)") (auto split: if_splits)
  show ?thesis
  proof (cases "load_get ?H (loadMap s') (CurrentNode s')")
    case None
    with loads [of "CurrentNode s'"] show ?thesis
      by (auto simp: GiveMeDestination_def reported_node_def node_key_def split: if_splits)
  next
    case (Some l)
    then obtain x xs where "loadMap s' = x # xs" by (cases "loadMap s'") auto
    then obtain n where n: "findMinLoad (loadMap s') = Inr n" by (simp add: findMinLoad_def)
    obtain r where r: "(n, r) \<in> set (loadMap s')" "\<forall>x \<in> set (loadMap s'). memoryUsage r \<le> memoryUsage (snd x)"
      using findMinLoad_least [OF n] by blast
    obtain m where m: "?f (nodeId n) = Some m" "memoryUsage r = float_of_int m"
      using known [OF load_get_member [OF nodes r(1)]] by blast
    have "float_of_int m \<le> float_of_int m'" if "?f j = Some m'" for j m'
    proof -
      from loads [of "node_key j"] that obtain r' where
        "load_get ?H (loadMap s') (node_key j) = Some r'" "memoryUsage r' = float_of_int m'" by (auto simp: reported_node_def)
      with load_get_listed r(2) m(2) show ?thesis by fastforce
    qed
    moreover from this have "m \<le> m'" if "?f j = Some m'" "\<bar>m\<bar> < 2 ^ 24" "\<bar>m'\<bar> < 2 ^ 24" for j m'
      using that float_exact by (metis of_int_le_iff)
    moreover have "GiveMeDestination task s' = Inr (n, s'\<lparr>CurrentNode := n\<rparr>)"
      using Some dest n by (simp add: GiveMeDestination_def)
    moreover have "?H (CurrentNode s') = ?H \<lparr>ip = '''', nodeId = nodeId (CurrentNode s')\<rparr>" "?f (nodeId (CurrentNode s')) \<noteq> None"
      using loads [of "CurrentNode s'"] Some known [OF Some] by (auto simp: reported_node_def node_key_def split: if_splits)
    ultimately show ?thesis using m(1) by auto
  qed
qed

definition status_of :: "nat \<Rightarrow> sample" where
  "status_of n = \<lparr>at_clock = 10, at_stime = 2, at_utime = 3, proc_status = [''VmSize: '' @ to_string n @ '' kB'' @ [CHR 0x0A]]\<rparr>"

definition new_reporter :: "int \<Rightarrow> reporter" where
  "new_reporter i = \<lparr>my_id = i, jm_id = 0, cpu = InitCPUMeasure 0 0 0 [''processor''], previousReport = idle_report\<rparr>"

lemma measure_status: "n < 2 ^ 31 \<Longrightarrow> MeasureMemory (proc_status (status_of n)) = Inr (int n)"
  using ParseLine_number [of n "''VmSize: ''" "[CHR 0x0A]"] by (simp add: status_of_def starts_with_def is_digit_def)

theorem placement_follows_measures_witness:
  "\<exists>W' s' n. cluster_run direct_call [Report 1 (status_of 900), Report 2 (status_of 300), Place 5, Report 2 (status_of 1000)]
       (new_reporter, sample_jm) = Inr (W', s') \<and> GiveMeDestination 7 s' = Inr (n, s'\<lparr>CurrentNode := n\<rparr>) \<and> nodeId n = 1"
proof -
  let ?sts = "[Report 1 (status_of 900), Report 2 (status_of 300), Place 5, Report 2 (status_of 1000)]"
  obtain W' s' where run: "cluster_run direct_call ?sts (new_reporter, sample_jm) = Inr (W', s')" "CurrentNode s' = \<lparr>ip = '''', nodeId = 2\<rparr>"
    by (simp add: report_round_def generateLoadReport_def measure_status report_eq_never jm_UpdateLoad_def direct_call_def
        um_get_def jm_bindings_def UpdateLoad_def GiveMeDestination_def findMinLoad_def report_less_def same_key_def node_eq_def Let_def
        float_exact
        case_prod_beta new_reporter_def sample_jm_def)
  have last: "last_memory ?sts = [1 \<mapsto> 900, 2 \<mapsto> 1000]"
    by (simp add: last_memory_def measure_status fun_eq_iff)
  have "my_id (new_reporter i) = i" for i by (simp add: new_reporter_def)
  from placement_follows_measures [OF delivers_direct_call this _ _ run(1), of 7] run(2) last
  obtain n where n: "GiveMeDestination 7 s' = Inr (n, s'\<lparr>CurrentNode := n\<rparr>)" "\<exists>m. last_memory ?sts (nodeId n) = Some m \<and> m \<le> 900"
    by (auto simp: sample_jm_def um_get_def split: if_splits)
  then have "nodeId n = 1" by (auto simp: last split: if_splits)
  with run(1) n(1) show ?thesis by blast
qed

text \<open>
  C31. The job manager stops its task managers only when all are idle: \<open>StopJobManager\<close> succeeds exactly when no
  task manager it names runs a task, has been stopped before, or is named twice; then these
  task managers, and no others, have got their exit signal. It fails with an invalid iterator when tasks
  run, and with an exception of the promise when one is signalled twice.
\<close>

theorem stop_needs_idle_managers:
  assumes "good_net E cp mem N"
  shows "let ids = taskManagerNodes s; idle = (\<forall>i \<in> set ids. executorStop (W i) = []);
        fresh = (distinct ids \<and> (\<forall>i \<in> set ids. \<not> exited (W i)))
    in if idle \<and> fresh
       then perform N (StopJobManager s) (False, W) = Inr (True, \<lambda>i. if i \<in> set ids then (W i)\<lparr>exited := True\<rparr> else W i)
       else \<exists>e. perform N (StopJobManager s) (False, W) = Inl e \<and> e \<in> {Invalid_iterator, Thread_error}
              \<and> (idle \<longrightarrow> e = Thread_error) \<and> (fresh \<longrightarrow> e = Invalid_iterator)"
  using stop_all [OF assms, of "taskManagerNodes s" W]
  by (simp only: StopJobManager_def Let_def all_idle_def all_fresh_def all_exited_def)

theorem stop_needs_idle_managers_witness:
  "\<exists>W'. perform sample_net (StopJobManager sample_jm) (False, \<lambda>_. empty_tm) = Inr (True, W') \<and> exited (W' 1) \<and> \<not> exited (W' 3)"
  using stop_needs_idle_managers [OF good_sample_net, of sample_jm "\<lambda>_. empty_tm"]
  by (auto simp: sample_jm_def empty_tm_def)

end
