(* ===== verification/Old_Config.thy ===== *)
theory Old_Config
  imports Config Json
begin

text \<open>
  The configuration of the first version
  (\<open>old/basketCommon/include/basket/configuration_manager.h\<close>): its fields, the three checked accessors,
  the count of the servers in a host file, loading, and the configuration of the clients and
  servers of the queue service. \<open>LoadServers\<close> of basket is a parameter.
\<close>

section \<open>State\<close>

record rhea_conf =
  QUEUE_CLIENT_LISTS :: string
  QUEUE_SERVER_PORT :: u16
  QUEUE_CLIENT_PORT :: u16
  JOB_MANAGER_SERVER_PORT :: u16
  TASK_MANAGER_SERVER_PORT :: u16
  QUEUE_SERVER_RPC_THREADS :: u16
  QUEUE_CLIENT_RPC_THREADS :: u16
  QUEUE_DIR :: string
  CONFIGURATION_FILE :: string
  NVME_CAPACITY :: u64
  SSD_CAPACITY :: u64
  QUEUE_SERVERS_COUNT :: int

definition Rhea_ConfigurationManager :: rhea_conf where
  "Rhea_ConfigurationManager =
     \<lparr>QUEUE_CLIENT_LISTS = ''/home/jaime/Documents/Rhea/Rhea/conf/server_lists/chronoplayer_client'',
      QUEUE_SERVER_PORT = 13000,
      QUEUE_CLIENT_PORT = 14000,
      JOB_MANAGER_SERVER_PORT = 12000,
      TASK_MANAGER_SERVER_PORT = 11000,
      QUEUE_SERVER_RPC_THREADS = 4,
      QUEUE_CLIENT_RPC_THREADS = 1,
      QUEUE_DIR = ''/dev/shm/hari/Rhea'',
      CONFIGURATION_FILE = ''/home/jaime/Documents/Rhea/Rhea/conf/config/Rhea.json'',
      NVME_CAPACITY = 200 * 1024 * 1024 * 1024,
      SSD_CAPACITY = 1024 * 1024 * 1024 * 1024,
      QUEUE_SERVERS_COUNT = 1\<rparr>"

text \<open>The further fields of \<open>BASKET_CONF\<close> that these sources set or read.\<close>

record queue_basket = basket_conf +
  SERVER_LIST_PATH :: string
  IS_SERVER :: bool
  MY_SERVER :: nat
  SERVER_ON_NODE :: bool
  MPI_RANK :: nat

section \<open>Accessors\<close>

definition config_uint16 :: "json \<Rightarrow> string \<Rightarrow> u16 result" where
  "config_uint16 doc m = rbind (member doc m) (\<lambda>v. rbind (get_int v) (\<lambda>i. Inr (word_of_int i)))"

definition config_really_long :: "json \<Rightarrow> string \<Rightarrow> u64 result" where
  "config_really_long doc m = rbind (member doc m) get_uint64"

text \<open>\<open>GetString\<close> answers a C string, which ends at the first NUL; \<open>cs\<close> is basket's conversion of it to a \<open>CharStruct\<close>.\<close>

definition config_CharStruct :: "(string \<Rightarrow> string) \<Rightarrow> json \<Rightarrow> string \<Rightarrow> string result" where
  "config_CharStruct cs doc m = rbind (rbind (member doc m) get_string) (\<lambda>s. Inr (cs (c_str s)))"

section \<open>Counting servers\<close>

text \<open>\<open>getline\<close> in a loop: the lines of a file; a final newline starts no line.\<close>

function getlines :: "string \<Rightarrow> string list" where
  "getlines [] = []"
| "getlines (c # cs) =
     (let rest = dropWhile (\<lambda>x. x \<noteq> CHR 0x0A) (c # cs)
      in takeWhile (\<lambda>x. x \<noteq> CHR 0x0A) (c # cs) # (if rest = [] then [] else getlines (tl rest)))"
  by pat_completeness auto
termination
proof (relation "measure length")
  fix c :: char and cs rest :: string
  assume "rest = dropWhile (\<lambda>x. x \<noteq> CHR 0x0A) (c # cs)" "rest \<noteq> []"
  then show "(tl rest, c # cs) \<in> measure length"
    using length_dropWhile_le [of "\<lambda>x. x \<noteq> CHR 0x0A" "c # cs"] by (cases rest) auto
qed simp

text \<open>\<open>find\<close> answers a \<open>size_t\<close>, \<open>npos\<close> being the largest one; it is stored in an \<open>int\<close>.\<close>

definition find_char :: "char \<Rightarrow> string \<Rightarrow> u64" where
  "find_char c s = (if c \<in> set s then of_nat (length (takeWhile (\<lambda>x. x \<noteq> c) s)) else - 1)"

definition line_count :: "string \<Rightarrow> int result" where
  "line_count file_line =
     (let split_loc = int_of_u64 (find_char (CHR '':'') file_line)
      in if u64_of_int split_loc \<noteq> - 1
         then rbind (fit_int (split_loc + 1)) (\<lambda>start.
           let pos = unat (u64_of_int start)
           in if pos > length file_line then Inl Out_of_range else atoi (c_str (drop pos file_line)))
         else Inr 1)"

text \<open>The inner loop adds the servers of a line one by one.\<close>

fun count_up :: "nat \<Rightarrow> int \<Rightarrow> int result" where
  "count_up 0 tot = Inr tot"
| "count_up (Suc n) tot = rbind (fit_int (tot + 1)) (count_up n)"

fun count_lines :: "string list \<Rightarrow> int \<Rightarrow> int result" where
  "count_lines [] tot = Inr tot"
| "count_lines (file_line # ls) tot =
     (if file_line = [] then count_lines ls tot
      else rbind (line_count file_line) (\<lambda>n. rbind (count_up (nat n) tot) (count_lines ls)))"

definition CountServers :: "(string \<Rightarrow> string option) \<Rightarrow> string \<Rightarrow> int result" where
  "CountServers fs server_list_path =
     (case fs (c_str server_list_path) of None \<Rightarrow> Inl Process_exit | Some content \<Rightarrow> count_lines (getlines content) 0)"

section \<open>Loading\<close>

definition LoadRheaConfiguration :: "(string \<Rightarrow> string) \<Rightarrow> json_files \<Rightarrow> rhea_conf \<Rightarrow> rhea_conf result" where
  "LoadRheaConfiguration cs fs c =
     (case fs (c_str (CONFIGURATION_FILE c)) of
        None \<Rightarrow> Inl Process_exit
      | Some None \<Rightarrow> Inl Process_exit
      | Some (Some doc) \<Rightarrow>
          (case doc of JObj _ \<Rightarrow>
             rbind (config_CharStruct cs doc ''QUEUE_CLIENT_LISTS'') (\<lambda>v. let c = c\<lparr>QUEUE_CLIENT_LISTS := v\<rparr> in
             rbind (config_uint16 doc ''JOB_MANAGER_SERVER_PORT'') (\<lambda>v. let c = c\<lparr>JOB_MANAGER_SERVER_PORT := v\<rparr> in
             rbind (config_uint16 doc ''TASK_MANAGER_SERVER_PORT'') (\<lambda>v. let c = c\<lparr>TASK_MANAGER_SERVER_PORT := v\<rparr> in
             rbind (config_CharStruct cs doc ''QUEUE_DIR'') (\<lambda>v. let c = c\<lparr>QUEUE_DIR := v\<rparr> in
             rbind (config_uint16 doc ''QUEUE_SERVER_PORT'') (\<lambda>v. let c = c\<lparr>QUEUE_SERVER_PORT := v\<rparr> in
             rbind (config_uint16 doc ''QUEUE_CLIENT_PORT'') (\<lambda>v. let c = c\<lparr>QUEUE_CLIENT_PORT := v\<rparr> in
             rbind (config_uint16 doc ''QUEUE_CLIENT_RPC_THREADS'') (\<lambda>v. let c = c\<lparr>QUEUE_CLIENT_RPC_THREADS := v\<rparr> in
             rbind (config_uint16 doc ''QUEUE_SERVER_RPC_THREADS'') (\<lambda>v. let c = c\<lparr>QUEUE_SERVER_RPC_THREADS := v\<rparr> in
             rbind (config_really_long doc ''NVME_CAPACITY'') (\<lambda>v. let c = c\<lparr>NVME_CAPACITY := v\<rparr> in
             rbind (config_really_long doc ''SSD_CAPACITY'') (\<lambda>v. let c = c\<lparr>SSD_CAPACITY := v\<rparr> in
             Inr c))))))))))
           | _ \<Rightarrow> Inl Process_exit))"

section \<open>The queue service's configurations\<close>

text \<open>
  \<open>QUEUE_CLIENT_LISTS.c_str() != ""\<close> compares two different addresses, so the path is always set.
  \<open>load_servers\<close> is basket's \<open>LoadServers\<close>.
\<close>

definition my_server_of :: "queue_basket \<Rightarrow> nat result" where
  "my_server_of b = (if NUM_SERVERS b = 0 then Inl Division_by_zero else Inr (MPI_RANK b mod NUM_SERVERS b))"

definition ConfigureQueueClient ::
  "(string \<Rightarrow> string) \<Rightarrow> json_files \<Rightarrow> (queue_basket \<Rightarrow> queue_basket) \<Rightarrow> rhea_conf \<times> queue_basket \<Rightarrow> (rhea_conf \<times> queue_basket) result" where
  "ConfigureQueueClient cs fs load_servers cb =
     rbind (LoadRheaConfiguration cs fs (fst cb)) (\<lambda>c.
       let b = (snd cb)\<lparr>RPC_THREADS := QUEUE_CLIENT_RPC_THREADS c\<rparr>;
           b = b\<lparr>MEMORY_ALLOCATED := 1024 * 1024 * 1024 * 1\<rparr>;
           b = b\<lparr>SERVER_LIST_PATH := c_str (QUEUE_CLIENT_LISTS c)\<rparr>;
           b = load_servers b;
           b = b\<lparr>IS_SERVER := False\<rparr>
       in rbind (my_server_of b) (\<lambda>m.
         let b = b\<lparr>MY_SERVER := m\<rparr>;
             b = b\<lparr>SERVER_ON_NODE := True\<rparr>;
             b = b\<lparr>RPC_PORT := QUEUE_CLIENT_PORT c\<rparr>
         in Inr (c, b)))"

definition ConfigureQueueServer ::
  "(string \<Rightarrow> string) \<Rightarrow> json_files \<Rightarrow> (queue_basket \<Rightarrow> queue_basket) \<Rightarrow> rhea_conf \<times> queue_basket \<Rightarrow> (rhea_conf \<times> queue_basket) result" where
  "ConfigureQueueServer cs fs load_servers cb =
     rbind (LoadRheaConfiguration cs fs (fst cb)) (\<lambda>c.
       let b = (snd cb)\<lparr>RPC_THREADS := QUEUE_CLIENT_RPC_THREADS c\<rparr>;
           b = b\<lparr>MEMORY_ALLOCATED := 1024 * 1024 * 1024 * 1\<rparr>;
           b = b\<lparr>SERVER_LIST_PATH := c_str (QUEUE_CLIENT_LISTS c)\<rparr>;
           b = load_servers b;
           b = b\<lparr>IS_SERVER := True\<rparr>
       in rbind (my_server_of b) (\<lambda>m.
         let b = b\<lparr>MY_SERVER := m\<rparr>;
             b = b\<lparr>SERVER_ON_NODE := True\<rparr>;
             b = b\<lparr>RPC_PORT := QUEUE_CLIENT_PORT c\<rparr>
         in Inr (c, b)))"

section \<open>The ports of the managers\<close>

text \<open>
  The servers of the job manager and the task manager ask basket for the RPC of a port, and so do their clients, which
  also note the number of servers.
\<close>

record manager_client =
  manager_servers :: nat
  rpc_of :: u16

definition TaskManager_client :: "rhea_conf \<Rightarrow> queue_basket \<Rightarrow> manager_client" where
  "TaskManager_client c b = \<lparr>manager_servers = NUM_SERVERS b, rpc_of = JOB_MANAGER_SERVER_PORT c\<rparr>"

definition JobManager_client :: "rhea_conf \<Rightarrow> queue_basket \<Rightarrow> manager_client" where
  "JobManager_client c b = \<lparr>manager_servers = NUM_SERVERS b, rpc_of = JOB_MANAGER_SERVER_PORT c\<rparr>"

definition TaskManager_Bind_port :: "rhea_conf \<Rightarrow> u16" where
  "TaskManager_Bind_port c = JOB_MANAGER_SERVER_PORT c"

definition JobManager_BindRPC_port :: "rhea_conf \<Rightarrow> u16" where
  "JobManager_BindRPC_port c = JOB_MANAGER_SERVER_PORT c"

text \<open>
  So clients and servers meet, but the two managers, which bind three names in common, meet on the same port, and
  the port that is configured for the task manager changes nothing.
\<close>

lemma managers_share_port:
  "rpc_of (TaskManager_client c b) = TaskManager_Bind_port c" "rpc_of (JobManager_client c b) = JobManager_BindRPC_port c"
  "TaskManager_Bind_port c = JobManager_BindRPC_port c"
  "TaskManager_Bind_port (c\<lparr>TASK_MANAGER_SERVER_PORT := n\<rparr>) = TaskManager_Bind_port c"
  "TaskManager_client (c\<lparr>TASK_MANAGER_SERVER_PORT := n\<rparr>) b = TaskManager_client c b"
  by (simp_all add: TaskManager_client_def JobManager_client_def TaskManager_Bind_port_def JobManager_BindRPC_port_def)

section \<open>Lemmas on host files\<close>

lemma getlines_line:
  assumes "CHR 0x0A \<notin> set l"
  shows "getlines (l @ CHR 0x0A # rest) = l # getlines rest"
proof -
  let ?p = "\<lambda>x. x \<noteq> CHR 0x0A"
  have all: "\<forall>x \<in> set l. ?p x" using assms by auto
  have "takeWhile ?p (l @ CHR 0x0A # rest) = l" "dropWhile ?p (l @ CHR 0x0A # rest) = CHR 0x0A # rest"
    using all by (simp_all add: takeWhile_append2 dropWhile_append2)
  then show ?thesis
    by (cases "l @ CHR 0x0A # rest") (auto simp: Let_def)
qed

lemma count_up_eq: "0 \<le> tot \<Longrightarrow> tot < 2 ^ 31 \<Longrightarrow> count_up n tot = fit_int (tot + int n)"
proof (induction n arbitrary: tot)
  case (Suc n)
  show ?case
  proof (cases "tot + 1 < 2 ^ 31")
    case True
    then show ?thesis
      using Suc.prems Suc.IH [of "tot + 1"] by (simp add: fit_int_def algebra_simps)
  next
    case False
    then show ?thesis using Suc.prems by (simp add: fit_int_def)
  qed
qed (simp add: fit_int_def)

text \<open>A host file: the hosts with their numbers of servers, or without (one server).\<close>

fun host_line :: "string \<times> nat option \<Rightarrow> string" where
  "host_line (name, None) = name"
| "host_line (name, Some n) = name @ '':'' @ to_string n"

definition host_file :: "(string \<times> nat option) list \<Rightarrow> string" where
  "host_file hs = concat (map (\<lambda>h. host_line h @ [CHR 0x0A]) hs)"

definition host_servers :: "string \<times> nat option \<Rightarrow> nat" where
  "host_servers h = (case snd h of None \<Rightarrow> 1 | Some n \<Rightarrow> n)"

definition host_ok :: "string \<times> nat option \<Rightarrow> bool" where
  "host_ok h = (fst h \<noteq> [] \<and> CHR '':'' \<notin> set (fst h) \<and> CHR 0x0A \<notin> set (fst h)
     \<and> length (fst h) + 1 < 2 ^ 31 \<and> host_servers h < 2 ^ 31)"

lemma digits_no_char: "\<not> is_digit c \<Longrightarrow> c \<notin> set (to_string n)"
  using to_string_digits by blast

lemma c_str_digits: "c_str (to_string n) = to_string n"
  using digits_no_char [of "CHR 0x00" n] by (auto simp: c_str_def takeWhile_eq_all_conv is_digit_def)

lemma host_line_clean:
  assumes "host_ok h"
  shows "CHR 0x0A \<notin> set (host_line h)" "host_line h \<noteq> []"
  using assms digits_no_char [of "CHR 0x0A"]
  by (cases h rule: host_line.cases; auto simp: host_ok_def is_digit_def)+

lemma line_count_host:
  assumes "host_ok h"
  shows "line_count (host_line h) = Inr (int (host_servers h))"
proof (cases h rule: host_line.cases)
  case (1 name)
  with assms have "find_char (CHR '':'') name = - 1" by (simp add: host_ok_def find_char_def)
  moreover have "(ucast (- 1 :: u64) :: u32) = - 1" by transfer simp
  then have "u64_of_int (int_of_u64 (- 1)) = - 1" by (simp add: int_of_u64_def u64_of_int_def)
  ultimately show ?thesis by (simp add: 1 line_count_def host_servers_def)
next
  case (2 name n)
  from assms 2 have ok: "CHR '':'' \<notin> set name" "length name + 1 < 2 ^ 31" "n < 2 ^ 31"
    by (auto simp: host_ok_def host_servers_def)
  have "takeWhile (\<lambda>x. x \<noteq> CHR '':'') (name @ '':'' @ to_string n) = name"
    using ok(1) by (simp add: takeWhile_append)
  then have find: "find_char (CHR '':'') (name @ '':'' @ to_string n) = word_of_int (int (length name))"
    by (simp add: find_char_def)
  have loc: "int_of_u64 (word_of_int (int (length name))) = int (length name)"
    using ok(2) by (intro int_of_u64_word_of_int) auto
  have small: "unat (u64_of_int (int k)) = k" if "k < 2 ^ 31" for k
    using that by (simp add: u64_of_int_def unat_of_nat)
  have "u64_of_int (int (length name)) \<noteq> - 1"
  proof
    assume "u64_of_int (int (length name)) = - 1"
    then have "unat (u64_of_int (int (length name))) = unat (- 1 :: u64)" by simp
    moreover have "length name < 2 ^ 31" using ok(2) by simp
    ultimately show False using small [of "length name"] by (simp add: unsigned_minus_1_eq_mask mask_eq_exp_minus_1)
  qed
  moreover have "fit_int (int (length name) + 1) = Inr (int (length name + 1))"
    using ok(2) by (simp add: fit_int_def)
  moreover have "unat (u64_of_int (int (length name + 1))) = length name + 1"
    using ok(2) by (rule small)
  moreover have "drop (length name + 1) (name @ '':'' @ to_string n) = to_string n" by simp
  ultimately show ?thesis
    using ok(3) by (simp only: 2 host_line.simps line_count_def find loc Let_def rbind_simps)
      (simp add: c_str_digits atoi_to_string host_servers_def)
qed

lemma count_lines_hosts:
  assumes "list_all host_ok hs" "0 \<le> tot" "tot < 2 ^ 31"
  shows "count_lines (map host_line hs) tot = fit_int (tot + int (sum_list (map host_servers hs)))"
  using assms
proof (induction hs arbitrary: tot)
  case (Cons h hs)
  show ?case
  proof (cases "tot + int (host_servers h) < 2 ^ 31")
    case True
    with Cons.prems show ?thesis
      using Cons.IH [of "tot + int (host_servers h)"]
      by (simp add: host_line_clean line_count_host count_up_eq fit_int_def algebra_simps)
  next
    case False
    with Cons.prems show ?thesis
      by (simp add: host_line_clean line_count_host count_up_eq fit_int_def)
  qed
qed (simp add: fit_int_def)

lemma getlines_host_file: "list_all host_ok hs \<Longrightarrow> getlines (host_file hs) = map host_line hs"
  by (induction hs) (simp_all add: host_file_def getlines_line host_line_clean)

section \<open>Lemmas on loading\<close>

text \<open>The members that must be there, with their kinds, in the order in which they are read.\<close>

definition rhea_schema :: "(string \<times> json_kind) list" where
  "rhea_schema =
     [(''QUEUE_CLIENT_LISTS'', String_member), (''JOB_MANAGER_SERVER_PORT'', Int_member),
      (''TASK_MANAGER_SERVER_PORT'', Int_member), (''QUEUE_DIR'', String_member),
      (''QUEUE_SERVER_PORT'', Int_member), (''QUEUE_CLIENT_PORT'', Int_member),
      (''QUEUE_CLIENT_RPC_THREADS'', Int_member), (''QUEUE_SERVER_RPC_THREADS'', Int_member),
      (''NVME_CAPACITY'', Uint64_member), (''SSD_CAPACITY'', Uint64_member)]"

lemma config_ok:
  "(\<exists>v. config_uint16 doc k = Inr v) \<longleftrightarrow> (case member doc k of Inl _ \<Rightarrow> False | Inr v \<Rightarrow> has_kind Int_member v)"
  "(\<exists>v. config_really_long doc k = Inr v) \<longleftrightarrow> (case member doc k of Inl _ \<Rightarrow> False | Inr v \<Rightarrow> has_kind Uint64_member v)"
  "(\<exists>v. config_CharStruct cs doc k = Inr v) \<longleftrightarrow> (case member doc k of Inl _ \<Rightarrow> False | Inr v \<Rightarrow> has_kind String_member v)"
  by (cases "member doc k"; simp add: config_uint16_def config_really_long_def config_CharStruct_def
      rbind_Inr_iff get_string_ok get_int_ok get_uint64_ok del: has_kind.simps)+

lemma config_faults:
  "faults_in {Process_exit, Assertion_failure} (config_uint16 doc k)"
  "faults_in {Process_exit, Assertion_failure} (config_really_long doc k)"
  "faults_in {Process_exit, Assertion_failure} (config_CharStruct cs doc k)"
  by (auto simp: faults_in_def config_uint16_def config_really_long_def config_CharStruct_def rbind_def
      split: sum.splits dest: json_faults)

lemma load_faults: "faults_in {Process_exit, Assertion_failure} (LoadRheaConfiguration cs fs c)"
  unfolding LoadRheaConfiguration_def Let_def
  by (auto split: option.split json.split intro!: faults_in_intros config_faults)

lemma ex_rbind:
  "(\<And>v. (\<exists>c. f v = Inr c) \<longleftrightarrow> Q) \<Longrightarrow> (\<exists>c. rbind r f = Inr c) \<longleftrightarrow> (\<exists>v. r = Inr v) \<and> Q"
  by (cases r) simp_all

lemma load_ok:
  "(\<exists>c'. LoadRheaConfiguration cs fs c = Inr c') \<longleftrightarrow>
     (\<exists>ms. fs (c_str (CONFIGURATION_FILE c)) = Some (Some (JObj ms)) \<and> conforms rhea_schema (JObj ms))"
proof (cases "\<exists>ms. fs (c_str (CONFIGURATION_FILE c)) = Some (Some (JObj ms))")
  case True
  then obtain ms where ms: "fs (c_str (CONFIGURATION_FILE c)) = Some (Some (JObj ms))" by blast
  have "(\<exists>c'. LoadRheaConfiguration cs fs c = Inr c') \<longleftrightarrow> conforms rhea_schema (JObj ms)"
    unfolding LoadRheaConfiguration_def ms conforms_def rhea_schema_def list.pred_inject(2) prod.case option.case
      json.case json_kind.case Let_def config_ok(1,2) [symmetric] config_ok(3) [of cs, symmetric]
    by (rule ex_rbind)+ simp
  with ms show ?thesis by simp
next
  case False
  then show ?thesis
    by (auto simp: LoadRheaConfiguration_def split: option.splits json.splits)
qed

lemma load_fields:
  assumes "LoadRheaConfiguration cs fs c = Inr c'" "fs (c_str (CONFIGURATION_FILE c)) = Some (Some doc)"
  shows "config_uint16 doc ''QUEUE_CLIENT_PORT'' = Inr (QUEUE_CLIENT_PORT c')"
    "config_uint16 doc ''QUEUE_SERVER_PORT'' = Inr (QUEUE_SERVER_PORT c')"
    "config_CharStruct cs doc ''QUEUE_DIR'' = Inr (QUEUE_DIR c')"
    "CONFIGURATION_FILE c' = CONFIGURATION_FILE c" "QUEUE_SERVERS_COUNT c' = QUEUE_SERVERS_COUNT c"
  using assms by (auto simp: LoadRheaConfiguration_def Let_def split: json.splits)

section \<open>Properties\<close>

text \<open>
  C35. Loading is a type check of the document: the configuration is loaded exactly when the file
  is a JSON object that has the ten members with their kinds; every failure is the exit of the process or a
  failed assertion. A port is checked to be an \<open>int\<close> only, and cut to its low 16 bits.
\<close>

theorem configuration_checked:
  "((\<exists>c'. LoadRheaConfiguration cs fs c = Inr c') \<longleftrightarrow>
      (\<exists>ms. fs (c_str (CONFIGURATION_FILE c)) = Some (Some (JObj ms)) \<and> conforms rhea_schema (JObj ms)))
   \<and> (\<forall>e. LoadRheaConfiguration cs fs c = Inl e \<longrightarrow> e = Process_exit \<or> e = Assertion_failure)
   \<and> (\<forall>c' doc i. LoadRheaConfiguration cs fs c = Inr c' \<longrightarrow> fs (c_str (CONFIGURATION_FILE c)) = Some (Some doc) \<longrightarrow>
        member doc ''QUEUE_CLIENT_PORT'' = Inr (JInt i) \<longrightarrow> uint (QUEUE_CLIENT_PORT c') = i mod 65536)"
proof (intro conjI allI impI)
  show "(\<exists>c'. LoadRheaConfiguration cs fs c = Inr c') \<longleftrightarrow>
      (\<exists>ms. fs (c_str (CONFIGURATION_FILE c)) = Some (Some (JObj ms)) \<and> conforms rhea_schema (JObj ms))"
    by (rule load_ok)
  show "e = Process_exit \<or> e = Assertion_failure" if "LoadRheaConfiguration cs fs c = Inl e" for e
    using load_faults [of cs fs c] that by (auto simp: faults_in_def)
  fix c' doc i
  assume l: "LoadRheaConfiguration cs fs c = Inr c'" "fs (c_str (CONFIGURATION_FILE c)) = Some (Some doc)"
    and "member doc ''QUEUE_CLIENT_PORT'' = Inr (JInt i)"
  then show "uint (QUEUE_CLIENT_PORT c') = i mod 65536"
    using load_fields(1) [OF l]
    by (auto simp: config_uint16_def get_int_def uint_word_of_int dest!: sym [of "word_of_int i"] split: if_splits)
qed

definition sample_conf :: "int \<Rightarrow> json" where
  "sample_conf port = JObj
     [(''QUEUE_CLIENT_LISTS'', JStr ''hosts''), (''JOB_MANAGER_SERVER_PORT'', JInt 1),
      (''TASK_MANAGER_SERVER_PORT'', JInt 2), (''QUEUE_DIR'', JStr ''/queue''), (''QUEUE_SERVER_PORT'', JInt 3),
      (''QUEUE_CLIENT_PORT'', JInt port), (''QUEUE_CLIENT_RPC_THREADS'', JInt 5), (''QUEUE_SERVER_RPC_THREADS'', JInt 6),
      (''NVME_CAPACITY'', JInt 7), (''SSD_CAPACITY'', JInt 8)]"

lemma sample_conforms: "\<bar>port\<bar> < 2 ^ 31 \<Longrightarrow> conforms rhea_schema (sample_conf port)"
  by (auto simp: conforms_def rhea_schema_def sample_conf_def member_def members_def is_int_def is_uint64_def)

theorem configuration_checked_witness:
  "\<exists>c'. LoadRheaConfiguration id (\<lambda>_. Some (Some (sample_conf 70000))) Rhea_ConfigurationManager = Inr c'
    \<and> uint (QUEUE_CLIENT_PORT c') = 4464"
proof -
  let ?fs = "\<lambda>_ :: string. Some (Some (sample_conf 70000))"
  note p = configuration_checked [of id ?fs Rhea_ConfigurationManager]
  have "\<exists>ms. sample_conf 70000 = JObj ms" by (simp add: sample_conf_def)
  with sample_conforms [of 70000] p obtain c' where c': "LoadRheaConfiguration id ?fs Rhea_ConfigurationManager = Inr c'"
    by auto
  have "member (sample_conf 70000) ''QUEUE_CLIENT_PORT'' = Inr (JInt 70000)"
    by (simp add: member_def members_def sample_conf_def)
  with p c' have "uint (QUEUE_CLIENT_PORT c') = 70000 mod 65536" by blast
  with c' show ?thesis by auto
qed

text \<open>
  C34. \<open>CountServers\<close> adds up a host file: blank lines count nothing, a host without a number one
  server, a host with \<open>:n\<close> that number; when the sum leaves the \<open>int\<close> range, the count overflows, and a
  missing file ends the process.
\<close>

theorem CountServers_sum:
  assumes "fs (c_str path) = Some content" "list_all host_ok hs"
    and "filter (\<lambda>l. l \<noteq> []) (getlines content) = map host_line hs"
  shows "let n = sum_list (map host_servers hs)
    in CountServers fs path = (if n < 2 ^ 31 then Inr (int n) else Inl Signed_overflow)
      \<and> CountServers (fs(c_str path := None)) path = Inl Process_exit"
proof -
  have "count_lines ls t = count_lines (filter (\<lambda>l. l \<noteq> []) ls) t" for ls t
    by (induction ls arbitrary: t) (auto cong: rbind_cong)
  from this [of "getlines content" 0] have "CountServers fs path = count_lines (map host_line hs) 0"
    using assms(1,3) by (simp add: CountServers_def)
  then show ?thesis
    using count_lines_hosts [OF assms(2), of 0] by (simp add: CountServers_def fit_int_def Let_def)
qed

theorem CountServers_sum_witness:
  "CountServers (\<lambda>p. if p = ''hosts'' then Some (host_file [(''node1'', Some 40), (''node2'', None)]) else None) ''hosts''
   = Inr 41"
proof -
  let ?hs = "[(''node1'', Some 40), (''node2'', None)] :: (string \<times> nat option) list"
  have ok: "list_all host_ok ?hs" by (simp add: host_ok_def host_servers_def)
  have "filter (\<lambda>l. l \<noteq> []) (map host_line ?hs) = map host_line ?hs" by simp
  with CountServers_sum [where fs = "\<lambda>p. if p = ''hosts'' then Some (host_file ?hs) else None" and path = "''hosts''",
      OF _ ok] getlines_host_file [OF ok]
  show ?thesis by (simp add: host_servers_def c_str_def Let_def)
qed

text \<open>
  The servers and the clients of the queue service are configured alike: whatever happens, the
  server gets the client's configuration with the server flag on top. Its port and its threads are
  the ones named for clients, and a success puts the process on one of the counted servers. The
  members \<open>QUEUE_SERVER_PORT\<close> and \<open>QUEUE_SERVER_RPC_THREADS\<close> do not reach basket's configuration.
\<close>

theorem queue_server_is_client:
  "case ConfigureQueueClient cs fs load_servers (c, b) of
     Inl e \<Rightarrow> ConfigureQueueServer cs fs load_servers (c, b) = Inl e
   | Inr (c', b') \<Rightarrow> ConfigureQueueServer cs fs load_servers (c, b) = Inr (c', b'\<lparr>IS_SERVER := True\<rparr>)
       \<and> LoadRheaConfiguration cs fs c = Inr c' \<and> RPC_PORT b' = QUEUE_CLIENT_PORT c' \<and> MY_SERVER b' < NUM_SERVERS b'
       \<and> ((\<forall>x. RPC_THREADS (load_servers x) = RPC_THREADS x) \<longrightarrow> RPC_THREADS b' = QUEUE_CLIENT_RPC_THREADS c')"
proof (cases "LoadRheaConfiguration cs fs c")
  case (Inr c')
  let ?b = "load_servers (b\<lparr>RPC_THREADS := QUEUE_CLIENT_RPC_THREADS c', MEMORY_ALLOCATED := 1024 * 1024 * 1024 * 1,
      SERVER_LIST_PATH := c_str (QUEUE_CLIENT_LISTS c')\<rparr>)"
  show ?thesis
    by (cases "NUM_SERVERS ?b = 0")
      (auto simp: Inr ConfigureQueueClient_def ConfigureQueueServer_def my_server_of_def Let_def)
qed (simp add: ConfigureQueueClient_def ConfigureQueueServer_def)

theorem queue_server_is_client_witness:
  "\<forall>b. \<exists>c' b'. ConfigureQueueServer id (\<lambda>_. Some (Some (sample_conf 14000))) (\<lambda>x. x\<lparr>NUM_SERVERS := 2\<rparr>)
       (Rhea_ConfigurationManager, b\<lparr>MPI_RANK := 5\<rparr>) = Inr (c', b') \<and> IS_SERVER b' \<and> RPC_PORT b' = QUEUE_CLIENT_PORT c'
       \<and> RPC_THREADS b' = QUEUE_CLIENT_RPC_THREADS c'"
proof
  fix b :: queue_basket
  let ?fs = "\<lambda>_ :: string. Some (Some (sample_conf 14000))" and ?ls = "\<lambda>x :: queue_basket. x\<lparr>NUM_SERVERS := 2\<rparr>"
  let ?b = "b\<lparr>MPI_RANK := 5\<rparr>"
  have "\<exists>ms. sample_conf 14000 = JObj ms" by (simp add: sample_conf_def)
  with sample_conforms [of 14000] obtain c' where c': "LoadRheaConfiguration id ?fs Rhea_ConfigurationManager = Inr c'"
    using load_ok [of id ?fs Rhea_ConfigurationManager] by auto
  then obtain b' where "ConfigureQueueClient id ?fs ?ls (Rhea_ConfigurationManager, ?b) = Inr (c', b')"
    by (auto simp: ConfigureQueueClient_def my_server_of_def Let_def)
  with queue_server_is_client [of id ?fs ?ls Rhea_ConfigurationManager ?b] show "\<exists>c' b'. ConfigureQueueServer id ?fs ?ls (Rhea_ConfigurationManager, ?b) = Inr (c', b') \<and> IS_SERVER b'
      \<and> RPC_PORT b' = QUEUE_CLIENT_PORT c' \<and> RPC_THREADS b' = QUEUE_CLIENT_RPC_THREADS c'" by auto
qed

end
