(* ===== verification/Daemonize.thy ===== *)
theory Daemonize
  imports Prelude
begin

text \<open>
  The daemon code of the first version: \<open>daemonize\<close>, its log and its signal handlers
  (\<open>old/basketCommon/include/basket/daemonize.h\<close>), and the class \<open>Rhea::Daemon\<close>
  (\<open>old/Daemon/include/Daemon.h\<close>, \<open>old/Daemon/src/Daemon.cpp\<close>). The operating system is POSIX as far as
  the code uses it: \<open>open\<close> and \<open>dup\<close> take the lowest free descriptor, \<open>lockf\<close> fails when another
  process has the lock, a signal is handled by its disposition. What a call finds is a parameter.
\<close>

section \<open>State\<close>

datatype signal = SIGHUP | SIGTERM | SIGABRT | SIGSEGV | SIGBUS | SIGCHLD | SIGTSTP | SIGTTOU | SIGTTIN

datatype disposition = SIG_DFL | SIG_IGN | Signal_handler

record process =
  main_log_file :: string
  fds :: "(nat, string) table"               \<comment> \<open>the open descriptors with their files\<close>
  cwd :: string
  mode_mask :: nat
  session_leader :: bool
  dispositions :: "(signal, disposition) table"

definition disposition_of :: "process \<Rightarrow> signal \<Rightarrow> disposition" where
  "disposition_of p sig = (case um_get (dispositions p) sig of None \<Rightarrow> SIG_DFL | Some d \<Rightarrow> d)"

definition signal_call :: "signal \<Rightarrow> disposition \<Rightarrow> process \<Rightarrow> process" where
  "signal_call sig d p = p\<lparr>dispositions := um_set sig d (dispositions p)\<rparr>"

text \<open>What the calls of \<open>daemonize\<close> find.\<close>

record os =
  getppid :: int
  fork_result :: int
  dtablesize :: nat
  log_opens :: bool          \<comment> \<open>the log file exists, so that it can be opened without \<open>O_CREAT\<close>\<close>
  lock_opens :: bool
  lock_free :: bool          \<comment> \<open>no other process has the lock\<close>
  getpid :: nat
  lock_content :: string

section \<open>Descriptors\<close>

definition lowest_fd :: "(nat, string) table \<Rightarrow> nat" where
  "lowest_fd m = length (takeWhile (\<lambda>n. um_get m n \<noteq> None) [0..<Suc (length m)])"

definition close_fd :: "nat \<Rightarrow> (nat, string) table \<Rightarrow> (nat, string) table" where
  "close_fd n m = um_erase n m"

text \<open>\<open>for (i = getdtablesize(); i >= 0; --i) close(i)\<close>\<close>

fun close_down :: "nat \<Rightarrow> (nat, string) table \<Rightarrow> (nat, string) table" where
  "close_down 0 m = close_fd 0 m"
| "close_down (Suc i) m = close_down i (close_fd (Suc i) m)"

definition open_fd :: "bool \<Rightarrow> string \<Rightarrow> (nat, string) table \<Rightarrow> int \<times> (nat, string) table" where
  "open_fd ok path m = (if ok then (int (lowest_fd m), um_set (lowest_fd m) path m) else (- 1, m))"

definition dup_fd :: "int \<Rightarrow> (nat, string) table \<Rightarrow> (nat, string) table" where
  "dup_fd i m = (if i < 0 then m else case um_get m (nat i) of None \<Rightarrow> m | Some path \<Rightarrow> um_set (lowest_fd m) path m)"

section \<open>\<open>daemonize\<close>\<close>

text \<open>
  The process exits, or it goes on with the new content of the lock file. \<open>main_log_file\<close> has 256
  bytes and \<open>str\<close> ten.
\<close>

datatype daemon_result = Exits int | Goes_on process string

definition daemonize :: "os \<Rightarrow> string \<Rightarrow> string \<Rightarrow> process \<Rightarrow> daemon_result result" where
  "daemonize os lock_file log_file p =
     (if length (c_str log_file) + 1 > 256 then Inl Out_of_bounds else
      let p = p\<lparr>main_log_file := c_str log_file\<rparr>
      in if getppid os = 1 then Inr (Goes_on p (lock_content os)) else
      let i = fork_result os
      in if i < 0 then Inr (Exits 1) else
      if i > 0 then Inr (Exits 0) else
      let p = p\<lparr>session_leader := True\<rparr>;
          p = p\<lparr>fds := close_down (dtablesize os) (fds p)\<rparr>;
          (i, m) = open_fd (log_opens os) log_file (fds p);
          p = p\<lparr>fds := dup_fd i (dup_fd i m)\<rparr>;
          p = p\<lparr>mode_mask := 23\<rparr>;
          p = p\<lparr>cwd := ''/tmp''\<rparr>;
          (lfp, m) = open_fd (lock_opens os) lock_file (fds p);
          p = p\<lparr>fds := m\<rparr>
      in if lfp < 0 then Inr (Exits 1) else
      if \<not> lock_free os then Inr (Exits 0) else
      let str = to_string (getpid os) @ [CHR 0x0A]
      in if length str + 1 > 10 then Inl Out_of_bounds else
      let content = write_at (lock_content os) 0 str;
          p = signal_call SIGCHLD SIG_IGN p;
          p = signal_call SIGTSTP SIG_IGN p;
          p = signal_call SIGTTOU SIG_IGN p;
          p = signal_call SIGTTIN SIG_IGN p;
          p = signal_call SIGHUP Signal_handler p;
          p = signal_call SIGTERM Signal_handler p
      in Inr (Goes_on p content))"

definition catch_all_signals :: "process \<Rightarrow> process" where
  "catch_all_signals p =
     (let p = signal_call SIGTERM Signal_handler p;
          p = signal_call SIGHUP Signal_handler p;
          p = signal_call SIGABRT Signal_handler p;
          p = signal_call SIGSEGV Signal_handler p;
          p = signal_call SIGBUS Signal_handler p;
          p = signal_call SIGCHLD SIG_IGN p;
          p = signal_call SIGTSTP SIG_IGN p;
          p = signal_call SIGTTOU SIG_IGN p;
          p = signal_call SIGTTIN SIG_IGN p
      in p)"

section \<open>Signals\<close>

text \<open>A running daemon: its process, the log files, the calls of \<open>finalize\<close> and the stack traces printed.\<close>

record session =
  proc :: process
  logs :: "(string, string) table"
  finalized :: nat
  traces :: "signal list"

datatype sig_end = Continues | Stopped | Exited int | Killed signal

text \<open>Opening for appending creates a file; \<open>can\<close> says which files can be opened.\<close>

definition append_log :: "(string \<Rightarrow> bool) \<Rightarrow> string \<Rightarrow> string \<Rightarrow> session \<Rightarrow> session" where
  "append_log can filename entry st =
     (if can filename then st\<lparr>logs := um_set filename (fst (um_index [] (logs st) filename) @ entry) (logs st)\<rparr> else st)"

definition log_message :: "(string \<Rightarrow> bool) \<Rightarrow> string \<Rightarrow> string \<Rightarrow> session \<Rightarrow> session" where
  "log_message can filename message st = append_log can (c_str filename) (c_str message @ [CHR 0x0A]) st"

definition terminate_caught :: "(string \<Rightarrow> bool) \<Rightarrow> session \<Rightarrow> session \<times> sig_end" where
  "terminate_caught can st =
     (let st = log_message can (main_log_file (proc st)) ''terminate signal caught'' st;
          st = st\<lparr>finalized := finalized st + 1\<rparr>
      in (st, Exited 0))"

text \<open>The default case raises \<open>SIGTERM\<close>, which arrives before \<open>raise\<close> returns.\<close>

definition signal_handler :: "(string \<Rightarrow> bool) \<Rightarrow> signal \<Rightarrow> session \<Rightarrow> session \<times> sig_end" where
  "signal_handler can sig st =
     (case sig of
        SIGHUP \<Rightarrow> (log_message can (main_log_file (proc st)) ''hangup signal caught'' st, Continues)
      | SIGTERM \<Rightarrow> terminate_caught can st
      | _ \<Rightarrow>
          let st = st\<lparr>traces := traces st @ [sig]\<rparr>
          in case disposition_of (proc st) SIGTERM of
               SIG_DFL \<Rightarrow> (st, Killed SIGTERM)
             | SIG_IGN \<Rightarrow> (st, Continues)
             | Signal_handler \<Rightarrow> terminate_caught can st)"

definition default_action :: "signal \<Rightarrow> sig_end" where
  "default_action sig =
     (if sig = SIGCHLD then Continues else if sig \<in> {SIGTSTP, SIGTTOU, SIGTTIN} then Stopped else Killed sig)"

text \<open>The arrival of a signal, for a process whose handler is \<open>handler\<close>.\<close>

definition deliver ::
  "(signal \<Rightarrow> 'a session_scheme \<Rightarrow> 'a session_scheme \<times> sig_end) \<Rightarrow> signal \<Rightarrow> 'a session_scheme
    \<Rightarrow> 'a session_scheme \<times> sig_end" where
  "deliver handler sig st =
     (case disposition_of (proc st) sig of
        SIG_DFL \<Rightarrow> (st, default_action sig)
      | SIG_IGN \<Rightarrow> (st, Continues)
      | Signal_handler \<Rightarrow> handler sig st)"

fun deliver_all :: "(signal \<Rightarrow> 's \<Rightarrow> 's \<times> sig_end) \<Rightarrow> signal list \<Rightarrow> 's \<Rightarrow> 's \<times> sig_end" where
  "deliver_all d [] st = (st, Continues)"
| "deliver_all d (sig # sigs) st =
     (case d sig st of (st', Continues) \<Rightarrow> deliver_all d sigs st' | r \<Rightarrow> r)"

section \<open>\<open>Rhea::Daemon\<close>\<close>

text \<open>
  The constructor initialises the member \<open>main_log_file\<close> from its parameter of the same name; the
  assignment in its body changes the parameter. The worker is a thread that only the destructor
  joins. The messages are written without a newline.
\<close>

record daemon_object = session +
  exitSignal :: bool
  worker_joined :: bool

definition catchSignals :: "process \<Rightarrow> process" where
  "catchSignals p =
     (let p = signal_call SIGTERM Signal_handler p;
          p = signal_call SIGHUP Signal_handler p;
          p = signal_call SIGABRT Signal_handler p;
          p = signal_call SIGSEGV Signal_handler p;
          p = signal_call SIGBUS Signal_handler p;
          p = signal_call SIGCHLD SIG_IGN p;
          p = signal_call SIGTSTP SIG_IGN p;
          p = signal_call SIGTTOU SIG_IGN p;
          p = signal_call SIGTTIN SIG_IGN p
      in p)"

definition Daemon_new :: "string \<Rightarrow> process \<Rightarrow> (string, string) table \<Rightarrow> daemon_object" where
  "Daemon_new log_param p files =
     (let p = p\<lparr>main_log_file := log_param\<rparr>;
          log_param = ''Rhea_JobManager.log'';
          p = catchSignals p
      in \<lparr>proc = p, logs = files, finalized = 0, traces = [], exitSignal = False, worker_joined = False\<rparr>)"

definition Daemon_delete :: "daemon_object \<Rightarrow> daemon_object result" where
  "Daemon_delete d = (if exitSignal d \<or> worker_joined d then Inl Thread_error
     else Inr (d\<lparr>exitSignal := True, worker_joined := True\<rparr>))"

definition logMessage :: "(string \<Rightarrow> bool) \<Rightarrow> string \<Rightarrow> string \<Rightarrow> daemon_object \<Rightarrow> daemon_object" where
  "logMessage can filename message d =
     (if can (c_str filename)
      then d\<lparr>logs := um_set (c_str filename) (fst (um_index [] (logs d) (c_str filename)) @ message) (logs d)\<rparr> else d)"

definition daemon_terminate :: "(string \<Rightarrow> bool) \<Rightarrow> daemon_object \<Rightarrow> daemon_object \<times> sig_end" where
  "daemon_terminate can d = (logMessage can (main_log_file (proc d)) ''terminate signal caught'' d, Exited 0)"

definition signalHandler :: "(string \<Rightarrow> bool) \<Rightarrow> signal \<Rightarrow> daemon_object \<Rightarrow> daemon_object \<times> sig_end" where
  "signalHandler can sig d =
     (case sig of
        SIGHUP \<Rightarrow> (logMessage can (main_log_file (proc d)) ''hangup signal caught'' d, Continues)
      | SIGTERM \<Rightarrow> daemon_terminate can d
      | _ \<Rightarrow>
          let d = d\<lparr>traces := traces d @ [sig]\<rparr>
          in case disposition_of (proc d) SIGTERM of
               SIG_DFL \<Rightarrow> (d, Killed SIGTERM)
             | SIG_IGN \<Rightarrow> (d, Continues)
             | Signal_handler \<Rightarrow> daemon_terminate can d)"

section \<open>Sessions of signals\<close>

text \<open>
  What both kinds of daemon promise of their signals: a hang-up is logged, some signals are ignored, the
  others end the process; \<open>log\<close> is the log's content and \<open>fin\<close> counts the clean-ups, \<open>amount\<close> of them at the end.
\<close>

definition fatal :: "signal \<Rightarrow> bool" where
  "fatal sig = (sig \<in> {SIGTERM, SIGABRT, SIGSEGV, SIGBUS})"

locale signal_daemon =
  fixes arrive :: "signal \<Rightarrow> 's \<Rightarrow> 's \<times> sig_end"
    and log :: "'s \<Rightarrow> string"
    and line :: "string \<Rightarrow> string"
    and fin :: "'s \<Rightarrow> nat"
    and amount :: nat
    and ready :: "'s \<Rightarrow> bool"
  assumes hangup: "ready s \<Longrightarrow> \<exists>s'. arrive SIGHUP s = (s', Continues) \<and> ready s' \<and> fin s' = fin s
      \<and> log s' = log s @ line ''hangup signal caught''"
    and ignored: "ready s \<Longrightarrow> \<not> fatal sig \<Longrightarrow> sig \<noteq> SIGHUP \<Longrightarrow> arrive sig s = (s, Continues)"
    and ending: "ready s \<Longrightarrow> fatal sig \<Longrightarrow> \<exists>s'. arrive sig s = (s', Exited 0) \<and> fin s' = fin s + amount
      \<and> log s' = log s @ line ''terminate signal caught''"
begin

lemma session:
  assumes "ready s" "\<forall>sig \<in> set sigs. \<not> fatal sig" "fatal f"
  shows "\<exists>s'. deliver_all arrive (sigs @ f # rest) s = (s', Exited 0) \<and> fin s' = fin s + amount
    \<and> log s' = log s @ concat (replicate (count_list sigs SIGHUP) (line ''hangup signal caught''))
        @ line ''terminate signal caught''"
  using assms(1,2)
proof (induction sigs arbitrary: s)
  case Nil
  with ending [OF _ assms(3)] show ?case by fastforce
next
  case (Cons sig sigs)
  show ?case
  proof (cases "sig = SIGHUP")
    case True
    obtain s1 where s1: "arrive SIGHUP s = (s1, Continues)" "ready s1" "fin s1 = fin s"
      "log s1 = log s @ line ''hangup signal caught''"
      using hangup [OF Cons.prems(1)] by blast
    with Cons.IH [OF s1(2)] Cons.prems(2) show ?thesis by (auto simp: True)
  next
    case False
    with ignored [OF Cons.prems(1), of sig] Cons show ?thesis by simp
  qed
qed

text \<open>Without a signal that ends it, the daemon goes on.\<close>

lemma survives:
  "ready s \<Longrightarrow> \<forall>sig \<in> set sigs. \<not> fatal sig \<Longrightarrow> \<exists>s'. deliver_all arrive sigs s = (s', Continues) \<and> ready s'"
proof (induction sigs arbitrary: s)
  case (Cons sig sigs)
  show ?case
  proof (cases "sig = SIGHUP")
    case True
    with hangup [OF Cons.prems(1)] Cons.IH Cons.prems(2) show ?thesis by fastforce
  next
    case False
    with ignored [OF Cons.prems(1), of sig] Cons show ?thesis by simp
  qed
qed simp

end

text \<open>All nine signals are caught, and the log can be written.\<close>

definition all_caught :: "process \<Rightarrow> bool" where
  "all_caught p = (\<forall>sig. disposition_of p sig =
     (if sig \<in> {SIGCHLD, SIGTSTP, SIGTTOU, SIGTTIN} then SIG_IGN else Signal_handler))"

definition log_of :: "'a session_scheme \<Rightarrow> string" where
  "log_of st = fst (um_index [] (logs st) (c_str (main_log_file (proc st))))"

definition session_ready :: "(string \<Rightarrow> bool) \<Rightarrow> 'a session_scheme \<Rightarrow> bool" where
  "session_ready can st = (all_caught (proc st) \<and> can (c_str (main_log_file (proc st))))"

lemma disposition_signal_call [simp]:
  "disposition_of (signal_call sig d p) s = (if s = sig then d else disposition_of p s)"
  by (simp add: disposition_of_def signal_call_def)

lemma main_log_signal_call [simp]: "main_log_file (signal_call sig d p) = main_log_file p"
  by (simp add: signal_call_def)

lemma catch_all_caught: "all_caught (catch_all_signals p)" "all_caught (catchSignals p)"
  by (auto simp: all_caught_def catch_all_signals_def catchSignals_def Let_def intro: signal.exhaust)

lemma um_index_set: "fst (um_index d (um_set k v m) k') = (if k' = k then v else fst (um_index d m k'))"
  by (simp add: um.index_value)

lemmas handler_cases = deliver_def signal_handler_def signalHandler_def terminate_caught_def daemon_terminate_def
  log_message_def append_log_def logMessage_def log_of_def session_ready_def all_caught_def fatal_def c_str_def

interpretation c_daemon:
  signal_daemon "deliver (signal_handler can)" log_of "\<lambda>m. m @ [CHR 0x0A]" finalized 1 "session_ready can"
proof unfold_locales
  fix st :: session and sig
  assume r: "session_ready can st"
  then show "\<exists>st'. deliver (signal_handler can) SIGHUP st = (st', Continues) \<and> session_ready can st' \<and> finalized st' = finalized st
      \<and> log_of st' = log_of st @ ''hangup signal caught'' @ [CHR 0x0A]"
    by (simp add: handler_cases um_index_set)
  show "deliver (signal_handler can) sig st = (st, Continues)" if "\<not> fatal sig" "sig \<noteq> SIGHUP"
    using r that by (cases sig) (simp_all add: handler_cases)
  show "\<exists>st'. deliver (signal_handler can) sig st = (st', Exited 0) \<and> finalized st' = finalized st + 1
      \<and> log_of st' = log_of st @ ''terminate signal caught'' @ [CHR 0x0A]" if "fatal sig"
    using r that by (cases sig) (simp_all add: handler_cases um_index_set Let_def)
qed

interpretation daemon_class:
  signal_daemon "deliver (signalHandler can)" log_of "\<lambda>m. m" "\<lambda>d. if worker_joined d then 1 else 0" 0 "session_ready can"
proof unfold_locales
  fix d :: daemon_object and sig
  assume r: "session_ready can d"
  then show "\<exists>d'. deliver (signalHandler can) SIGHUP d = (d', Continues) \<and> session_ready can d'
      \<and> (if worker_joined d' then 1 else 0) = (if worker_joined d then 1 else 0 :: nat)
      \<and> log_of d' = log_of d @ ''hangup signal caught''"
    by (simp add: handler_cases um_index_set)
  show "deliver (signalHandler can) sig d = (d, Continues)" if "\<not> fatal sig" "sig \<noteq> SIGHUP"
    using r that by (cases sig) (simp_all add: handler_cases)
  show "\<exists>d'. deliver (signalHandler can) sig d = (d', Exited 0)
      \<and> (if worker_joined d' then 1 else 0) = (if worker_joined d then 1 else 0 :: nat) + 0
      \<and> log_of d' = log_of d @ ''terminate signal caught''" if "fatal sig"
    using r that by (cases sig) (simp_all add: handler_cases um_index_set Let_def)
qed

section \<open>Descriptors and lock files\<close>

lemma close_down_filter: "close_down n m = filter (\<lambda>e. n < fst e) m"
proof (induction n arbitrary: m)
  case 0
  show ?case by (auto simp: close_fd_def um_erase_def AList.delete_eq intro: filter_cong)
next
  case (Suc n)
  show ?case
    unfolding close_down.simps Suc by (auto simp: close_fd_def um_erase_def AList.delete_eq intro: filter_cong)
qed

lemma closed_all: "\<forall>n \<in> set (um_keys m). n \<le> N \<Longrightarrow> close_down N m = []"
  by (auto simp: close_down_filter um_keys_def filter_empty_conv)

lemma length_to_string: "length (to_string n) \<le> Suc k \<longleftrightarrow> n < 10 ^ Suc k"
proof (induction k arbitrary: n)
  case 0
  show ?case by (simp add: to_string.simps [of n])
next
  case (Suc k)
  show ?case
  proof (cases "n < 10")
    case True
    moreover have "(10 :: nat) ^ 1 \<le> 10 ^ Suc (Suc k)" by (rule power_increasing) simp_all
    ultimately show ?thesis by (simp add: to_string.simps [of n] del: power_Suc)
  next
    case False
    then show ?thesis
      using Suc [of "n div 10"] by (simp add: to_string.simps [of n] less_mult_imp_div_less div_less_iff_less_mult)
  qed
qed

lemma lowest_fds [simp]:
  "lowest_fd [] = 0" "lowest_fd [(0, a)] = 1" "lowest_fd [(0, a), (Suc 0, b)] = 2" "lowest_fd [(0, a), (Suc 0, b), (2, c)] = 3"
  by (simp_all add: lowest_fd_def um_get_def upt_rec)

lemma streams:
  "open_fd True path [] = (0, [(0, path)])" "open_fd False path m = (- 1, m)"
  "dup_fd (- 1) m = m" "dup_fd 0 (dup_fd 0 [(0, path)]) = [(0, path), (Suc 0, path), (2, path)]"
  "open_fd True lock [(0, a), (Suc 0, b), (2, c)] = (3, [(0, a), (Suc 0, b), (2, c), (3, lock)])"
  by (simp_all add: open_fd_def dup_fd_def um_get_def um_set_def)

lemma pid_text:
  assumes "\<not> length (to_string n @ [CHR 0x0A]) + 1 > 10"
  shows "atoi (write_at old 0 (to_string n @ [CHR 0x0A])) = Inr (int n)"
proof -
  have "n < 10 ^ 8" using assms length_to_string [of n 7] by simp
  then show ?thesis
    by (simp add: write_at_start) (rule atoi_to_string_tail; auto simp: is_digit_def)
qed

text \<open>The process that goes on behind the fork.\<close>

definition daemon_process :: "os \<Rightarrow> string \<Rightarrow> string \<Rightarrow> process \<Rightarrow> process" where
  "daemon_process os lock_file log_file p =
     p\<lparr>main_log_file := c_str log_file, session_leader := True, mode_mask := 23, cwd := ''/tmp'',
       fds := if log_opens os then [(0, log_file), (1, log_file), (2, log_file), (3, lock_file)] else [(0, lock_file)],
       dispositions := um_set SIGTERM Signal_handler (um_set SIGHUP Signal_handler (um_set SIGTTIN SIG_IGN
         (um_set SIGTTOU SIG_IGN (um_set SIGTSTP SIG_IGN (um_set SIGCHLD SIG_IGN (dispositions p))))))\<rparr>"

lemma daemonize_child:
  assumes "length (c_str log_file) < 256" "getppid os \<noteq> 1" "fork_result os = 0"
    and "\<forall>n \<in> set (um_keys (fds p)). n \<le> dtablesize os"
  shows "daemonize os lock_file log_file p =
    (if \<not> lock_opens os then Inr (Exits 1) else if \<not> lock_free os then Inr (Exits 0)
     else if length (to_string (getpid os) @ [CHR 0x0A]) + 1 > 10 then Inl Out_of_bounds
     else Inr (Goes_on (daemon_process os lock_file log_file p) (write_at (lock_content os) 0 (to_string (getpid os) @ [CHR 0x0A]))))"
  using assms
  by (cases "log_opens os"; cases "lock_opens os")
    (simp_all add: daemonize_def Let_def closed_all streams daemon_process_def signal_call_def)

lemma daemonize_goes_on:
  assumes "daemonize os lock_file log_file p = Inr (Goes_on p' content)" "getppid os \<noteq> 1"
    and "\<forall>n \<in> set (um_keys (fds p)). n \<le> dtablesize os"
  shows "p' = daemon_process os lock_file log_file p" "lock_free os" "atoi content = Inr (int (getpid os))"
proof -
  have "length (c_str log_file) < 256" "fork_result os = 0"
    using assms(1,2) by (auto simp: daemonize_def Let_def split: if_splits)
  note * = daemonize_child [OF this(1) assms(2) this(2) assms(3)]
  show "p' = daemon_process os lock_file log_file p" "lock_free os" "atoi content = Inr (int (getpid os))"
    using assms(1) pid_text unfolding * by (auto split: if_splits)
qed

section \<open>Several daemons\<close>

text \<open>
  Processes that are started with the same names of a lock file and a log, with their steps in any
  order: a process takes the lock, writes its process id over the start of the lock file and then
  sets its signal actions; meanwhile others try the lock, and signals arrive. \<open>orphans\<close> says
  whether a process may be started as a child of process 1; such a process takes itself for a daemon.
  \<open>path\<close> gives the file that a name stands for in \<open>RUNNING_DIR\<close>. A lock of \<open>lockf\<close> is gone when
  its process ends, and also when its process closes any descriptor of the locked file, as \<open>log_message\<close>
  does when the lock file is the log.
\<close>

datatype stage = Locked os process | Recorded process process | Runs process

record daemons =
  procs :: "nat \<rightharpoonup> stage"
  holder :: "nat option"
  lock_text :: string
  log_text :: string

fun image_of :: "string \<Rightarrow> stage \<Rightarrow> process" where
  "image_of log_file (Locked os p) = p\<lparr>main_log_file := c_str log_file\<rparr>"
| "image_of log_file (Recorded p p') = p\<lparr>main_log_file := c_str log_file\<rparr>"
| "image_of log_file (Runs p) = p"

definition is_lock :: "(string \<Rightarrow> string) \<Rightarrow> string \<Rightarrow> string \<Rightarrow> bool" where
  "is_lock path lock_file log_file = (path (c_str log_file) = path (c_str lock_file))"

text \<open>A signal at a process: the new content of its log, whether the log was opened and closed again, and how it ends.\<close>

definition signalled :: "(string \<Rightarrow> bool) \<Rightarrow> signal \<Rightarrow> process \<Rightarrow> string \<Rightarrow> string \<times> bool \<times> sig_end" where
  "signalled can sig p content =
     (let st = \<lparr>proc = p, logs = [(c_str (main_log_file p), content)], finalized = 0, traces = []\<rparr>;
          (st', e) = deliver (signal_handler can) sig st
      in (log_of st', log_of st' \<noteq> content, e))"

definition leaves :: "sig_end \<Rightarrow> bool" where
  "leaves e = (case e of Exited n \<Rightarrow> True | Killed sig \<Rightarrow> True | _ \<Rightarrow> False)"

definition unlock_if :: "bool \<Rightarrow> nat \<Rightarrow> nat option \<Rightarrow> nat option" where
  "unlock_if c pid h = (if c \<and> h = Some pid then None else h)"

inductive daemon_step :: "bool \<Rightarrow> (string \<Rightarrow> string) \<Rightarrow> string \<Rightarrow> string \<Rightarrow> daemons \<Rightarrow> daemons \<Rightarrow> bool"
  for orphans path lock_file log_file where
  Lock: "\<lbrakk>daemonize os lock_file log_file p = Inr (Goes_on p' content); getppid os \<noteq> 1;
      \<forall>n \<in> set (um_keys (fds p)). n \<le> dtablesize os; lock_free os \<longleftrightarrow> holder s = None; procs s (getpid os) = None\<rbrakk>
    \<Longrightarrow> daemon_step orphans path lock_file log_file s
          (s\<lparr>procs := (procs s)(getpid os \<mapsto> Locked os p), holder := Some (getpid os)\<rparr>)"
| Record: "\<lbrakk>procs s pid = Some (Locked os p);
      daemonize (os\<lparr>lock_content := lock_text s\<rparr>) lock_file log_file p = Inr (Goes_on p' content)\<rbrakk>
    \<Longrightarrow> daemon_step orphans path lock_file log_file s
          (s\<lparr>procs := (procs s)(pid \<mapsto> Recorded p p'), lock_text := content\<rparr>)"
| Catch: "\<lbrakk>procs s pid = Some (Recorded p p')\<rbrakk>
    \<Longrightarrow> daemon_step orphans path lock_file log_file s (s\<lparr>procs := (procs s)(pid \<mapsto> Runs p')\<rparr>)"
| Refused: "\<lbrakk>daemonize os lock_file log_file p = Inr (Exits status)\<rbrakk> \<Longrightarrow> daemon_step orphans path lock_file log_file s s"
| Orphan: "\<lbrakk>orphans; daemonize os lock_file log_file p = Inr (Goes_on p' content); getppid os = 1;
      procs s (getpid os) = None\<rbrakk>
    \<Longrightarrow> daemon_step orphans path lock_file log_file s (s\<lparr>procs := (procs s)(getpid os \<mapsto> Runs p')\<rparr>)"
| Signal: "\<lbrakk>procs s pid = Some stage;
      signalled can sig (image_of log_file stage) (if is_lock path lock_file log_file then lock_text s else log_text s)
        = (written, closed, e)\<rbrakk>
    \<Longrightarrow> daemon_step orphans path lock_file log_file s
          (s\<lparr>procs := (if leaves e then (procs s)(pid := None) else procs s),
             holder := unlock_if (leaves e \<or> closed \<and> is_lock path lock_file log_file) pid (holder s),
             lock_text := (if is_lock path lock_file log_file then written else lock_text s),
             log_text := (if is_lock path lock_file log_file then log_text s else written)\<rparr>)"
| Ends: "\<lbrakk>procs s pid = Some stage\<rbrakk>
    \<Longrightarrow> daemon_step orphans path lock_file log_file s
          (s\<lparr>procs := (procs s)(pid := None), holder := unlock_if True pid (holder s)\<rparr>)"

definition no_daemons :: "string \<Rightarrow> string \<Rightarrow> daemons" where
  "no_daemons text log = \<lparr>procs = Map.empty, holder = None, lock_text = text, log_text = log\<rparr>"

fun recorded_pid :: "nat \<Rightarrow> stage \<Rightarrow> string \<Rightarrow> bool" where
  "recorded_pid pid (Locked os p) text = (getpid os = pid \<and> getppid os \<noteq> 1 \<and> (\<forall>n \<in> set (um_keys (fds p)). n \<le> dtablesize os))"
| "recorded_pid pid (Recorded p p') text = (atoi text = Inr (int pid))"
| "recorded_pid pid (Runs p) text = (atoi text = Inr (int pid))"

definition one_daemon :: "daemons \<Rightarrow> bool" where
  "one_daemon s = (case holder s of None \<Rightarrow> procs s = Map.empty
     | Some pid \<Rightarrow> dom (procs s) = {pid} \<and> recorded_pid pid (the (procs s pid)) (lock_text s))"

lemma one_daemonI:
  assumes "dom (procs s) = {pid}" "procs s pid = Some stage" "holder s = Some pid" "recorded_pid pid stage (lock_text s)"
  shows "one_daemon s"
  using assms by (simp add: one_daemon_def)

lemma one_daemonE:
  assumes "one_daemon s" "procs s pid = Some stage"
  shows "dom (procs s) = {pid}" "holder s = Some pid" "recorded_pid pid stage (lock_text s)"
proof -
  have m: "pid \<in> dom (procs s)" using assms(2) by (rule domI)
  then obtain x where x: "holder s = Some x" "dom (procs s) = {x}" "recorded_pid x (the (procs s x)) (lock_text s)"
    using assms(1) by (cases "holder s") (simp_all add: one_daemon_def)
  with m have "x = pid" by simp
  with x assms(2) show "dom (procs s) = {pid}" "holder s = Some pid" "recorded_pid pid stage (lock_text s)" by simp_all
qed

lemma one_daemon_step:
  assumes "daemon_step False path lock_file log_file s s'" "\<not> is_lock path lock_file log_file" "one_daemon s"
  shows "one_daemon s'"
  using assms(1)
proof (cases rule: daemon_step.cases)
  case (Lock os p p' content)
  then have "procs s = Map.empty"
    using assms(3) daemonize_goes_on(2) [OF Lock(2-4)] by (simp add: one_daemon_def)
  with Lock show ?thesis
    by (intro one_daemonI [where pid = "getpid os" and stage = "Locked os p"]) simp_all
next
  case (Record pid os p p' content)
  note r = one_daemonE [OF assms(3) Record(2)]
  have "atoi content = Inr (int pid)"
    using daemonize_goes_on(3) [OF Record(3)] r(3) by simp
  then show ?thesis
    using Record r by (intro one_daemonI [where pid = pid and stage = "Recorded p p'"]) simp_all
next
  case (Catch pid p p')
  note r = one_daemonE [OF assms(3) Catch(2)]
  show ?thesis
    using Catch r by (intro one_daemonI [where pid = pid and stage = "Runs p'"]) simp_all
next
  case (Signal pid stage can sig written closed e)
  note r = one_daemonE [OF assms(3) Signal(2)]
  show ?thesis
  proof (cases "leaves e")
    case True
    have "(procs s)(pid := None) = Map.empty"
      using r(1) by (metis dom_eq_empty_conv dom_fun_upd Diff_cancel)
    then show ?thesis
      using Signal(1) True r(2) assms(2) by (simp add: one_daemon_def unlock_if_def)
  next
    case False
    then show ?thesis
      using Signal(1,2) r assms(2) by (intro one_daemonI [where pid = pid and stage = stage]) (simp_all add: unlock_if_def)
  qed
next
  case (Ends pid stage)
  note r = one_daemonE [OF assms(3) Ends(2)]
  have "(procs s)(pid := None) = Map.empty"
    using r(1) by (metis dom_eq_empty_conv dom_fun_upd Diff_cancel)
  with Ends(1) r(2) show ?thesis
    by (simp add: one_daemon_def unlock_if_def)
qed (use assms(3) in auto)

text \<open>A start of a process that finds the lock free, and a hang-up of a process that runs.\<close>

lemma daemon_starts:
  assumes log: "length (c_str log_file) < 256" and free: "holder s = None" "procs s pid = None" "pid < 10"
  shows "\<exists>p text. disposition_of p SIGHUP = Signal_handler \<and> main_log_file p = c_str log_file
    \<and> (daemon_step orphans path lock_file log_file)\<^sup>*\<^sup>* s
        (s\<lparr>procs := (procs s)(pid \<mapsto> Runs p), holder := Some pid, lock_text := text\<rparr>)"
proof -
  define os where "os content = \<lparr>getppid = 7, fork_result = 0, dtablesize = 0, log_opens = True, lock_opens = True,
      lock_free = True, getpid = pid, lock_content = content\<rparr>" for content
  fix q :: process
  let ?q = "q\<lparr>fds := []\<rparr>"
  have go: "\<exists>text. daemonize (os c) lock_file log_file ?q = Inr (Goes_on (daemon_process (os c) lock_file log_file ?q) text)" for c
    using daemonize_child [of log_file "os c" ?q lock_file] log free(3)
    by (simp add: os_def um_keys_def to_string.simps)
  define p where "p = daemon_process (os (lock_text s)) lock_file log_file ?q"
  obtain t1 where t1: "daemonize (os (lock_text s)) lock_file log_file ?q = Inr (Goes_on p t1)"
    using go [of "lock_text s"] by (auto simp: p_def)
  let ?s1 = "s\<lparr>procs := (procs s)(pid \<mapsto> Locked (os (lock_text s)) ?q), holder := Some pid\<rparr>"
  let ?s2 = "?s1\<lparr>procs := (procs ?s1)(pid \<mapsto> Recorded ?q p), lock_text := t1\<rparr>"
  have "(daemon_step orphans path lock_file log_file)\<^sup>*\<^sup>* s ?s1"
    using daemon_step.Lock [OF t1, of s] free by (intro r_into_rtranclp) (simp add: os_def um_keys_def)
  also have "daemon_step orphans path lock_file log_file ?s1 ?s2"
    using t1 by (intro daemon_step.Record [where os = "os (lock_text s)"]) (simp_all add: os_def)
  also have "daemon_step orphans path lock_file log_file ?s2 (?s2\<lparr>procs := (procs ?s2)(pid \<mapsto> Runs p)\<rparr>)"
    by (rule daemon_step.Catch) simp
  finally have "(daemon_step orphans path lock_file log_file)\<^sup>*\<^sup>* s
        (s\<lparr>procs := (procs s)(pid \<mapsto> Runs p), holder := Some pid, lock_text := t1\<rparr>)" by (cases s) simp
  moreover have "disposition_of p SIGHUP = Signal_handler" "main_log_file p = c_str log_file"
    by (simp_all add: p_def daemon_process_def disposition_of_def um_get_set)
  ultimately show ?thesis by blast
qed

lemma signalled_hup:
  assumes "disposition_of p SIGHUP = Signal_handler" "main_log_file p = c_str log_file"
  shows "signalled (\<lambda>_. True) SIGHUP p content = (content @ ''hangup signal caught'' @ [CHR 0x0A], True, Continues)"
  using assms by (simp add: signalled_def deliver_def signal_handler_def log_message_def append_log_def log_of_def um_index_set c_str_def um.index_value Let_def) (simp add: um_get_def)

lemma two_orphans:
  assumes "length (c_str log_file) < 256"
  shows "\<exists>s p q. (daemon_step True path lock_file log_file)\<^sup>*\<^sup>* (no_daemons text log) s \<and> procs s = [1 \<mapsto> Runs p, 2 \<mapsto> Runs q]"
proof -
  define os where "os pid = \<lparr>getppid = 1, fork_result = 0, dtablesize = 0, log_opens = True, lock_opens = True,
      lock_free = True, getpid = pid, lock_content = []\<rparr>" for pid
  fix q :: process
  let ?p = "q\<lparr>main_log_file := c_str log_file\<rparr>" and ?s = "no_daemons text log"
  have "daemonize (os pid) lock_file log_file q = Inr (Goes_on ?p [])" for pid
    using assms by (simp add: daemonize_def os_def)
  then have step: "daemon_step True path lock_file log_file s (s\<lparr>procs := (procs s)(pid \<mapsto> Runs ?p)\<rparr>)" if "procs s pid = None" for pid s
    using daemon_step.Orphan [where os = "os pid" and p = q and s = s] that by (simp add: os_def)
  have "(daemon_step True path lock_file log_file)\<^sup>*\<^sup>* ?s (?s\<lparr>procs := [1 \<mapsto> Runs ?p]\<rparr>)"
    using step [of ?s 1] by (intro r_into_rtranclp) (simp add: no_daemons_def)
  also have "daemon_step True path lock_file log_file (?s\<lparr>procs := [1 \<mapsto> Runs ?p]\<rparr>) (?s\<lparr>procs := [1 \<mapsto> Runs ?p, 2 \<mapsto> Runs ?p]\<rparr>)"
    using step [of "?s\<lparr>procs := [1 \<mapsto> Runs ?p]\<rparr>" 2] by simp
  finally have "(daemon_step True path lock_file log_file)\<^sup>*\<^sup>* ?s (?s\<lparr>procs := [1 \<mapsto> Runs ?p, 2 \<mapsto> Runs ?p]\<rparr>)" by simp
  then show ?thesis by (intro exI [of _ "?s\<lparr>procs := [1 \<mapsto> Runs ?p, 2 \<mapsto> Runs ?p]\<rparr>"]) auto
qed

lemma two_unlocked:
  assumes log: "length (c_str log_file) < 256" and same: "is_lock path lock_file log_file"
  shows "\<exists>s p q. (daemon_step False path lock_file log_file)\<^sup>*\<^sup>* (no_daemons text log) s \<and> procs s = [1 \<mapsto> Runs p, 2 \<mapsto> Runs q]"
proof -
  let ?step = "(daemon_step False path lock_file log_file)\<^sup>*\<^sup>*" and ?s = "no_daemons text log"
  obtain p t1 where p: "disposition_of p SIGHUP = Signal_handler" "main_log_file p = c_str log_file"
      "?step ?s (?s\<lparr>procs := [1 \<mapsto> Runs p], holder := Some 1, lock_text := t1\<rparr>)"
    using daemon_starts [where s = ?s and pid = 1 and log_file = log_file and orphans = False and path = path and lock_file = lock_file] log
    by (auto simp: no_daemons_def)
  let ?s1 = "?s\<lparr>procs := [1 \<mapsto> Runs p], holder := Some 1, lock_text := t1\<rparr>"
  let ?s2 = "?s1\<lparr>holder := None, lock_text := t1 @ ''hangup signal caught'' @ [CHR 0x0A]\<rparr>"
  note p(3)
  also have "daemon_step False path lock_file log_file ?s1 ?s2"
    using daemon_step.Signal [of ?s1 1 "Runs p" "\<lambda>_. True" SIGHUP log_file path lock_file] same signalled_hup [OF p(1,2)]
    by (simp add: leaves_def unlock_if_def)
  finally have "?step ?s ?s2" .
  moreover obtain q t2 where "?step ?s2 (?s2\<lparr>procs := (procs ?s2)(2 \<mapsto> Runs q), holder := Some 2, lock_text := t2\<rparr>)"
    using daemon_starts [where s = ?s2 and pid = 2 and log_file = log_file and orphans = False and path = path and lock_file = lock_file] log
    by (auto simp: no_daemons_def)
  ultimately have "?step ?s (?s2\<lparr>procs := (procs ?s2)(2 \<mapsto> Runs q), holder := Some 2, lock_text := t2\<rparr>)"
    by (rule rtranclp_trans)
  then show ?thesis
    by (intro exI [of _ "?s2\<lparr>procs := (procs ?s2)(2 \<mapsto> Runs q), holder := Some 2, lock_text := t2\<rparr>"]) auto
qed

section \<open>Properties\<close>

text \<open>
  C32. One daemon per lock file. When no process is started as a child of process 1 and the log is not
  the lock file itself, then whatever the lock file holds at first, and in any order of starts,
  refusals, signals and ends, a process between its lock and its end is the one that has the
  lock, so there is at most one, and as soon as it has recorded itself the lock file begins with its process id,
  also when an earlier content was longer. Both conditions are needed: two processes that are
  children of process 1 both run, and so do two daemons when the lock file is the log, because the
  handler of a hang-up opens and closes the log and with that gives up the lock.
\<close>

theorem single_daemon:
  "(\<not> is_lock path lock_file log_file \<and> (daemon_step False path lock_file log_file)\<^sup>*\<^sup>* (no_daemons text log) s \<longrightarrow>
      (\<forall>pid. pid \<in> dom (procs s) \<longleftrightarrow> holder s = Some pid)
      \<and> (\<forall>pid stage. procs s pid = Some stage \<and> (\<forall>os p. stage \<noteq> Locked os p) \<longrightarrow> atoi (lock_text s) = Inr (int pid)))
   \<and> (length (c_str log_file) < 256 \<longrightarrow>
        (\<exists>s p q. (daemon_step True path lock_file log_file)\<^sup>*\<^sup>* (no_daemons text log) s \<and> procs s = [1 \<mapsto> Runs p, 2 \<mapsto> Runs q]))
   \<and> (length (c_str log_file) < 256 \<and> is_lock path lock_file log_file \<longrightarrow>
        (\<exists>s p q. (daemon_step False path lock_file log_file)\<^sup>*\<^sup>* (no_daemons text log) s \<and> procs s = [1 \<mapsto> Runs p, 2 \<mapsto> Runs q]))"
proof (intro conjI impI)
  assume *: "\<not> is_lock path lock_file log_file \<and> (daemon_step False path lock_file log_file)\<^sup>*\<^sup>* (no_daemons text log) s"
  then have "(daemon_step False path lock_file log_file)\<^sup>*\<^sup>* (no_daemons text log) s" ..
  then have one: "one_daemon s"
    by (induction rule: rtranclp_induct)
      (use * one_daemon_step in \<open>auto simp: no_daemons_def one_daemon_def [of "daemons.make _ _ _ _", unfolded daemons.defs]\<close>)
  then show "\<forall>pid. pid \<in> dom (procs s) \<longleftrightarrow> holder s = Some pid"
    by (cases "holder s") (auto simp: one_daemon_def)
  show "\<forall>pid stage. procs s pid = Some stage \<and> (\<forall>os p. stage \<noteq> Locked os p) \<longrightarrow> atoi (lock_text s) = Inr (int pid)"
  proof (intro allI impI)
    fix pid stage
    assume "procs s pid = Some stage \<and> (\<forall>os p. stage \<noteq> Locked os p)"
    with one_daemonE(3) [OF one, of pid stage] show "atoi (lock_text s) = Inr (int pid)" by (cases stage) auto
  qed
next
  assume log: "length (c_str log_file) < 256"
  show "\<exists>s p q. (daemon_step True path lock_file log_file)\<^sup>*\<^sup>* (no_daemons text log) s \<and> procs s = [1 \<mapsto> Runs p, 2 \<mapsto> Runs q]"
    using two_orphans [OF log] by blast
next
  assume "length (c_str log_file) < 256 \<and> is_lock path lock_file log_file"
  then show "\<exists>s p q. (daemon_step False path lock_file log_file)\<^sup>*\<^sup>* (no_daemons text log) s \<and> procs s = [1 \<mapsto> Runs p, 2 \<mapsto> Runs q]"
    using two_unlocked by blast
qed

theorem single_daemon_witness:
  "\<exists>s. (daemon_step False id ''lock'' ''log'')\<^sup>*\<^sup>* (no_daemons (''123456'' @ [CHR 0x0A]) []) s
    \<and> dom (procs s) = {7} \<and> atoi (lock_text s) = Inr 7
    \<and> (\<exists>s p q. (daemon_step False id ''log'' ''log'')\<^sup>*\<^sup>* (no_daemons [] []) s \<and> procs s = [1 \<mapsto> Runs p, 2 \<mapsto> Runs q])"
proof -
  let ?s = "no_daemons (''123456'' @ [CHR 0x0A]) []"
  have different: "\<not> is_lock id ''lock'' ''log''" and same: "is_lock id ''log'' ''log''" by (simp_all add: is_lock_def c_str_def)
  obtain p t where *: "(daemon_step False id ''lock'' ''log'')\<^sup>*\<^sup>* ?s (?s\<lparr>procs := (procs ?s)(7 \<mapsto> Runs p), holder := Some 7, lock_text := t\<rparr>)"
    using daemon_starts [of "''log''" ?s 7 False id "''lock''"] by (auto simp: no_daemons_def c_str_def)
  have "atoi t = Inr 7"
    using single_daemon [of id "''lock''" "''log''" "''123456'' @ [CHR 0x0A]" "[]"] * different by (fastforce simp: no_daemons_def)
  then show ?thesis
    using * same single_daemon [of id "''log''" "''log''" "[]" "[]"]
    by (intro exI [of _ "?s\<lparr>procs := (procs ?s)(7 \<mapsto> Runs p), holder := Some 7, lock_text := t\<rparr>"])
      (auto simp: no_daemons_def c_str_def)
qed

text \<open>
  The standard streams of a daemon: behind the fork, and when its log file exists, the
  descriptors 0, 1 and 2 are the log file and 3 is the lock file, whatever was open before. When the log file does not
  exist it is not created: the lock file becomes the standard input, and the other two streams
  stay closed.
\<close>

theorem daemon_streams:
  assumes "daemonize os lock_file log_file p = Inr (Goes_on p' content)" "getppid os \<noteq> 1"
    and "\<forall>n \<in> set (um_keys (fds p)). n \<le> dtablesize os"
  shows "um_get (fds p') = (if log_opens os then [0 \<mapsto> log_file, 1 \<mapsto> log_file, 2 \<mapsto> log_file, 3 \<mapsto> lock_file] else [0 \<mapsto> lock_file])
    \<and> cwd p' = ''/tmp'' \<and> session_leader p'
    \<and> (\<forall>sig. disposition_of p' sig = (if sig \<in> {SIGHUP, SIGTERM} then Signal_handler
         else if sig \<in> {SIGCHLD, SIGTSTP, SIGTTOU, SIGTTIN} then SIG_IGN else disposition_of p sig))"
  using daemonize_goes_on(1) [OF assms]
  by (auto simp: daemon_process_def disposition_of_def um_get_def fun_eq_iff um_get_set [unfolded um_get_def])

theorem daemon_streams_witness:
  "\<exists>p' content. daemonize \<lparr>getppid = 7, fork_result = 0, dtablesize = 4, log_opens = False, lock_opens = True,
      lock_free = True, getpid = 99, lock_content = []\<rparr> ''lock'' ''log''
      \<lparr>main_log_file = ''example.log'', fds = [(0, ''tty''), (1, ''tty''), (2, ''tty'')], cwd = ''/'', mode_mask = 0,
       session_leader = False, dispositions = []\<rparr> = Inr (Goes_on p' content)
    \<and> um_get (fds p') = [0 \<mapsto> ''lock'']"
proof -
  let ?os = "\<lparr>getppid = 7, fork_result = 0, dtablesize = 4, log_opens = False, lock_opens = True,
      lock_free = True, getpid = 99, lock_content = []\<rparr>"
  let ?p = "\<lparr>main_log_file = ''example.log'', fds = [(0, ''tty''), (1, ''tty''), (2, ''tty'')], cwd = ''/'', mode_mask = 0,
       session_leader = False, dispositions = []\<rparr>"
  obtain p' content where *: "daemonize ?os ''lock'' ''log'' ?p = Inr (Goes_on p' content)"
    using daemonize_child [of "''log''" ?os ?p "''lock''"]
    by (auto simp: c_str_def um_keys_def to_string.simps)
  from daemon_streams [OF this] have "um_get (fds p') = [0 \<mapsto> ''lock'']"
    by (simp add: um_keys_def)
  with * show ?thesis by blast
qed

text \<open>
  A daemon that catches all signals logs every hang-up on a line of its own, ignores the signals of its
  terminal and its children, and at the first other signal writes the last line, cleans up once and
  exits; a crash, too, ends with status 0, and nothing that arrives later is seen.
\<close>

theorem crash_exits_zero:
  assumes "can (c_str (main_log_file p))" "\<forall>sig \<in> set sigs. \<not> fatal sig" "fatal f"
  shows "\<exists>st. deliver_all (deliver (signal_handler can)) (sigs @ f # rest)
        \<lparr>proc = catch_all_signals p, logs = files, finalized = 0, traces = []\<rparr> = (st, Exited 0)
    \<and> finalized st = 1
    \<and> log_of st = fst (um_index [] files (c_str (main_log_file p)))
        @ concat (replicate (count_list sigs SIGHUP) (''hangup signal caught'' @ [CHR 0x0A]))
        @ ''terminate signal caught'' @ [CHR 0x0A]"
proof -
  let ?st = "\<lparr>proc = catch_all_signals p, logs = files, finalized = 0, traces = []\<rparr>"
  have "main_log_file (catch_all_signals p) = main_log_file p" by (simp add: catch_all_signals_def Let_def)
  then have "session_ready can ?st" "log_of ?st = fst (um_index [] files (c_str (main_log_file p)))"
    using assms(1) by (simp_all add: session_ready_def log_of_def catch_all_caught)
  with c_daemon.session [OF this(1) assms(2,3), of rest] show ?thesis by simp
qed

theorem crash_exits_zero_witness:
  "\<exists>st. deliver_all (deliver (signal_handler (\<lambda>_. True))) [SIGHUP, SIGCHLD, SIGSEGV, SIGHUP]
        \<lparr>proc = catch_all_signals (p\<lparr>main_log_file := ''log''\<rparr>), logs = [], finalized = 0, traces = []\<rparr> = (st, Exited 0)
    \<and> finalized st = 1
    \<and> log_of st = ''hangup signal caught'' @ [CHR 0x0A] @ ''terminate signal caught'' @ [CHR 0x0A]"
  using crash_exits_zero [of "\<lambda>_. True" "p\<lparr>main_log_file := ''log''\<rparr>" "[SIGHUP, SIGCHLD]" SIGSEGV "[SIGHUP]" "[]"]
  by (simp add: fatal_def um.index_value)

text \<open>
  \<open>Rhea::Daemon\<close> logs into the file named by the argument of its constructor, whose body assigns another
  name, and runs its messages together; the first signal that ends it exits with status 0 and
  without the destructor, so its worker is neither signalled nor joined.
\<close>

theorem daemon_worker_abandoned:
  assumes "can (c_str name)" "\<forall>sig \<in> set sigs. \<not> fatal sig" "fatal f"
  shows "\<exists>d. deliver_all (deliver (signalHandler can)) (sigs @ f # rest) (Daemon_new name p files) = (d, Exited 0)
    \<and> \<not> worker_joined d
    \<and> log_of d = fst (um_index [] files (c_str name))
        @ concat (replicate (count_list sigs SIGHUP) ''hangup signal caught'') @ ''terminate signal caught''"
proof -
  have "main_log_file (catchSignals q) = main_log_file q" for q by (simp add: catchSignals_def Let_def)
  then have "session_ready can (Daemon_new name p files)" "\<not> worker_joined (Daemon_new name p files)"
    "log_of (Daemon_new name p files) = fst (um_index [] files (c_str name))"
    using assms(1) by (simp_all add: session_ready_def log_of_def Daemon_new_def catch_all_caught Let_def)
  with daemon_class.session [OF this(1) assms(2,3), of rest] show ?thesis
    by (auto split: if_splits)
qed

theorem daemon_worker_abandoned_witness:
  "\<exists>d. deliver_all (deliver (signalHandler (\<lambda>_. True))) [SIGHUP, SIGHUP, SIGTERM] (Daemon_new ''log'' p []) = (d, Exited 0)
    \<and> \<not> worker_joined d \<and> log_of d = ''hangup signal caughthangup signal caughtterminate signal caught''"
  using daemon_worker_abandoned [of "\<lambda>_. True" "''log''" "[SIGHUP, SIGHUP]" SIGTERM "[]" p "[]"]
  by (simp add: fatal_def um.index_value)

end
