(* ===== verification/Queue_Service.thy ===== *)
theory Queue_Service
  imports Old_Config Old_Codec Daemonize
begin

text \<open>
  The queue service of the first version: the client (\<open>old/queue/src/client/client.cpp\<close>), the server
  (\<open>old/queue/include/server/server.h\<close>, \<open>old/queue/src/server/server.cpp\<close>) and its main programs
  (\<open>mainTask.cpp\<close>, \<open>mainEvent.cpp\<close>). The template parameter \<open>T\<close> of the queue is a type variable, and its
  member \<open>task_origin\<close> a function; it is the field of that name for \<open>TaskEvent\<close>. Basket's queue, one
  queue per server, is a parameter.
\<close>

section \<open>The queue\<close>

record ('a, 'q) remote_queue =
  rq_push :: "'a \<Rightarrow> u16 \<Rightarrow> 'q \<Rightarrow> bool \<times> 'q"
  rq_pop :: "u16 \<Rightarrow> 'q \<Rightarrow> (bool \<times> 'a) \<times> 'q"
  rq_size :: "u16 \<Rightarrow> 'q \<Rightarrow> u64"
  rq_view :: "'q \<Rightarrow> u16 \<Rightarrow> 'a list"

definition rq_laws :: "('a, 'q) remote_queue \<Rightarrow> bool" where
  "rq_laws Q =
     ((\<forall>a s q. fst (rq_push Q a s q) \<and> rq_view Q (snd (rq_push Q a s q)) = (rq_view Q q)(s := rq_view Q q s @ [a]))
      \<and> (\<forall>s q. rq_view Q q s = [] \<longrightarrow> \<not> fst (fst (rq_pop Q s q)) \<and> rq_view Q (snd (rq_pop Q s q)) = rq_view Q q)
      \<and> (\<forall>s q a as. rq_view Q q s = a # as \<longrightarrow>
           fst (rq_pop Q s q) = (True, a) \<and> rq_view Q (snd (rq_pop Q s q)) = (rq_view Q q)(s := as))
      \<and> (\<forall>s q. rq_size Q s q = 0 \<longleftrightarrow> rq_view Q q s = []))"

section \<open>Client\<close>

definition queue_GetTask :: "('a, 'q) remote_queue \<Rightarrow> u16 \<Rightarrow> 'q \<Rightarrow> (bool \<times> 'a) \<times> 'q" where
  "queue_GetTask Q server q = rq_pop Q server q"

definition queue_PutTask :: "('a \<Rightarrow> u16) \<Rightarrow> ('a, 'q) remote_queue \<Rightarrow> 'a \<Rightarrow> 'q \<Rightarrow> bool \<times> 'q" where
  "queue_PutTask origin Q task q = rq_push Q task (origin task) q"

text \<open>The size is converted to \<open>bool\<close>.\<close>

definition queue_GetSize :: "('a, 'q) remote_queue \<Rightarrow> u16 \<Rightarrow> 'q \<Rightarrow> bool" where
  "queue_GetSize Q server q = (rq_size Q server q \<noteq> 0)"

text \<open>
  The constructor: both members are initialised before the body runs \<open>ConfigureQueueClient\<close>.
  \<open>default_port\<close> is the port basket's queue takes when it is given none.
\<close>

record queue_client =
  qc_name :: string
  qc_port :: u16
  num_servers :: nat

definition Queue_Client ::
  "(string \<Rightarrow> string) \<Rightarrow> json_files \<Rightarrow> (queue_basket \<Rightarrow> queue_basket) \<Rightarrow> (queue_basket \<Rightarrow> u16) \<Rightarrow> rhea_conf \<times> queue_basket
    \<Rightarrow> (queue_client \<times> rhea_conf \<times> queue_basket) result" where
  "Queue_Client cs fs load_servers default_port cb =
     (let client = \<lparr>qc_name = ''SERVER_REQUEST_QUEUE'', qc_port = default_port (snd cb), num_servers = NUM_SERVERS (snd cb)\<rparr>
      in rbind (ConfigureQueueClient cs fs load_servers cb) (\<lambda>cb. Inr (client, cb)))"

section \<open>Server\<close>

datatype worker_state = No_worker | Working | Joined

record queue_server =
  qs_name :: string
  qs_port :: u16
  future_taken :: bool
  signalled :: bool
  worker :: worker_state

definition Queue_Server :: "rhea_conf \<Rightarrow> queue_server" where
  "Queue_Server c = \<lparr>qs_name = ''SERVER_REQUEST_QUEUE'', qs_port = QUEUE_SERVER_PORT c, future_taken = False,
     signalled = False, worker = No_worker\<rparr>"

text \<open>\<open>Run\<close> takes the future of the promise, which is possible once, and starts the worker.\<close>

definition Run :: "queue_server \<Rightarrow> queue_server result" where
  "Run s = (if future_taken s then Inl Thread_error else Inr (s\<lparr>future_taken := True, worker := Working\<rparr>))"

text \<open>\<open>Stop\<close> sets the promise, which is possible once, and joins the worker, which must be a running thread.\<close>

definition Stop :: "int \<Rightarrow> queue_server \<Rightarrow> (queue_server \<times> string list) result" where
  "Stop rank s =
     (if signalled s then Inl Thread_error else
      let s = s\<lparr>signalled := True\<rparr>
      in if worker s \<noteq> Working then Inl Thread_error
         else Inr (s\<lparr>worker := Joined\<rparr>, if rank = 0 then [''Stopped the Chronoplayer server''] else []))"

text \<open>The worker: one element of the list per time-out of the future; the result is what it prints.\<close>

fun queue_RunInternal :: "int \<Rightarrow> bool \<Rightarrow> unit list \<Rightarrow> string list" where
  "queue_RunInternal rank count [] = []"
| "queue_RunInternal rank count (t # ts) =
     (if count then (if rank = 0 then [''Started the Chronoplayer server''] else []) @ queue_RunInternal rank False ts
      else queue_RunInternal rank count ts)"

section \<open>The main programs\<close>

definition queue_main ::
  "(string \<Rightarrow> string) \<Rightarrow> json_files \<Rightarrow> (queue_basket \<Rightarrow> queue_basket) \<Rightarrow> string option \<Rightarrow> process \<Rightarrow> rhea_conf \<times> queue_basket
    \<Rightarrow> (queue_server \<times> process \<times> rhea_conf \<times> queue_basket) result" where
  "queue_main cs fs load_servers argv1 p cb =
     (let c = (case argv1 of None \<Rightarrow> fst cb | Some path \<Rightarrow> (fst cb)\<lparr>CONFIGURATION_FILE := path\<rparr>);
          b = (snd cb)\<lparr>BACKED_FILE_DIR := QUEUE_DIR c\<rparr>
      in rbind (ConfigureQueueServer cs fs load_servers (c, b)) (\<lambda>(c, b).
         rbind (Run (Queue_Server c)) (\<lambda>server.
         let p = p\<lparr>main_log_file := ''Rhea queue server.log''\<rparr>;
             p = catch_all_signals p
         in Inr (server, p, c, b))))"

definition queue_finalize :: "int \<Rightarrow> queue_server \<Rightarrow> (queue_server \<times> string list) result" where
  "queue_finalize rank server = Stop rank server"

text \<open>The second queue service is for vectors of events; its main program is the same otherwise.\<close>

definition event_main ::
  "(string \<Rightarrow> string) \<Rightarrow> json_files \<Rightarrow> (queue_basket \<Rightarrow> queue_basket) \<Rightarrow> string option \<Rightarrow> process \<Rightarrow> rhea_conf \<times> queue_basket
    \<Rightarrow> (queue_server \<times> process \<times> rhea_conf \<times> queue_basket) result" where
  "event_main cs fs load_servers argv1 p cb =
     (let c = (case argv1 of None \<Rightarrow> fst cb | Some path \<Rightarrow> (fst cb)\<lparr>CONFIGURATION_FILE := path\<rparr>);
          b = (snd cb)\<lparr>BACKED_FILE_DIR := QUEUE_DIR c\<rparr>
      in rbind (ConfigureQueueServer cs fs load_servers (c, b)) (\<lambda>(c, b).
         rbind (Run (Queue_Server c)) (\<lambda>server.
         let p = p\<lparr>main_log_file := ''Rhea queue server.log''\<rparr>;
             p = catch_all_signals p
         in Inr (server, p, c, b))))"

definition event_finalize :: "int \<Rightarrow> queue_server \<Rightarrow> (queue_server \<times> string list) result" where
  "event_finalize rank server = Stop rank server"

text \<open>
  So the two services, whose elements differ, open a queue of the same name on the same port, and keep it in the
  same directory.
\<close>

lemma queue_services_collide:
  assumes "queue_main cs fs load_servers argv1 p cb = Inr (server, r)" "event_main cs fs load_servers argv1 p' cb = Inr (server', r')"
  shows "qs_name server' = qs_name server \<and> qs_port server' = qs_port server \<and> snd r' = snd r"
  using assms by (auto simp: queue_main_def event_main_def Let_def Run_def)

text \<open>
  The main program of the job manager (\<open>old/JobManager/main.cpp\<close>) is a client of the queue: it starts as many task managers as
  processes are left, and none when there is no space. \<open>conf_path\<close> is the name \<open>conf\<close> the source does not declare; the
  result is its exit status and the number of processes spawned.
\<close>

definition job_manager_main ::
  "(string \<Rightarrow> string) \<Rightarrow> json_files \<Rightarrow> (queue_basket \<Rightarrow> queue_basket) \<Rightarrow> (queue_basket \<Rightarrow> u16) \<Rightarrow> string \<Rightarrow> int \<Rightarrow> int
    \<Rightarrow> rhea_conf \<times> queue_basket \<Rightarrow> (int \<times> int) result" where
  "job_manager_main cs fs load_servers default_port conf_path universe_size world_size cb =
     (let available_size = universe_size - world_size
      in if available_size \<le> 0 then Inr (- 1, 0)
         else rbind (LoadRheaConfiguration cs fs ((fst cb)\<lparr>CONFIGURATION_FILE := conf_path\<rparr>)) (\<lambda>c.
           rbind (ConfigureQueueClient cs fs load_servers (c, snd cb)) (\<lambda>cb.
           rbind (Queue_Client cs fs load_servers default_port cb) (\<lambda>_. Inr (0, available_size)))))"

section \<open>What a task relies on\<close>

text \<open>
  A client that takes elements of one server's queue and puts elements to the queues of their
  destinations; \<open>moving\<close> is one round of a loop that does both.
\<close>

definition moving ::
  "('q \<Rightarrow> bool) \<Rightarrow> ('q \<Rightarrow> (bool \<times> 'a) \<times> 'q) \<Rightarrow> ('a \<Rightarrow> 'q \<Rightarrow> bool \<times> 'q) \<Rightarrow> ('a \<Rightarrow> 'a) \<Rightarrow> 'q \<Rightarrow> 'q" where
  "moving avail get put f q =
     (if avail q then (let (e, q') = get q in if fst e then snd (put (f (snd e)) q') else q') else q)"

locale event_queue =
  fixes ok :: "'c \<Rightarrow> bool"
    and get :: "'c \<Rightarrow> u16 \<Rightarrow> 'q \<Rightarrow> (bool \<times> 'a) \<times> 'q"
    and put :: "'c \<Rightarrow> 'a \<Rightarrow> 'q \<Rightarrow> bool \<times> 'q"
    and dest :: "'a \<Rightarrow> u16"
    and avail :: "'c \<Rightarrow> u16 \<Rightarrow> 'q \<Rightarrow> bool"
    and view :: "'c \<Rightarrow> 'q \<Rightarrow> u16 \<Rightarrow> 'a list"
  assumes put_view: "ok c \<Longrightarrow> view c (snd (put c a q)) = (view c q)(dest a := view c q (dest a) @ [a])"
    and get_view: "ok c \<Longrightarrow> view c q s = a # as \<Longrightarrow>
      fst (get c s q) = (True, a) \<and> view c (snd (get c s q)) = (view c q)(s := as)"
    and avail_view: "ok c \<Longrightarrow> avail c s q \<longleftrightarrow> view c q s \<noteq> []"
begin

lemma moving_view:
  assumes "ok c" "view c q s = a # as"
  shows "view c (moving (avail c s) (get c s) (put c) f q) =
    (let w = (view c q)(s := as) in w(dest (f a) := w (dest (f a)) @ [f a]))"
  using get_view [OF assms] avail_view [OF assms(1)] put_view [OF assms(1)] assms(2)
  by (auto simp: moving_def Let_def split: prod.split)

lemma moving_empty: "ok c \<Longrightarrow> view c q s = [] \<Longrightarrow> moving (avail c s) (get c s) (put c) f q = q"
  by (simp add: moving_def avail_view)

text \<open>Rounds that send every element elsewhere move a prefix of the queue, in order.\<close>

lemma moves_away:
  assumes "ok c" "\<And>a. a \<in> set (view c q s) \<Longrightarrow> dest (f a) \<noteq> s"
  shows "view c ((moving (avail c s) (get c s) (put c) f ^^ n) q) s = drop n (view c q s)
    \<and> (d \<noteq> s \<longrightarrow> view c ((moving (avail c s) (get c s) (put c) f ^^ n) q) d =
         view c q d @ filter (\<lambda>a. dest a = d) (map f (take n (view c q s))))"
  using assms(2)
proof (induction n arbitrary: q)
  case (Suc n)
  let ?m = "moving (avail c s) (get c s) (put c) f"
  show ?case
  proof (cases "view c q s")
    case Nil
    then have "?m q = q" by (rule moving_empty [OF assms(1)])
    with Suc.IH [of q] Nil show ?thesis by (simp add: funpow_Suc_right del: funpow.simps)
  next
    case (Cons a as)
    have v: "view c (?m q) = (let w = (view c q)(s := as) in w(dest (f a) := w (dest (f a)) @ [f a]))"
      by (rule moving_view [OF assms(1) Cons])
    have "dest (f a) \<noteq> s" using Suc.prems Cons by simp
    then have s: "view c (?m q) s = as" using v by (simp add: Let_def)
    with Suc.IH [of "?m q"] Suc.prems Cons v \<open>dest (f a) \<noteq> s\<close> show ?thesis
      by (auto simp: funpow_Suc_right Let_def simp del: funpow.simps)
  qed
qed simp

end

interpretation queue_client:
  event_queue rq_laws queue_GetTask "queue_PutTask origin" origin queue_GetSize rq_view
  by unfold_locales (auto simp: rq_laws_def queue_GetTask_def queue_PutTask_def queue_GetSize_def)

text \<open>A queue that satisfies the laws: lists by server. An empty pop answers the given element.\<close>

definition list_queue :: "'a \<Rightarrow> ('a, u16 \<Rightarrow> 'a list) remote_queue" where
  "list_queue none =
     \<lparr>rq_push = (\<lambda>a s q. (True, q(s := q s @ [a]))),
      rq_pop = (\<lambda>s q. case q s of [] \<Rightarrow> ((False, none), q) | a # as \<Rightarrow> ((True, a), q(s := as))),
      rq_size = (\<lambda>s q. if q s = [] then 0 else 1),
      rq_view = (\<lambda>q. q)\<rparr>"

lemma rq_laws_list_queue: "rq_laws (list_queue none)"
  by (auto simp: rq_laws_def list_queue_def)

section \<open>Properties\<close>

text \<open>Any sequence of calls to a server.\<close>

datatype server_op = Op_run | Op_stop

fun server_ops :: "int \<Rightarrow> server_op list \<Rightarrow> queue_server \<Rightarrow> queue_server result" where
  "server_ops rank [] s = Inr s"
| "server_ops rank (Op_run # ops) s = rbind (Run s) (server_ops rank ops)"
| "server_ops rank (Op_stop # ops) s = rbind (Stop rank s) (\<lambda>(s', out). server_ops rank ops s')"

text \<open>
  C36. A queue server lives once: it can be run, and then stopped, and every other sequence of calls ends
  in an exception of the promise or of the thread, stopping a server that never ran among
  them. After a run and a stop its worker has been signalled and joined.
\<close>

theorem queue_server_lives_once:
  "server_ops rank ops (Queue_Server c) =
     (if ops = [] then Inr (Queue_Server c)
      else if ops = [Op_run] then Inr ((Queue_Server c)\<lparr>future_taken := True, worker := Working\<rparr>)
      else if ops = [Op_run, Op_stop]
      then Inr ((Queue_Server c)\<lparr>future_taken := True, signalled := True, worker := Joined\<rparr>)
      else Inl Thread_error)"
proof -
  have over: "server_ops rank ops s = (if ops = [] then Inr s else Inl Thread_error)"
    if "future_taken s" "signalled s" for ops s
    using that by (cases ops; cases "hd ops") (auto simp: Run_def Stop_def)
  have running: "server_ops rank ops s = (if ops = [] then Inr s
      else if ops = [Op_stop] then Inr (s\<lparr>signalled := True, worker := Joined\<rparr>) else Inl Thread_error)"
    if "future_taken s" "\<not> signalled s" "worker s = Working" for ops s
  proof (cases ops)
    case (Cons x xs)
    with that show ?thesis
      using over [of "s\<lparr>signalled := True, worker := Joined\<rparr>" xs] by (cases x) (auto simp: Run_def Stop_def Let_def)
  qed simp
  show ?thesis
  proof (cases ops)
    case (Cons x xs)
    then show ?thesis
      using running [of "(Queue_Server c)\<lparr>future_taken := True, worker := Working\<rparr>" xs]
      by (cases x) (auto simp: Run_def Stop_def Let_def Queue_Server_def)
  qed simp
qed

text \<open>
  Where the server and the clients of the queue are: the server's main program chooses its directory
  before it loads the document, so its queue is kept in the built-in one whatever the document says; it
  opens the queue on the server port while basket's configuration has the client port. A client
  opens its queue, and counts its servers, with the configuration from before its own.
\<close>

theorem queue_ends_miss:
  assumes "queue_main cs fs load_servers argv1 p (c, b) = Inr (server, p', c', b')"
    and "\<And>x. BACKED_FILE_DIR (load_servers x) = BACKED_FILE_DIR x"
    and "Queue_Client cs fs2 load_servers2 default_port (c2, b2) = Inr (client, c3, b3)"
  shows "BACKED_FILE_DIR b' = QUEUE_DIR c
    \<and> (\<exists>doc. fs (c_str (CONFIGURATION_FILE c')) = Some (Some doc) \<and> config_CharStruct cs doc ''QUEUE_DIR'' = Inr (QUEUE_DIR c'))
    \<and> qs_port server = QUEUE_SERVER_PORT c' \<and> RPC_PORT b' = QUEUE_CLIENT_PORT c'
    \<and> worker server = Working \<and> all_caught p'
    \<and> qc_name client = qs_name server \<and> qc_port client = default_port b2 \<and> num_servers client = NUM_SERVERS b2
    \<and> RPC_PORT b3 = QUEUE_CLIENT_PORT c3"
proof -
  let ?c = "case argv1 of None \<Rightarrow> c | Some path \<Rightarrow> c\<lparr>CONFIGURATION_FILE := path\<rparr>"
  have dir: "QUEUE_DIR ?c = QUEUE_DIR c" by (simp split: option.split)
  have main: "LoadRheaConfiguration cs fs ?c = Inr c'" "BACKED_FILE_DIR b' = QUEUE_DIR c" "RPC_PORT b' = QUEUE_CLIENT_PORT c'"
    "qs_port server = QUEUE_SERVER_PORT c'" "worker server = Working" "all_caught p'"
    "qs_name server = ''SERVER_REQUEST_QUEUE''"
    using assms(1,2) dir
    by (auto simp: queue_main_def ConfigureQueueServer_def my_server_of_def Run_def Queue_Server_def Let_def
        catch_all_caught split: if_splits cong: option.case_cong)
  then obtain doc where "fs (c_str (CONFIGURATION_FILE ?c)) = Some (Some doc)"
    using load_ok [of cs fs ?c] by auto
  with load_fields(3,4) [OF main(1) this] main assms(3) show ?thesis
    by (auto simp: Queue_Client_def ConfigureQueueClient_def my_server_of_def Let_def split: if_splits)
qed

theorem queue_ends_miss_witness:
  "\<exists>server p' c' b'. queue_main id (\<lambda>_. Some (Some (sample_conf 14000))) (\<lambda>x. x\<lparr>NUM_SERVERS := 2\<rparr>) None p
      (Rhea_ConfigurationManager, b) = Inr (server, p', c', b')
    \<and> BACKED_FILE_DIR b' = ''/dev/shm/hari/Rhea'' \<and> QUEUE_DIR c' = ''/queue''"
proof -
  let ?fs = "\<lambda>_ :: string. Some (Some (sample_conf 14000))" and ?ls = "\<lambda>x :: queue_basket. x\<lparr>NUM_SERVERS := 2\<rparr>"
  have "\<exists>ms. sample_conf 14000 = JObj ms" by (simp add: sample_conf_def)
  with sample_conforms [of 14000] obtain c0 where c0: "LoadRheaConfiguration id ?fs Rhea_ConfigurationManager = Inr c0"
    using load_ok [of id ?fs Rhea_ConfigurationManager] by auto
  obtain server p' c' b' where m: "queue_main id ?fs ?ls None p (Rhea_ConfigurationManager, b) = Inr (server, p', c', b')"
    using c0 by (auto simp: queue_main_def ConfigureQueueServer_def my_server_of_def Run_def Queue_Server_def Let_def)
  obtain client c3 b3 where "Queue_Client id ?fs ?ls (\<lambda>_. 9) (Rhea_ConfigurationManager, b) = Inr (client, c3, b3)"
    using c0 by (auto simp: Queue_Client_def ConfigureQueueClient_def my_server_of_def Let_def)
  from queue_ends_miss [OF m _ this]
  have "BACKED_FILE_DIR b' = ''/dev/shm/hari/Rhea''" "config_CharStruct id (sample_conf 14000) ''QUEUE_DIR'' = Inr (QUEUE_DIR c')"
    by (auto simp: Rhea_ConfigurationManager_def)
  with m show ?thesis
    by (auto simp: config_CharStruct_def member_def members_def get_string_def sample_conf_def c_str_def)
qed

end
