(* ===== verification/Job_Utils.thy ===== *)
theory Job_Utils
  imports Complex_Main Queue_Service
begin

text \<open>
  The task loops of the first version (\<open>old/JobUtils/src/tasks\<close>, \<open>old/JobUtils/include/common/Timer.h\<close>):
  source, key-by, aggregate and sink. They take vectors of events from the queue service (theory
  \<open>Queue_Service\<close>). Where the code names a member that a vector does not have, the model has a parameter:
  \<open>dest\<close> is the \<open>task_origin\<close> of a vector; \<open>event.second.file\<close> is read as the file of the first event, the one
  the code works on. The key-by task calls a \<open>PutTask\<close> with a second argument, which no client declares: the model
  records these calls with their arguments and gives them no effect. A loop is a function of the list
  of its rounds: whether \<open>terminate\<close> was called before the test, and what other clients do to the queue
  between the size test and the \<open>GetTask\<close> of the round. Its result has the rounds' effects when the list is used up.
  \<open>run\<close> is \<open>init\<close>, \<open>exec\<close> and an empty \<open>finish\<close>; that it is declared to return a value and returns none is outside the model.
\<close>

type_synonym events = "file_event list"

section \<open>The life of a task\<close>

record util_task =
  running :: bool
  t_origin :: int
  t_destination :: int

definition util_init :: "int \<Rightarrow> int \<Rightarrow> util_task \<Rightarrow> util_task" where
  "util_init origin destination t = t\<lparr>t_origin := origin, t_destination := destination, running := True\<rparr>"

definition util_terminate :: "util_task \<Rightarrow> util_task" where
  "util_terminate t = t\<lparr>running := False\<rparr>"

text \<open>The other three tasks have members of their own, with the same bodies.\<close>

definition keyby_init :: "int \<Rightarrow> int \<Rightarrow> util_task \<Rightarrow> util_task" where
  "keyby_init origin destination t = t\<lparr>t_origin := origin, t_destination := destination, running := True\<rparr>"

definition keyby_terminate :: "util_task \<Rightarrow> util_task" where
  "keyby_terminate t = t\<lparr>running := False\<rparr>"

definition aggregate_init :: "int \<Rightarrow> int \<Rightarrow> util_task \<Rightarrow> util_task" where
  "aggregate_init origin destination t = t\<lparr>t_origin := origin, t_destination := destination, running := True\<rparr>"

definition aggregate_terminate :: "util_task \<Rightarrow> util_task" where
  "aggregate_terminate t = t\<lparr>running := False\<rparr>"

definition sink_init :: "int \<Rightarrow> int \<Rightarrow> util_task \<Rightarrow> util_task" where
  "sink_init origin destination t = t\<lparr>t_origin := origin, t_destination := destination, running := True\<rparr>"

definition sink_terminate :: "util_task \<Rightarrow> util_task" where
  "sink_terminate t = t\<lparr>running := False\<rparr>"

lemma util_same [simp]:
  "keyby_init = util_init" "aggregate_init = util_init" "sink_init = util_init"
  "keyby_terminate = util_terminate" "aggregate_terminate = util_terminate" "sink_terminate = util_terminate"
  by (simp_all add: fun_eq_iff keyby_init_def aggregate_init_def sink_init_def util_init_def
      keyby_terminate_def aggregate_terminate_def sink_terminate_def util_terminate_def)

lemma util_init_simps [simp]:
  "running (util_init origin destination t)" "t_origin (util_init origin destination t) = origin"
  "util_init origin destination (util_terminate t) = util_init origin destination t"
  by (simp_all add: util_init_def util_terminate_def)

text \<open>\<open>while (running)\<close> around a round that may throw; the state is whatever the round works on.\<close>

fun util_loop :: "('r \<Rightarrow> 's \<Rightarrow> 's result) \<Rightarrow> util_task \<Rightarrow> (bool \<times> 'r) list \<Rightarrow> 's \<Rightarrow> (util_task \<times> 's) result" where
  "util_loop body t [] s = Inr (t, s)"
| "util_loop body t ((stop, r) # rounds) s =
     (let t = (if stop then util_terminate t else t)
      in if running t then rbind (body r s) (util_loop body t rounds) else Inr (t, s))"

section \<open>Source\<close>

definition source_exec_round ::
  "(events \<Rightarrow> u16) \<Rightarrow> (events, 'q) remote_queue \<Rightarrow> int \<Rightarrow> ('q \<Rightarrow> 'q) \<Rightarrow> 'q \<Rightarrow> 'q result" where
  "source_exec_round dest Q origin others q =
     (if queue_GetSize Q (word_of_int origin) q then
        let (event, q) = queue_GetTask Q (word_of_int origin) (others q)
        in if fst event then Inr (snd (queue_PutTask dest Q (snd event) q)) else Inr q
      else Inr q)"

definition source_exec where
  "source_exec dest Q t rounds q = util_loop (source_exec_round dest Q (t_origin t)) t rounds q"

definition source_run where
  "source_run dest Q origin destination t rounds q =
     (let t = util_init origin destination t in source_exec dest Q t rounds q)"

section \<open>Key-by\<close>





section \<open>Timer\<close>

text \<open>Times are nanoseconds; \<open>getTimeElapsed\<close> answers milliseconds.\<close>

definition Timer :: "int \<Rightarrow> int" where
  "Timer now = now"

definition getTimeElapsed :: "int \<Rightarrow> int \<Rightarrow> rat" where
  "getTimeElapsed t1 now = of_int (now - t1) / 1000000"

definition timer_reset :: "int \<Rightarrow> int \<Rightarrow> int" where
  "timer_reset t1 now = now"

section \<open>Aggregate\<close>

record aggregate =
  aggregators :: "(string, events) table"
  timers :: "(string, int) table"
  active_file :: string
  active_aggregator :: events

definition AggregateTask_start :: aggregate where
  "AggregateTask_start = \<lparr>aggregators = [], timers = [], active_file = [], active_aggregator = []\<rparr>"

text \<open>
  The state of the loop has the queue and, as a trace, the vectors that were put. A round has two
  readings of the clock: for the timers made in it, and at \<open>getTimeElapsed\<close>. \<open>max_size\<close>, an \<open>int\<close>, is
  compared as \<open>size_t\<close>; \<open>std::sort\<close> orders by offset.
\<close>

type_synonym 'q aggregate_state = "aggregate \<times> 'q \<times> events list"

definition take_event :: "events \<Rightarrow> aggregate \<Rightarrow> aggregate result" where
  "take_event es a =
     (case es of [] \<Rightarrow> Inl Out_of_range
      | e # _ \<Rightarrow>
        let a = a\<lparr>active_file := fname e\<rparr>;
            a = (if um_get (aggregators a) (active_file a) = None
                 then a\<lparr>aggregators := um_set (active_file a) [] (aggregators a)\<rparr> else a);
            (v, m) = um_index [] (aggregators a) (active_file a);
            a = a\<lparr>aggregators := m, active_aggregator := v\<rparr>
        in Inr (a\<lparr>active_aggregator := active_aggregator a @ [e]\<rparr>))"

definition flush_due :: "int \<Rightarrow> int \<Rightarrow> int \<Rightarrow> int \<Rightarrow> aggregate \<Rightarrow> bool \<times> aggregate" where
  "flush_due max_size max_time made reading a =
     (if of_nat (length (active_aggregator a)) > (u64_of_int max_size) then (True, a)
      else let (t, m) = um_index (Timer made) (timers a) (active_file a)
           in (getTimeElapsed t reading > of_int max_time, a\<lparr>timers := m\<rparr>))"

definition settle ::
  "(events \<Rightarrow> u16) \<Rightarrow> (events, 'q) remote_queue \<Rightarrow> int \<Rightarrow> int \<Rightarrow> int \<Rightarrow> int \<Rightarrow> 'q aggregate_state \<Rightarrow> 'q aggregate_state" where
  "settle dest Q max_size max_time made reading s =
     (let (a, q, out) = s;
          a = (if length (active_aggregator a) = 1
               then a\<lparr>timers := um_set (active_file a) (Timer made) (timers a)\<rparr> else a);
          (due, a) = flush_due max_size max_time made reading a
      in if due
         then let a = a\<lparr>active_aggregator := sort_key offset (active_aggregator a)\<rparr>;
                  q = snd (queue_PutTask dest Q (active_aggregator a) q);
                  out = out @ [active_aggregator a];
                  a = a\<lparr>timers := um_erase (active_file a) (timers a)\<rparr>;
                  a = a\<lparr>aggregators := um_erase (active_file a) (aggregators a)\<rparr>
              in (a, q, out)
         else (a, q, out))"

definition aggregate_exec_round ::
  "(events \<Rightarrow> u16) \<Rightarrow> (events, 'q) remote_queue \<Rightarrow> int \<Rightarrow> int \<Rightarrow> int \<Rightarrow> ('q \<Rightarrow> 'q) \<times> int \<times> int
    \<Rightarrow> 'q aggregate_state \<Rightarrow> 'q aggregate_state result" where
  "aggregate_exec_round dest Q max_size max_time origin r s =
     (let (others, made, reading) = r; (a, q, out) = s
      in if queue_GetSize Q (word_of_int origin) q then
           let (event, q) = queue_GetTask Q (word_of_int origin) (others q)
           in rbind (if fst event then take_event (snd event) a else Inr a)
                (\<lambda>a. Inr (settle dest Q max_size max_time made reading (a, q, out)))
         else Inr (a, q, out))"

definition aggregate_exec where
  "aggregate_exec dest Q max_size max_time t rounds q =
     util_loop (aggregate_exec_round dest Q max_size max_time (t_origin t)) t rounds (AggregateTask_start, q, [])"

definition aggregate_run where
  "aggregate_run dest Q max_size max_time origin destination t rounds q =
     (let t = aggregate_init origin destination t in aggregate_exec dest Q max_size max_time t rounds q)"

section \<open>Sink\<close>

text \<open>
  Files by name. Opening the stream truncates the file; a stream that cannot be opened takes the writes
  without effect.
\<close>

type_synonym file_table = "string \<Rightarrow> string option"

definition write_events :: "events \<Rightarrow> string \<Rightarrow> string" where
  "write_events es content = foldl (\<lambda>c e. write_at c (unat (offset e)) (fdata e)) content es"

definition sink_exec_round ::
  "(string \<Rightarrow> bool) \<Rightarrow> (events, 'q) remote_queue \<Rightarrow> int \<Rightarrow> ('q \<Rightarrow> 'q) \<Rightarrow> 'q \<times> file_table \<Rightarrow> ('q \<times> file_table) result" where
  "sink_exec_round can Q origin others s =
     (let (q, files) = s
      in if queue_GetSize Q (word_of_int origin) q then
           let (event, q) = queue_GetTask Q (word_of_int origin) (others q)
           in if fst event then
                (case snd event of [] \<Rightarrow> Inl Out_of_range
                 | e # _ \<Rightarrow> Inr (q, if can (fname e) then files(fname e \<mapsto> write_events (snd event) []) else files))
              else Inr (q, files)
         else Inr (q, files))"

definition sink_exec where
  "sink_exec can Q t rounds q files = util_loop (sink_exec_round can Q (t_origin t)) t rounds (q, files)"

definition sink_run where
  "sink_run can Q t rounds q files =
     (let t = sink_init (t_origin t) (t_destination t) t in sink_exec can Q t rounds q files)"

section \<open>Lemmas on the loop\<close>

text \<open>As long as nobody terminates the task, and its rounds succeed, the loop applies them one after the other.\<close>

lemma util_loop_steps:
  assumes "running t" "\<forall>r \<in> set rounds. \<not> fst r" "I s"
    and "\<forall>r \<in> set rounds. \<forall>s. I s \<longrightarrow> body (snd r) s = Inr (f s) \<and> I (f s)"
  shows "util_loop body t rounds s = Inr (t, (f ^^ length rounds) s)"
  using assms(2-4)
proof (induction rounds arbitrary: s)
  case (Cons r rounds)
  obtain stop x where r: "r = (stop, x)" by (cases r)
  with Cons.prems have "\<not> stop" "body x s = Inr (f s)" "I (f s)" by auto
  moreover from Cons.prems have "util_loop body t rounds (f s) = Inr (t, (f ^^ length rounds) (f s))"
    using \<open>I (f s)\<close> by (intro Cons.IH) auto
  ultimately show ?case
    using assms(1) by (simp add: r funpow_Suc_right del: funpow.simps)
qed simp

text \<open>What holds of the state after every round holds in the end, also of loops that are terminated.\<close>

lemma util_loop_invariant:
  assumes "util_loop body t rounds s = Inr (t', s')" "I s" "\<And>r s s'. I s \<Longrightarrow> body r s = Inr s' \<Longrightarrow> I s'"
  shows "I s'"
  using assms(1,2)
proof (induction rounds arbitrary: t s)
  case (Cons r rounds)
  obtain stop x where r: "r = (stop, x)" by (cases r)
  from Cons show ?case
    by (auto simp: r Let_def split: if_splits dest: assms(3))
qed simp

text \<open>Rounds without termination and without other clients.\<close>

definition quiet :: "(bool \<times> ('q \<Rightarrow> 'q)) list \<Rightarrow> bool" where
  "quiet rounds = (\<forall>r \<in> set rounds. \<not> fst r \<and> snd r = id)"

section \<open>Source and key-by\<close>

lemma source_round_moving:
  "source_exec_round dest Q origin id q = Inr (moving (queue_GetSize Q (word_of_int origin)) (queue_GetTask Q (word_of_int origin))
     (queue_PutTask dest Q) id q)"
  by (simp add: source_exec_round_def moving_def Let_def case_prod_beta)

definition mark_first :: "(string \<Rightarrow> u64) \<Rightarrow> events \<Rightarrow> events" where
  "mark_first hash es = (case es of [] \<Rightarrow> [] | e # es \<Rightarrow> e\<lparr>keyby := event_hash hash e\<rparr> # es)"


lemma mark_first_nonempty [simp]: "mark_first hash es = [] \<longleftrightarrow> es = []"
  by (simp add: mark_first_def split: list.split)


section \<open>Properties of source and key-by\<close>

text \<open>
  A running source task empties its queue in order: after \<open>n\<close> rounds the first \<open>n\<close> vectors of its
  origin are, in their order, behind what waits at their destinations, and no other queue
  changes. A call of \<open>terminate\<close> before the run is lost.
\<close>

theorem source_moves:
  assumes "rq_laws Q" "quiet rounds" "\<forall>es \<in> set (rq_view Q q (word_of_int origin)). dest es \<noteq> word_of_int origin"
  shows "\<exists>t' q'. source_run dest Q origin destination t rounds q = Inr (t', q')
    \<and> rq_view Q q' (word_of_int origin) = drop (length rounds) (rq_view Q q (word_of_int origin))
    \<and> (\<forall>d. d \<noteq> word_of_int origin \<longrightarrow> rq_view Q q' d =
         rq_view Q q d @ filter (\<lambda>es. dest es = d) (take (length rounds) (rq_view Q q (word_of_int origin))))
    \<and> source_run dest Q origin destination (util_terminate t) rounds q = Inr (t', q')"
proof -
  let ?t = "util_init origin destination t"
  let ?m = "moving (queue_GetSize Q (word_of_int origin)) (queue_GetTask Q (word_of_int origin)) (queue_PutTask dest Q) id"
  have "util_loop (source_exec_round dest Q origin) ?t rounds q = Inr (?t, (?m ^^ length rounds) q)"
    using assms(2) by (intro util_loop_steps [where I = "\<lambda>_. True"]) (auto simp: quiet_def source_round_moving)
  then have "source_run dest Q origin destination t rounds q = Inr (?t, (?m ^^ length rounds) q)"
    by (simp add: source_run_def source_exec_def)
  moreover have "source_run dest Q origin destination (util_terminate t) rounds q = source_run dest Q origin destination t rounds q"
    by (simp add: source_run_def)
  ultimately show ?thesis
    using queue_client.moves_away [OF assms(1), of q "word_of_int origin" dest id] assms(3) by auto
qed


definition an_event :: "string \<Rightarrow> nat \<Rightarrow> string \<Rightarrow> file_event" where
  "an_event name off text = \<lparr>event_id = 0, fname = name, offset = of_nat off, fdata = text, keyby = 0\<rparr>"

definition two_batches :: "u16 \<Rightarrow> events list" where
  "two_batches = (\<lambda>_. [])(1 := [[an_event ''f'' 0 ''ab'', an_event ''f'' 2 ''c''], [an_event ''f'' 1 ''x'']])"

theorem source_moves_witness:
  "\<exists>t' q'. source_run (\<lambda>_. 2) (list_queue []) 1 2
      \<lparr>running = False, t_origin = 0, t_destination = 0\<rparr> [(False, id)] two_batches = Inr (t', q')
    \<and> q' 1 = [[an_event ''f'' 1 ''x'']] \<and> q' 2 = [[an_event ''f'' 0 ''ab'', an_event ''f'' 2 ''c'']]"
  using source_moves [OF rq_laws_list_queue, where rounds = "[(False, id)]" and q = two_batches and origin = 1
      and dest = "\<lambda>_. 2" and destination = 2 and t = "\<lparr>running = False, t_origin = 0, t_destination = 0\<rparr>" and none1 = "[]"]
  by (auto simp: quiet_def two_batches_def list_queue_def)


section \<open>Aggregate\<close>

text \<open>No aggregator that is kept has an event: the events are pushed into a copy.\<close>

definition kept_empty :: "aggregate \<Rightarrow> bool" where
  "kept_empty a = (\<forall>k v. um_get (aggregators a) k = Some v \<longrightarrow> v = [])"

lemma take_event_single:
  assumes "take_event es a = Inr a'" "kept_empty a"
  shows "kept_empty a' \<and> (\<exists>e es'. es = e # es' \<and> active_aggregator a' = [e] \<and> active_file a' = fname e)"
proof (cases es)
  case (Cons e es')
  with assms show ?thesis
    by (auto simp: take_event_def kept_empty_def Let_def um_index_def split: prod.splits option.splits if_splits)
qed (use assms in \<open>simp add: take_event_def\<close>)

lemma flush_due_keeps:
  "kept_empty (snd (flush_due ms mt made reading a)) = kept_empty a"
  "active_aggregator (snd (flush_due ms mt made reading a)) = active_aggregator a"
  by (simp_all add: flush_due_def kept_empty_def split: prod.split)

definition aggregate_inv :: "'q aggregate_state \<Rightarrow> bool" where
  "aggregate_inv s = (case s of (a, q, out) \<Rightarrow>
     kept_empty a \<and> length (active_aggregator a) \<le> 1 \<and> (\<forall>es \<in> set out. length es \<le> 1))"

lemma settle_inv:
  assumes "aggregate_inv s"
  shows "aggregate_inv (settle dest Q ms mt made reading s)"
proof -
  obtain a q out where s: "s = (a, q, out)" by (cases s) auto
  define a1 where "a1 = (if length (active_aggregator a) = 1
      then a\<lparr>timers := um_set (active_file a) (Timer made) (timers a)\<rparr> else a)"
  obtain due a2 where a2: "flush_due ms mt made reading a1 = (due, a2)" by fastforce
  have "kept_empty a1" "length (active_aggregator a1) \<le> 1"
    using assms by (simp_all add: aggregate_inv_def s a1_def kept_empty_def)
  with a2 have "kept_empty a2" "length (active_aggregator a2) \<le> 1"
    using flush_due_keeps [of ms mt made reading a1] by simp_all
  moreover have "settle dest Q ms mt made reading s =
      (if due
       then (a2\<lparr>active_aggregator := sort_key offset (active_aggregator a2), timers := um_erase (active_file a2) (timers a2),
               aggregators := um_erase (active_file a2) (aggregators a2)\<rparr>,
             snd (queue_PutTask dest Q (sort_key offset (active_aggregator a2)) q), out @ [sort_key offset (active_aggregator a2)])
       else (a2, q, out))"
    by (simp add: settle_def s Let_def a1_def [symmetric] a2 del: One_nat_def)
  ultimately show ?thesis
    using assms by (auto simp: s aggregate_inv_def kept_empty_def)
qed

lemma aggregate_round_inv:
  assumes "aggregate_inv s" "aggregate_exec_round dest Q ms mt origin r s = Inr s'"
  shows "aggregate_inv s'"
proof -
  obtain a q out where s: "s = (a, q, out)" by (cases s) auto
  obtain others made reading where r: "r = (others, made, reading)" by (cases r) auto
  show ?thesis
  proof (cases "queue_GetSize Q (word_of_int origin) q")
    case True
    obtain event q1 where g: "queue_GetTask Q (word_of_int origin) (others q) = (event, q1)" by fastforce
    obtain a1 where a1: "(if fst event then take_event (snd event) a else Inr a) = Inr a1"
      and s': "s' = settle dest Q ms mt made reading (a1, q1, out)"
      using assms(2) True g by (auto simp: aggregate_exec_round_def s r)
    have "aggregate_inv (a1, q1, out)"
      using assms(1) a1 take_event_single [of "snd event" a a1] by (auto simp: aggregate_inv_def s split: if_splits)
    then show ?thesis unfolding s' by (rule settle_inv)
  next
    case False
    with assms show ?thesis by (auto simp: aggregate_exec_round_def s r)
  qed
qed

text \<open>
  The aggregate task does not aggregate: whatever the queue, the clock, the limits and the other clients do, every
  vector it puts has at most one event.
\<close>

theorem aggregate_singletons:
  assumes "aggregate_run dest Q max_size max_time origin destination t rounds q = Inr (t', a, q', out)"
  shows "\<forall>es \<in> set out. length es \<le> 1"
proof -
  have "aggregate_inv (AggregateTask_start, q, [])"
    by (simp add: aggregate_inv_def AggregateTask_start_def kept_empty_def)
  then have "aggregate_inv (a, q', out)"
    by (rule util_loop_invariant [OF assms [unfolded aggregate_run_def aggregate_exec_def Let_def]]) (rule aggregate_round_inv)
  then show ?thesis by (simp add: aggregate_inv_def)
qed

theorem aggregate_singletons_witness:
  "\<exists>a q' out. aggregate_run (\<lambda>_. 2) (list_queue []) 0 100 1 2 \<lparr>running = True, t_origin = 1, t_destination = 2\<rparr>
       [(False, id, 0, 0)] two_batches = Inr (\<lparr>running = True, t_origin = 1, t_destination = 2\<rparr>, a, q', out)
     \<and> out = [[an_event ''f'' 0 ''ab'']] \<and> (\<forall>es \<in> set out. length es \<le> 1)"
proof -
  have "\<exists>a q'. aggregate_run (\<lambda>_. 2) (list_queue []) 0 100 1 2 \<lparr>running = True, t_origin = 1, t_destination = 2\<rparr>
       [(False, id, 0, 0)] two_batches
     = Inr (\<lparr>running = True, t_origin = 1, t_destination = 2\<rparr>, a, q', [[an_event ''f'' 0 ''ab'']])"
    by (simp add: aggregate_run_def util_init_def aggregate_exec_def aggregate_exec_round_def settle_def take_event_def flush_due_def Let_def um_index_def
        AggregateTask_start_def two_batches_def list_queue_def queue_GetSize_def queue_GetTask_def queue_PutTask_def
        u64_of_int_def an_event_def)
  then obtain a q' where run: "aggregate_run (\<lambda>_. 2) (list_queue []) 0 100 1 2 \<lparr>running = True, t_origin = 1, t_destination = 2\<rparr>
       [(False, id, 0, 0)] two_batches
     = Inr (\<lparr>running = True, t_origin = 1, t_destination = 2\<rparr>, a, q', [[an_event ''f'' 0 ''ab'']])" by blast
  from aggregate_singletons [OF run] show ?thesis using run by blast
qed

definition prompt_rounds :: "int \<Rightarrow> (bool \<times> ('q \<Rightarrow> 'q) \<times> int \<times> int) list \<Rightarrow> bool" where
  "prompt_rounds max_time rounds = (\<forall>(stop, others, made, reading) \<in> set rounds.
     \<not> stop \<and> others = id \<and> getTimeElapsed (Timer made) reading \<le> of_int max_time)"

lemma drop_round:
  assumes "rq_laws Q" "\<forall>es \<in> set (rq_view Q q (word_of_int origin)). es \<noteq> []" "1 \<le> ms" "ms < 2 ^ 31"
    and "getTimeElapsed (Timer made) reading \<le> of_int mt" "kept_empty a"
  shows "\<exists>a' q'. aggregate_exec_round dest Q ms mt origin (id, made, reading) (a, q, []) = Inr (a', q', []) \<and> kept_empty a'
    \<and> rq_view Q q' = (rq_view Q q)(word_of_int origin := tl (rq_view Q q (word_of_int origin)))"
proof (cases "rq_view Q q (word_of_int origin)")
  case Nil
  then have "\<not> queue_GetSize Q (word_of_int origin) q" using assms(1) by (simp add: queue_client.avail_view)
  with assms(6) Nil show ?thesis by (simp add: aggregate_exec_round_def fun_upd_idem)
next
  case (Cons es ess)
  then have avail: "queue_GetSize Q (word_of_int origin) q" using assms(1) by (simp add: queue_client.avail_view)
  obtain event q1 where g: "queue_GetTask Q (word_of_int origin) q = (event, q1)" by fastforce
  with queue_client.get_view [OF assms(1) Cons] have
    q1: "event = (True, es)" "rq_view Q q1 = (rq_view Q q)(word_of_int origin := ess)" by auto
  obtain e es' where es: "es = e # es'" using assms(2) Cons by (cases es) auto
  obtain a1 where a1: "take_event es a = Inr a1" using es by (simp add: take_event_def Let_def case_prod_beta)
  with take_event_single [OF a1 assms(6)] es have k: "kept_empty a1" "active_aggregator a1 = [e]" by auto
  have "unat (u64_of_int ms) = nat ms" using assms(3,4) by (simp add: u64_of_int_def unat_eq_nat_uint uint_word_of_int)
  then have "\<not> u64_of_int ms < 1" using assms(3) by (simp add: word_less_nat_alt)
  then have "flush_due ms mt made reading (a1\<lparr>timers := um_set (active_file a1) (Timer made) (timers a1)\<rparr>) =
      (False, a1\<lparr>timers := um_set (active_file a1) (Timer made) (timers a1)\<rparr>)"
    using assms(5) k(2) by (simp add: flush_due_def um_index_def)
  then have "settle dest Q ms mt made reading (a1, q1, []) =
      (a1\<lparr>timers := um_set (active_file a1) (Timer made) (timers a1)\<rparr>, q1, [])"
    using k(2) by (simp add: settle_def Let_def)
  then show ?thesis
    using avail g q1 a1 k(1) Cons by (simp add: aggregate_exec_round_def kept_empty_def)
qed

text \<open>
  With a limit of at least one event, and as long as no round of the loop takes longer than the
  time limit, the aggregate task drops what it takes: after \<open>n\<close> rounds the first \<open>n\<close> vectors are gone from its
  origin, no other queue has got anything, and nothing was put.
\<close>

theorem aggregate_drops:
  assumes "rq_laws Q" "prompt_rounds max_time rounds" "1 \<le> max_size" "max_size < 2 ^ 31"
    and "\<forall>es \<in> set (rq_view Q q (word_of_int origin)). es \<noteq> []"
  shows "\<exists>t' a q'. aggregate_run dest Q max_size max_time origin destination t rounds q = Inr (t', a, q', [])
    \<and> rq_view Q q' = (rq_view Q q)(word_of_int origin := drop (length rounds) (rq_view Q q (word_of_int origin)))"
proof -
  let ?o = "word_of_int origin :: u16" and ?t = "util_init origin destination t"
  have "\<exists>a' q'. util_loop (aggregate_exec_round dest Q max_size max_time origin) ?t rounds (a, q, []) = Inr (?t, a', q', [])
      \<and> rq_view Q q' = (rq_view Q q)(?o := drop (length rounds) (rq_view Q q ?o))" if "kept_empty a" for a
    using that assms(2,5)
  proof (induction rounds arbitrary: a q)
    case (Cons r rounds)
    obtain made reading where r: "r = (False, id, made, reading)" "getTimeElapsed (Timer made) reading \<le> of_int max_time"
      using Cons.prems(2) by (auto simp: prompt_rounds_def)
    obtain a1 q1 where 1: "aggregate_exec_round dest Q max_size max_time origin (id, made, reading) (a, q, []) = Inr (a1, q1, [])"
      "kept_empty a1" "rq_view Q q1 = (rq_view Q q)(?o := tl (rq_view Q q ?o))"
      using drop_round [OF assms(1) Cons.prems(3) assms(3,4) r(2) Cons.prems(1)] by blast
    have "prompt_rounds max_time rounds" using Cons.prems(2) by (simp add: prompt_rounds_def)
    moreover have "\<forall>es \<in> set (rq_view Q q1 ?o). es \<noteq> []"
      using Cons.prems(3) 1(3) by (cases "rq_view Q q ?o") auto
    ultimately have rest: "prompt_rounds max_time rounds" "\<forall>es \<in> set (rq_view Q q1 ?o). es \<noteq> []" by simp_all
    from Cons.IH [OF 1(2) rest] show ?case
      using 1 by (auto simp: r drop_Suc fun_eq_iff)
  qed simp
  then have "\<exists>a' q'. aggregate_run dest Q max_size max_time origin destination t rounds q = Inr (?t, a', q', [])
      \<and> rq_view Q q' = (rq_view Q q)(?o := drop (length rounds) (rq_view Q q ?o))"
    by (simp add: aggregate_run_def aggregate_exec_def AggregateTask_start_def kept_empty_def)
  then show ?thesis by blast
qed

theorem aggregate_drops_witness:
  "\<exists>t' a q'. aggregate_run (\<lambda>_. 2) (list_queue []) 5 100 1 2 \<lparr>running = False, t_origin = 0, t_destination = 0\<rparr>
       [(False, id, 0, 10), (False, id, 20, 30)] two_batches
       = Inr (t', a, q', []) \<and> q' = (\<lambda>_. [])"
  using aggregate_drops [OF rq_laws_list_queue, where t = "\<lparr>running = False, t_origin = 0, t_destination = 0\<rparr>" and origin = 1 and destination = 2
      and rounds = "[(False, id, 0, 10), (False, id, 20, 30)]" and max_time = 100 and max_size = 5 and q = two_batches
      and dest = "\<lambda>_. 2" and none1 = "[]"]
  by (auto simp: prompt_rounds_def getTimeElapsed_def Timer_def two_batches_def list_queue_def fun_eq_iff)

section \<open>Sink\<close>

text \<open>The events of a batch cover the file without a gap or an overlap.\<close>

fun contiguous :: "nat \<Rightarrow> events \<Rightarrow> bool" where
  "contiguous off [] = True"
| "contiguous off (e # es) = (unat (offset e) = off \<and> contiguous (off + length (fdata e)) es)"

lemma write_contiguous: "contiguous (length content) es \<Longrightarrow> write_events es content = content @ concat (map fdata es)"
proof (induction es arbitrary: content)
  case (Cons e es)
  then have "write_at content (unat (offset e)) (fdata e) = content @ fdata e" by simp
  with Cons.IH [of "content @ fdata e"] Cons.prems show ?case by (simp add: write_events_def)
qed (simp add: write_events_def)

text \<open>One round on a queue whose vectors are not empty.\<close>

definition sink_step :: "(string \<Rightarrow> bool) \<Rightarrow> (events, 'q) remote_queue \<Rightarrow> u16 \<Rightarrow> 'q \<times> file_table \<Rightarrow> 'q \<times> file_table" where
  "sink_step can Q s st =
     (if rq_view Q (fst st) s = [] then st
      else let es = hd (rq_view Q (fst st) s); f = fname (hd es)
           in (snd (queue_GetTask Q s (fst st)), if can f then (snd st)(f \<mapsto> write_events es []) else snd st))"

lemma sink_round_step:
  assumes "rq_laws Q" "\<forall>es \<in> set (rq_view Q (fst st) (word_of_int origin)). es \<noteq> []"
  shows "sink_exec_round can Q origin id st = Inr (sink_step can Q (word_of_int origin) st)"
    "rq_view Q (fst (sink_step can Q (word_of_int origin) st)) =
       (rq_view Q (fst st))(word_of_int origin := tl (rq_view Q (fst st) (word_of_int origin)))"
proof -
  obtain q files where st: "st = (q, files)" by (cases st)
  have "sink_exec_round can Q origin id st = Inr (sink_step can Q (word_of_int origin) st)
    \<and> rq_view Q (fst (sink_step can Q (word_of_int origin) st)) = (rq_view Q q)(word_of_int origin := tl (rq_view Q q (word_of_int origin)))"
  proof (cases "rq_view Q q (word_of_int origin)")
    case Nil
    then have "\<not> queue_GetSize Q (word_of_int origin) q" using assms(1) by (simp add: queue_client.avail_view)
    with Nil show ?thesis by (simp add: sink_exec_round_def sink_step_def st fun_upd_idem)
  next
    case (Cons es ess)
    then have "queue_GetSize Q (word_of_int origin) q" using assms(1) by (simp add: queue_client.avail_view)
    moreover obtain e es' where "es = e # es'" using assms(2) Cons st by (cases es) auto
    ultimately show ?thesis
      using queue_client.get_view [OF assms(1) Cons] Cons
      by (simp add: sink_exec_round_def sink_step_def st Let_def split: prod.split) auto
  qed
  then show "sink_exec_round can Q origin id st = Inr (sink_step can Q (word_of_int origin) st)"
    "rq_view Q (fst (sink_step can Q (word_of_int origin) st)) =
       (rq_view Q (fst st))(word_of_int origin := tl (rq_view Q (fst st) (word_of_int origin)))"
    by (simp_all add: st)
qed

text \<open>The batches for a file, and what is left of them.\<close>

definition batches_for :: "string \<Rightarrow> events list \<Rightarrow> events list" where
  "batches_for f bs = filter (\<lambda>b. fname (hd b) = f) bs"

lemma sink_steps:
  assumes "rq_laws Q" "\<forall>es \<in> set (rq_view Q q (word_of_int origin)). es \<noteq> []"
  shows "rq_view Q (fst ((sink_step can Q (word_of_int origin) ^^ n) (q, files))) =
       (rq_view Q q)(word_of_int origin := drop n (rq_view Q q (word_of_int origin)))
    \<and> snd ((sink_step can Q (word_of_int origin) ^^ n) (q, files)) f =
       (let bs = batches_for f (take n (rq_view Q q (word_of_int origin)))
        in if can f \<and> bs \<noteq> [] then Some (write_events (last bs) []) else files f)"
proof (induction n)
  case (Suc n)
  let ?o = "word_of_int origin :: u16"
  let ?xs = "rq_view Q q ?o"
  obtain q' files' where s: "(sink_step can Q ?o ^^ n) (q, files) = (q', files')" by fastforce
  note IH = Suc [unfolded s fst_conv snd_conv]
  then have v: "rq_view Q q' = (rq_view Q q)(?o := drop n ?xs)" by (rule conjunct1)
  from IH have f: "files' f = (let bs = batches_for f (take n ?xs)
      in if can f \<and> bs \<noteq> [] then Some (write_events (last bs) []) else files f)" by (rule conjunct2)
  have "\<forall>es \<in> set (rq_view Q q' ?o). es \<noteq> []" using assms(2) v by (auto dest: in_set_dropD)
  then have view: "rq_view Q (fst (sink_step can Q ?o (q', files'))) = (rq_view Q q)(?o := drop (Suc n) ?xs)"
    using sink_round_step(2) [OF assms(1), of "(q', files')" origin can] v by (simp add: tl_drop drop_Suc)
  show ?case
  proof (cases "n < length ?xs")
    case True
    let ?x = "?xs ! n"
    from True have "rq_view Q q' ?o \<noteq> []" "hd (rq_view Q q' ?o) = ?x" unfolding v by (simp_all add: hd_drop_conv_nth)
    then have "snd (sink_step can Q ?o (q', files')) f =
        (if can f \<and> fname (hd ?x) = f then Some (write_events ?x []) else files' f)"
      by (simp add: sink_step_def Let_def)
    moreover have "batches_for f (take (Suc n) ?xs) = batches_for f (take n ?xs) @ (if fname (hd ?x) = f then [?x] else [])"
      using True by (simp add: batches_for_def take_Suc_conv_app_nth)
    ultimately have "snd (sink_step can Q ?o (q', files')) f = (let bs = batches_for f (take (Suc n) ?xs)
        in if can f \<and> bs \<noteq> [] then Some (write_events (last bs) []) else files f)"
      using f by (auto simp: Let_def)
    with view show ?thesis by (simp only: funpow.simps o_apply s)
  next
    case False
    then have "sink_step can Q ?o (q', files') = (q', files')" using v by (simp add: sink_step_def)
    with False f v show ?thesis by (simp add: s)
  qed
qed (simp add: batches_for_def fun_upd_idem)

text \<open>
  C33. What a sink leaves in the files: after \<open>n\<close> rounds a file that can be opened holds the bytes of
  the last of the first \<open>n\<close> batches whose first event names it, and nothing of what it held
  before, or of an earlier batch; the events of a batch go to the file of its first one. A batch
  without gaps and overlaps leaves the bytes of its events in their order.
\<close>

theorem sink_keeps_last_batch:
  assumes "rq_laws Q" "quiet rounds" "\<forall>es \<in> set (rq_view Q q (word_of_int (t_origin t))). es \<noteq> []"
  shows "\<exists>t' q' files'. sink_run can Q t rounds q files = Inr (t', q', files')
    \<and> rq_view Q q' = (rq_view Q q)(word_of_int (t_origin t) := drop (length rounds) (rq_view Q q (word_of_int (t_origin t))))
    \<and> (\<forall>f. let bs = batches_for f (take (length rounds) (rq_view Q q (word_of_int (t_origin t))))
        in files' f = (if can f \<and> bs \<noteq> [] then Some (write_events (last bs) []) else files f)
           \<and> (can f \<and> bs \<noteq> [] \<and> contiguous 0 (last bs) \<longrightarrow> files' f = Some (concat (map fdata (last bs)))))"
proof -
  let ?o = "word_of_int (t_origin t) :: u16" and ?t = "util_init (t_origin t) (t_destination t) t"
  let ?I = "\<lambda>st. \<forall>es \<in> set (rq_view Q (fst st) ?o). es \<noteq> []"
  have step: "sink_exec_round can Q (t_origin t) id st = Inr (sink_step can Q ?o st) \<and> ?I (sink_step can Q ?o st)" if "?I st" for st
    using sink_round_step [OF assms(1) that] that by (cases "rq_view Q (fst st) ?o") auto
  have "util_loop (sink_exec_round can Q (t_origin t)) ?t rounds (q, files) = Inr (?t, (sink_step can Q ?o ^^ length rounds) (q, files))"
    using assms(2,3) step by (intro util_loop_steps [where I = ?I]) (auto simp: quiet_def)
  moreover obtain q' files' where s: "(sink_step can Q ?o ^^ length rounds) (q, files) = (q', files')" by fastforce
  ultimately have "sink_run can Q t rounds q files = Inr (?t, q', files')" by (simp add: sink_run_def sink_exec_def)
  then show ?thesis
    using sink_steps [OF assms(1,3), where can = can and n = "length rounds" and files = files] write_contiguous [of "[]"]
    by (auto simp: s Let_def)
qed

theorem sink_keeps_last_batch_witness:
  "\<exists>t' q' files'. sink_run (\<lambda>_. True) (list_queue []) \<lparr>running = False, t_origin = 1, t_destination = 2\<rparr> [(False, id)]
      two_batches (\<lambda>_. Some ''old content'') = Inr (t', q', files')
    \<and> files' ''f'' = Some ''abc''"
proof -
  let ?t = "\<lparr>running = False, t_origin = 1, t_destination = 2\<rparr>"
  let ?b = "[an_event ''f'' 0 ''ab'', an_event ''f'' 2 ''c'']"
  have "\<forall>es \<in> set (rq_view (list_queue []) two_batches (word_of_int (t_origin ?t))). es \<noteq> []"
    by (simp add: two_batches_def list_queue_def)
  from sink_keeps_last_batch [OF rq_laws_list_queue _ this, where rounds = "[(False, id)]" and can = "\<lambda>_. True"
      and files = "\<lambda>_. Some ''old content''"]
  obtain t' q' files' where run: "sink_run (\<lambda>_. True) (list_queue []) ?t [(False, id)] two_batches (\<lambda>_. Some ''old content'')
      = Inr (t', q', files')"
    and f: "let bs = batches_for ''f'' (take 1 (rq_view (list_queue []) two_batches 1))
        in bs \<noteq> [] \<and> contiguous 0 (last bs) \<longrightarrow> files' ''f'' = Some (concat (map fdata (last bs)))"
    by (auto simp: quiet_def Let_def)
  have "batches_for ''f'' (take 1 (rq_view (list_queue []) two_batches 1)) = [?b]"
    by (simp add: batches_for_def two_batches_def list_queue_def an_event_def)
  with f have "files' ''f'' = Some ''abc''" by (simp add: an_event_def)
  with run show ?thesis by blast
qed

end
